(* ===== verification/Prelude.thy ===== *)
theory Prelude
  imports Main "HOL-Library.Word" "HOL-Library.Monad_Syntax"
begin

text \<open>
  Shared vocabulary of the development: bytes and machine integers, results of system calls,
  the restart loop the C sources wrap around them, copies into fixed arrays, and the generic
  lemmas that the component theories use.
\<close>

unbundle bit_operations_syntax

type_synonym byte = "8 word"
type_synonym u16 = "16 word"
type_synonym u32 = "32 word"
type_synonym u64 = "64 word"

text \<open>
  \<^item> \<open>vtls_defs\<close>: the definitions a proof about one TLS operation unfolds;
  \<^item> \<open>sys_defs\<close>: the definitions of the socket shims;
  \<^item> \<open>option_elims\<close>: inversions of the option monad, used as \<open>elim!\<close>.
\<close>

named_theorems vtls_defs
named_theorems sys_defs
named_theorems option_elims

section \<open>The option monad\<close>

text \<open>
  A C function that may fail to return (an interrupted call restarted for ever, a mutex taken
  twice by its owner) is a function into \<open>option\<close>; \<open>None\<close> is "does not return".
\<close>

lemma bind_SomeE [option_elims]:
  assumes "Option.bind x f = Some y"
  obtains a where "x = Some a" and "f a = Some y"
  using assms by (cases x) auto

lemma bind_Some_iff: "Option.bind x f = Some y \<longleftrightarrow> (\<exists>a. x = Some a \<and> f a = Some y)"
  by (cases x) auto

section \<open>System calls\<close>

text \<open>
  A system call either succeeds with a value or fails with an \<open>errno\<close> (the C convention of a
  negative result with \<open>errno\<close> set). The numbers are those of Linux.
\<close>

datatype 'a sysret = SysOk 'a | SysErr int

lemma syscall_cases [case_names Ok Err]:
  obtains a k where "x = (SysOk a, k)" | e k where "x = (SysErr e, k)"
  by (cases x; cases "fst x") auto

abbreviation (input) EINTR :: int where "EINTR \<equiv> 4"
abbreviation (input) EAGAIN :: int where "EAGAIN \<equiv> 11"
abbreviation (input) EWOULDBLOCK :: int where "EWOULDBLOCK \<equiv> 11"
abbreviation (input) EBUSY :: int where "EBUSY \<equiv> 16"
abbreviation (input) EPIPE :: int where "EPIPE \<equiv> 32"
abbreviation (input) ENOSYS :: int where "ENOSYS \<equiv> 38"
abbreviation (input) ECONNRESET :: int where "ECONNRESET \<equiv> 104"
abbreviation (input) EINPROGRESS :: int where "EINPROGRESS \<equiv> 115"

text \<open>
  \<^verbatim>\<open>do { r = call(); } while (r < 0 && again(errno));\<close>, the loop around every call a signal may
  interrupt. It has no bound in the source, so not returning is \<open>None\<close>.
\<close>

partial_function (option) retry ::
  "(int \<Rightarrow> bool) \<Rightarrow> ('k \<Rightarrow> 'a sysret \<times> 'k) \<Rightarrow> 'k \<Rightarrow> ('a sysret \<times> 'k) option" where
  "retry again call k =
     (case call k of (r, k') \<Rightarrow>
        (case r of
           SysErr e \<Rightarrow> if again e then retry again call k' else Some (SysErr e, k')
         | SysOk a \<Rightarrow> Some (SysOk a, k')))"

text \<open>The state after \<open>n\<close> calls, and whether the first \<open>n\<close> calls were all to be restarted.\<close>

primrec after_calls :: "('k \<Rightarrow> 'a sysret \<times> 'k) \<Rightarrow> nat \<Rightarrow> 'k \<Rightarrow> 'k" where
  "after_calls call 0 k = k"
| "after_calls call (Suc n) k = after_calls call n (snd (call k))"

primrec all_again :: "(int \<Rightarrow> bool) \<Rightarrow> ('k \<Rightarrow> 'a sysret \<times> 'k) \<Rightarrow> nat \<Rightarrow> 'k \<Rightarrow> bool" where
  "all_again again call 0 k = True"
| "all_again again call (Suc n) k =
     ((\<exists>e. fst (call k) = SysErr e \<and> again e) \<and> all_again again call n (snd (call k)))"

definition settles :: "(int \<Rightarrow> bool) \<Rightarrow> ('k \<Rightarrow> 'a sysret \<times> 'k) \<Rightarrow> 'k \<Rightarrow> bool" where
  "settles again call k \<longleftrightarrow>
     (\<exists>n. all_again again call n k \<and> \<not> all_again again call (Suc n) k)"

lemma retry_again:
  "fst (call k) = SysErr e \<Longrightarrow> again e \<Longrightarrow> retry again call k = retry again call (snd (call k))"
  by (subst retry.simps) (auto split: prod.splits)

lemma retry_stop:
  "(\<And>e. fst (call k) = SysErr e \<Longrightarrow> \<not> again e) \<Longrightarrow> retry again call k = Some (call k)"
  by (subst retry.simps) (auto split: prod.splits sysret.splits)

lemma retry_after_calls:
  assumes "all_again again call n k" and "\<not> all_again again call (Suc n) k"
  shows "retry again call k = Some (call (after_calls call n k))"
  using assms
proof (induction n arbitrary: k)
  case 0
  then show ?case by (auto intro: retry_stop)
next
  case (Suc n)
  then obtain e where "fst (call k) = SysErr e" and "again e"
    by auto
  with Suc show ?case by (simp add: retry_again)
qed

lemma settles_retry:
  assumes "settles again call k"
  shows "\<exists>r k'. retry again call k = Some (r, k')"
proof -
  from assms obtain n where "all_again again call n k" and "\<not> all_again again call (Suc n) k"
    unfolding settles_def by blast
  then have "retry again call k = Some (call (after_calls call n k))"
    by (rule retry_after_calls)
  then show ?thesis by (metis surj_pair)
qed

text \<open>
  A restart loop that returned made \<open>n\<close> calls that were to be restarted and then one that was not,
  whose answer it hands on.
\<close>

lemma retry_returned:
  fixes call :: "'k \<Rightarrow> 'a sysret \<times> 'k"
  assumes ret: "retry again call k = Some x"
  shows "\<exists>n. all_again again call n k \<and> \<not> all_again again call (Suc n) k \<and>
           x = call (after_calls call n k)"
proof (rule retry.raw_induct [where P = "\<lambda>again call k x. \<exists>n. all_again again call n k \<and>
      \<not> all_again again call (Suc n) k \<and> x = call (after_calls call n k)", OF _ ret])
  fix f :: "(int \<Rightarrow> bool) \<Rightarrow> ('k \<Rightarrow> 'a sysret \<times> 'k) \<Rightarrow> 'k \<Rightarrow> ('a sysret \<times> 'k) option"
    and again :: "int \<Rightarrow> bool" and call :: "'k \<Rightarrow> 'a sysret \<times> 'k" and k :: 'k and x
  assume IH: "\<And>again call k x. f again call k = Some x \<Longrightarrow> \<exists>n. all_again again call n k \<and>
      \<not> all_again again call (Suc n) k \<and> x = call (after_calls call n k)"
    and eq: "(case call k of (r, k') \<Rightarrow> (case r of
        SysErr e \<Rightarrow> if again e then f again call k' else Some (SysErr e, k')
      | SysOk a \<Rightarrow> Some (SysOk a, k'))) = Some x"
  show "\<exists>n. all_again again call n k \<and> \<not> all_again again call (Suc n) k \<and>
      x = call (after_calls call n k)"
  proof (cases "\<exists>e. fst (call k) = SysErr e \<and> again e")
    case True
    with eq have "f again call (snd (call k)) = Some x"
      by (auto split: prod.splits)
    from IH [OF this] obtain n where "all_again again call n (snd (call k)) \<and>
        \<not> all_again again call (Suc n) (snd (call k)) \<and> x = call (after_calls call n (snd (call k)))"
      by blast
    with True show ?thesis by (intro exI [of _ "Suc n"]) simp
  next
    case False
    with eq show ?thesis
      by (intro exI [of _ 0]) (auto split: prod.splits sysret.splits if_splits)
  qed
qed

text \<open>What the loop's answer satisfies: whatever a call keeps while it is restarted, and the rest.\<close>

lemma retry_rule:
  assumes ret: "retry again call k = Some (r, k')"
    and start: "I k"
    and keep: "\<And>k e. I k \<Longrightarrow> fst (call k) = SysErr e \<Longrightarrow> again e \<Longrightarrow> I (snd (call k))"
    and stop: "\<And>k. I k \<Longrightarrow> \<forall>e. fst (call k) = SysErr e \<longrightarrow> \<not> again e \<Longrightarrow>
                Q (fst (call k)) (snd (call k))"
  shows "Q r k'"
proof -
  from retry_returned [OF ret] obtain n where n: "all_again again call n k"
    "\<not> all_again again call (Suc n) k" "(r, k') = call (after_calls call n k)"
    by blast
  from n start have "Q (fst (call (after_calls call n k))) (snd (call (after_calls call n k)))"
  proof (induction n arbitrary: k)
    case 0
    then show ?case using stop [of k] by simp
  next
    case (Suc n)
    then obtain e where "fst (call k) = SysErr e" and "again e"
      by auto
    with Suc.prems(4) have "I (snd (call k))"
      by (rule keep)
    with Suc show ?case by simp
  qed
  with n(3) show ?thesis by (metis fst_conv snd_conv)
qed

text \<open>Induction over the restarts of a call that settles.\<close>

lemma settles_induct [consumes 1, case_names stop restart]:
  assumes "settles again call k"
    and stop: "\<And>k. \<forall>e. fst (call k) = SysErr e \<longrightarrow> \<not> again e \<Longrightarrow> P k"
    and restart: "\<And>k e k'. call k = (SysErr e, k') \<Longrightarrow> again e \<Longrightarrow> P k' \<Longrightarrow> P k"
  shows "P k"
proof -
  from assms(1) obtain n where "all_again again call n k" "\<not> all_again again call (Suc n) k"
    unfolding settles_def by (elim exE conjE)
  then show ?thesis
  proof (induction n arbitrary: k)
    case 0
    then show ?case by (intro stop) auto
  next
    case (Suc n)
    then obtain e k1 where k1: "call k = (SysErr e, k1)" "again e" by (cases "call k") auto
    with Suc.prems have "all_again again call n k1" "\<not> all_again again call (Suc n) k1" by simp_all
    then have "P k1" by (rule Suc.IH)
    with k1 show ?case by (rule restart)
  qed
qed

section \<open>Fixed arrays\<close>

text \<open>\<^verbatim>\<open>memcpy(dst + off, src, n)\<close> into an array, the array being a list of fixed length.\<close>

definition memcpy_at :: "'a list \<Rightarrow> nat \<Rightarrow> 'a list \<Rightarrow> 'a list" where
  "memcpy_at dst off src = take off dst @ src @ drop (off + length src) dst"

lemma length_memcpy_at [simp]:
  "off + length src \<le> length dst \<Longrightarrow> length (memcpy_at dst off src) = length dst"
  by (simp add: memcpy_at_def)

lemma take_memcpy_at_0 [simp]: "take (length src) (memcpy_at dst 0 src) = src"
  by (simp add: memcpy_at_def)

text \<open>The bytes \<open>a[lo..hi)\<close> of an array.\<close>

definition segment :: "nat \<Rightarrow> nat \<Rightarrow> 'a list \<Rightarrow> 'a list" where
  "segment lo hi xs = take (hi - lo) (drop lo xs)"

lemma length_segment [simp]: "hi \<le> length xs \<Longrightarrow> length (segment lo hi xs) = hi - lo"
  by (simp add: segment_def)

lemma segment_empty [simp]: "hi \<le> lo \<Longrightarrow> segment lo hi xs = []"
  by (simp add: segment_def)

lemma segment_split:
  assumes "lo \<le> mid" and "mid \<le> hi"
  shows "segment lo hi xs = segment lo mid xs @ segment mid hi xs"
proof -
  from assms have "hi - lo = (mid - lo) + (hi - mid)" and "mid - lo + lo = mid"
    by simp_all
  then show ?thesis
    unfolding segment_def by (metis take_add drop_drop)
qed

lemma memcpy_at_append:
  "p + length xs + length ys \<le> length out \<Longrightarrow>
   memcpy_at (memcpy_at out p xs) (p + length xs) ys = memcpy_at out p (xs @ ys)"
  by (simp add: memcpy_at_def ac_simps)

lemma memcpy_at_before:
  "p + length xs + length ys \<le> length out \<Longrightarrow>
   memcpy_at (memcpy_at out (p + length xs) ys) p xs = memcpy_at out p (xs @ ys)"
  by (simp add: memcpy_at_def ac_simps)

lemma take_memcpy_at: "p + length xs \<le> length out \<Longrightarrow> take (p + length xs) (memcpy_at out p xs) = take p out @ xs"
  by (simp add: memcpy_at_def)

lemma segment_memcpy_at: "p + length xs \<le> length out \<Longrightarrow> segment p (p + length xs) (memcpy_at out p xs) = xs"
  by (simp add: memcpy_at_def segment_def)

lemma take_before_memcpy_at: "n \<le> p \<Longrightarrow> p \<le> length out \<Longrightarrow> take n (memcpy_at out p xs) = take n out"
  by (simp add: memcpy_at_def)

lemma segment_memcpy_at_0: "segment 0 (length src) (memcpy_at dst 0 src) = src"
  by (simp add: segment_def)

end
