(* ===== verification/Slots.thy ===== *)
theory Slots
  imports Prelude
begin

text \<open>
  The three per-thread hand-off slots of \<^verbatim>\<open>src/core\<close>: \<^verbatim>\<open>sendfile_slot.h\<close> (a file region to send
  after the response head), \<^verbatim>\<open>queued_buf_slot.h\<close> (a borrowed buffer to send as the response) and
  \<^verbatim>\<open>takeover_slot.h\<close> (a connection handed to another protocol). A handler queues into the slot, the
  worker takes from it after the handler returned. Each slot is a thread-local C struct, so one
  record stands for it and every operation passes it on.

  The contract they share is stated once, as the locale \<^verbatim>\<open>handoff_slot\<close> (and \<^verbatim>\<open>gated_slot\<close> for the
  two with a per-request gate), whose specification is a cell that holds at most one hand-off. Each
  slot, and the inert variant compiled by tcc, is an interpretation of it.
\<close>

type_synonym addr = nat

section \<open>The sendfile slot\<close>

record vanilla_sf_slot =
  sf_enabled :: bool
  sf_allowed :: bool
  sf_queued :: bool
  sf_file_fd :: int
  sf_off :: int
  sf_len :: int

definition vanilla_sf :: vanilla_sf_slot where
  "vanilla_sf = \<lparr>sf_enabled = False, sf_allowed = False, sf_queued = False,
     sf_file_fd = 0, sf_off = 0, sf_len = 0\<rparr>"

definition vanilla_sf_enable :: "vanilla_sf_slot \<Rightarrow> vanilla_sf_slot" where
  "vanilla_sf_enable s = s\<lparr>sf_enabled := True, sf_allowed := True\<rparr>"

definition vanilla_sf_set_allowed :: "bool \<Rightarrow> vanilla_sf_slot \<Rightarrow> vanilla_sf_slot" where
  "vanilla_sf_set_allowed allowed s = s\<lparr>sf_allowed := allowed\<rparr>"

definition vanilla_sf_queue ::
  "int \<times> int \<times> int \<Rightarrow> vanilla_sf_slot \<Rightarrow> bool \<times> vanilla_sf_slot" where
  "vanilla_sf_queue region s =
     (case region of (file_fd, off, len) \<Rightarrow>
        if \<not> sf_enabled s \<or> \<not> sf_allowed s then (False, s)
        else (True, s\<lparr>sf_file_fd := file_fd, sf_off := off, sf_len := len, sf_queued := True\<rparr>))"

text \<open>The out parameters are passed in and handed back: untouched when nothing is queued.\<close>

definition vanilla_sf_take ::
  "int \<times> int \<times> int \<Rightarrow> vanilla_sf_slot \<Rightarrow> bool \<times> (int \<times> int \<times> int) \<times> vanilla_sf_slot" where
  "vanilla_sf_take out s =
     (if \<not> sf_queued s then (False, out, s)
      else (True, (sf_file_fd s, sf_off s, sf_len s), s\<lparr>sf_queued := False\<rparr>))"

section \<open>The queued-buffer slot\<close>

record vanilla_qb_slot =
  qb_enabled :: bool
  qb_allowed :: bool
  qb_queued :: bool
  qb_ptr :: addr
  qb_len :: int

definition vanilla_qb :: vanilla_qb_slot where
  "vanilla_qb = \<lparr>qb_enabled = False, qb_allowed = False, qb_queued = False,
     qb_ptr = 0, qb_len = 0\<rparr>"

definition vanilla_qb_enable :: "vanilla_qb_slot \<Rightarrow> vanilla_qb_slot" where
  "vanilla_qb_enable s = s\<lparr>qb_enabled := True\<rparr>"

definition vanilla_qb_set_allowed :: "bool \<Rightarrow> vanilla_qb_slot \<Rightarrow> vanilla_qb_slot" where
  "vanilla_qb_set_allowed allowed s = s\<lparr>qb_allowed := allowed\<rparr>"

definition vanilla_qb_queue :: "addr \<times> int \<Rightarrow> vanilla_qb_slot \<Rightarrow> bool \<times> vanilla_qb_slot" where
  "vanilla_qb_queue buf s =
     (case buf of (ptr, len) \<Rightarrow>
        if \<not> qb_enabled s \<or> \<not> qb_allowed s then (False, s)
        else (True, s\<lparr>qb_ptr := ptr, qb_len := len, qb_queued := True\<rparr>))"

definition vanilla_qb_take ::
  "addr \<times> int \<Rightarrow> vanilla_qb_slot \<Rightarrow> bool \<times> (addr \<times> int) \<times> vanilla_qb_slot" where
  "vanilla_qb_take out s =
     (if \<not> qb_queued s then (False, out, s)
      else (True, (qb_ptr s, qb_len s), s\<lparr>qb_queued := False\<rparr>))"

section \<open>The takeover slot\<close>

record vanilla_to_slot =
  to_enabled :: bool
  to_queued :: bool
  to_cont :: addr
  to_state :: addr

definition vanilla_to :: vanilla_to_slot where
  "vanilla_to = \<lparr>to_enabled = False, to_queued = False, to_cont = 0, to_state = 0\<rparr>"

definition vanilla_to_enable :: "vanilla_to_slot \<Rightarrow> vanilla_to_slot" where
  "vanilla_to_enable s = s\<lparr>to_enabled := True\<rparr>"

definition vanilla_to_queue :: "addr \<times> addr \<Rightarrow> vanilla_to_slot \<Rightarrow> bool \<times> vanilla_to_slot" where
  "vanilla_to_queue h s =
     (case h of (cont, state) \<Rightarrow>
        if \<not> to_enabled s then (False, s)
        else (True, s\<lparr>to_cont := cont, to_state := state, to_queued := True\<rparr>))"

definition vanilla_to_take ::
  "addr \<times> addr \<Rightarrow> vanilla_to_slot \<Rightarrow> bool \<times> (addr \<times> addr) \<times> vanilla_to_slot" where
  "vanilla_to_take out s =
     (if \<not> to_queued s then (False, out, s)
      else (True, (to_cont s, to_state s), s\<lparr>to_queued := False\<rparr>))"

definition vanilla_to_pending :: "vanilla_to_slot \<Rightarrow> bool" where
  "vanilla_to_pending s = to_queued s"

section \<open>The inert slots of a tcc build\<close>

text \<open>tcc has no thread-local storage: the slot has no state, takes nothing and hands nothing out.\<close>

definition tcc_set_allowed :: "bool \<Rightarrow> unit \<Rightarrow> unit" where
  "tcc_set_allowed allowed s = s"

definition tcc_queue :: "'p \<Rightarrow> unit \<Rightarrow> bool \<times> unit" where
  "tcc_queue p s = (False, s)"

definition tcc_take :: "'p \<Rightarrow> unit \<Rightarrow> bool \<times> 'p \<times> unit" where
  "tcc_take out s = (False, out, s)"

section \<open>The shared contract\<close>

text \<open>
  The specification: a gate and a cell that holds at most one hand-off. A queue through the open
  gate replaces the cell's content, a take empties it.
\<close>

datatype 'p slot_op = Queue 'p | Take 'p | Gate bool

datatype 'p slot_obs = Queued bool | Took bool 'p | Gated

fun cell_step :: "'p slot_op \<Rightarrow> bool \<times> bool \<times> 'p option \<Rightarrow> 'p slot_obs \<times> bool \<times> bool \<times> 'p option"
where
  "cell_step (Queue p) (on, gate, c) =
     (Queued (on \<and> gate), on, gate, if on \<and> gate then Some p else c)"
| "cell_step (Take out) (on, gate, c) =
     (case c of None \<Rightarrow> Took False out | Some p \<Rightarrow> Took True p, on, gate, None)"
| "cell_step (Gate b) (on, gate, c) = (Gated, on, b, c)"

primrec run_ops :: "('p slot_op \<Rightarrow> 's \<Rightarrow> 'p slot_obs \<times> 's) \<Rightarrow> 'p slot_op list \<Rightarrow> 's \<Rightarrow> 'p slot_obs list" where
  "run_ops step [] s = []"
| "run_ops step (x # xs) s = fst (step x s) # run_ops step xs (snd (step x s))"

fun slot_step ::
  "('p \<Rightarrow> 's \<Rightarrow> bool \<times> 's) \<Rightarrow> ('p \<Rightarrow> 's \<Rightarrow> bool \<times> 'p \<times> 's) \<Rightarrow> (bool \<Rightarrow> 's \<Rightarrow> 's) \<Rightarrow>
   'p slot_op \<Rightarrow> 's \<Rightarrow> 'p slot_obs \<times> 's" where
  "slot_step queue grab gate (Queue p) s = (case queue p s of (b, s') \<Rightarrow> (Queued b, s'))"
| "slot_step queue grab gate (Take out) s = (case grab out s of (b, p, s') \<Rightarrow> (Took b p, s'))"
| "slot_step queue grab gate (Gate b) s = (Gated, gate b s)"

fun is_gate :: "'p slot_op \<Rightarrow> bool" where
  "is_gate (Gate b) = True"
| "is_gate _ = False"

locale handoff_slot =
  fixes queue :: "'p \<Rightarrow> 's \<Rightarrow> bool \<times> 's"
    and grab :: "'p \<Rightarrow> 's \<Rightarrow> bool \<times> 'p \<times> 's"
    and on :: "'s \<Rightarrow> bool"
    and allowed :: "'s \<Rightarrow> bool"
    and held :: "'s \<Rightarrow> 'p option"
  assumes queue_open: "on s \<Longrightarrow> allowed s \<Longrightarrow> \<exists>s'. queue p s = (True, s') \<and> held s' = Some p \<and> on s' \<and> allowed s'"
    and queue_closed: "\<not> (on s \<and> allowed s) \<Longrightarrow> queue p s = (False, s)"
    and take_held: "held s = Some p \<Longrightarrow>
          \<exists>s'. grab out s = (True, p, s') \<and> held s' = None \<and> on s' = on s \<and> allowed s' = allowed s"
    and take_empty: "held s = None \<Longrightarrow> grab out s = (False, out, s)"
begin

abbreviation view :: "'s \<Rightarrow> bool \<times> bool \<times> 'p option" where
  "view s \<equiv> (on s, allowed s, held s)"

lemma queue_refines:
  "fst (slot_step queue grab g (Queue p) s) = fst (cell_step (Queue p) (view s)) \<and>
   view (snd (slot_step queue grab g (Queue p) s)) = snd (cell_step (Queue p) (view s))"
proof (cases "on s \<and> allowed s")
  case True
  then show ?thesis using queue_open [of s p] by auto
next
  case False
  then show ?thesis using queue_closed [OF False, of p] by auto
qed

lemma take_refines:
  "fst (slot_step queue grab g (Take out) s) = fst (cell_step (Take out) (view s)) \<and>
   view (snd (slot_step queue grab g (Take out) s)) = snd (cell_step (Take out) (view s))"
proof (cases "held s")
  case None
  then show ?thesis using take_empty [OF None, of out] by simp
next
  case (Some p)
  then show ?thesis using take_held [OF Some, of out] by auto
qed

lemma run_refines_ungated:
  "\<not> list_ex is_gate ops \<Longrightarrow>
   run_ops (slot_step queue grab g) ops s = run_ops cell_step ops (view s)"
proof (induction ops arbitrary: s)
  case (Cons x xs)
  then show ?case
  proof (cases x)
    case (Queue p)
    with Cons queue_refines [of g p s] show ?thesis by simp
  next
    case (Take out)
    with Cons take_refines [of g out s] show ?thesis by simp
  next
    case (Gate b)
    with Cons.prems show ?thesis by simp
  qed
qed simp

end

locale gated_slot = handoff_slot queue grab on allowed held
  for queue :: "'p \<Rightarrow> 's \<Rightarrow> bool \<times> 's"
    and grab :: "'p \<Rightarrow> 's \<Rightarrow> bool \<times> 'p \<times> 's"
    and on :: "'s \<Rightarrow> bool"
    and allowed :: "'s \<Rightarrow> bool"
    and held :: "'s \<Rightarrow> 'p option" +
  fixes gate :: "bool \<Rightarrow> 's \<Rightarrow> 's"
  assumes gate_view: "on (gate b s) = on s" "on s \<Longrightarrow> allowed (gate b s) = b" "held (gate b s) = held s"
begin

text \<open>While the worker has not enabled the slot, the gate is shut whatever the backend sets.\<close>

lemma run_disabled:
  "\<not> on s \<Longrightarrow> held s = c \<Longrightarrow> run_ops (slot_step queue grab gate) ops s = run_ops cell_step ops (False, a, c)"
proof (induction ops arbitrary: s a c)
  case (Cons x xs)
  show ?case
  proof (cases x)
    case (Queue p)
    with Cons queue_closed [of s p] show ?thesis by simp
  next
    case (Take out)
    with Cons show ?thesis
      using take_empty [of s out] take_held [of s _ out]
      by (cases "held s") fastforce+
  next
    case (Gate b)
    with Cons.IH [of "gate b s" c b] Cons.prems gate_view(1,3) [of b s] show ?thesis by simp
  qed
qed simp

lemma run_refines: "run_ops (slot_step queue grab gate) ops s = run_ops cell_step ops (view s)"
proof (cases "on s")
  case True
  then show ?thesis
  proof (induction ops arbitrary: s)
    case (Cons x xs)
    show ?case
    proof (cases x)
      case (Queue p)
      with Cons queue_refines [of gate p s] show ?thesis by auto
    next
      case (Take out)
      with Cons take_refines [of gate out s] show ?thesis by auto
    next
      case (Gate b)
      with Cons gate_view [where b = b and s = s] show ?thesis by simp
    qed
  qed simp
next
  case False
  then show ?thesis using run_disabled [OF False refl] by simp
qed

end

text \<open>
  One request as the worker runs it: set the gate, let the handler queue what it wants, take. What
  the take hands out is the last hand-off of this very request.
\<close>

definition request_ops :: "bool \<times> 'p list \<times> 'p \<Rightarrow> 'p slot_op list" where
  "request_ops r = (case r of (gate, ps, out) \<Rightarrow> Gate gate # map Queue ps @ [Take out])"

definition request_obs :: "bool \<times> 'p list \<times> 'p \<Rightarrow> 'p slot_obs list" where
  "request_obs r = (case r of (gate, ps, out) \<Rightarrow>
     Gated # map (\<lambda>p. Queued gate) ps @
       [if gate \<and> ps \<noteq> [] then Took True (last ps) else Took False out])"

lemma cell_run_queues:
  "run_ops cell_step (map Queue ps @ ops) (True, g, c) =
   map (\<lambda>p. Queued g) ps @ run_ops cell_step ops (True, g, if g \<and> ps \<noteq> [] then Some (last ps) else c)"
  by (induction ps arbitrary: c) auto

lemma cell_run_request:
  "run_ops cell_step (request_ops r @ ops) (True, g, None) =
   request_obs r @ run_ops cell_step ops (True, fst r, None)"
  by (cases r) (simp add: request_ops_def request_obs_def cell_run_queues)

lemma cell_run_requests:
  "run_ops cell_step (concat (map request_ops rs)) (True, g, None) = concat (map request_obs rs)"
  by (induction rs arbitrary: g) (simp_all add: cell_run_request)

section \<open>The slots meet the contract\<close>

definition sf_held :: "vanilla_sf_slot \<Rightarrow> (int \<times> int \<times> int) option" where
  "sf_held s = (if sf_queued s then Some (sf_file_fd s, sf_off s, sf_len s) else None)"

definition qb_held :: "vanilla_qb_slot \<Rightarrow> (addr \<times> int) option" where
  "qb_held s = (if qb_queued s then Some (qb_ptr s, qb_len s) else None)"

definition to_held :: "vanilla_to_slot \<Rightarrow> (addr \<times> addr) option" where
  "to_held s = (if to_queued s then Some (to_cont s, to_state s) else None)"

text \<open>Each interpretation discharges the contract's laws for the code's own operations.\<close>

interpretation sf: gated_slot vanilla_sf_queue vanilla_sf_take sf_enabled sf_allowed sf_held
  vanilla_sf_set_allowed
  by unfold_locales
    (auto simp: vanilla_sf_queue_def vanilla_sf_take_def vanilla_sf_set_allowed_def sf_held_def
      split: if_splits)

interpretation qb: gated_slot vanilla_qb_queue vanilla_qb_take qb_enabled qb_allowed qb_held
  vanilla_qb_set_allowed
  by unfold_locales
    (auto simp: vanilla_qb_queue_def vanilla_qb_take_def vanilla_qb_set_allowed_def qb_held_def
      split: if_splits)

interpretation takeover: handoff_slot vanilla_to_queue vanilla_to_take to_enabled "\<lambda>s. True" to_held
  by unfold_locales
    (auto simp: vanilla_to_queue_def vanilla_to_take_def to_held_def split: if_splits)

interpretation inert: gated_slot "tcc_queue :: 'p \<Rightarrow> unit \<Rightarrow> bool \<times> unit" tcc_take
  "\<lambda>s. False" "\<lambda>s. True" "\<lambda>s. None" tcc_set_allowed
  by unfold_locales (auto simp: tcc_queue_def tcc_take_def)

section \<open>Properties\<close>

text \<open>
  C7. The sendfile slot is a one-element cell behind its gates: for every sequence of queue, take
  and set-allowed calls, from every state of the slot, each call answers what the cell of the
  specification answers. So a take hands out exactly the last region that was accepted since the
  previous take, once, and leaves its out parameters alone when there is none.
\<close>

theorem sf_slot_refines_cell:
  "run_ops (slot_step vanilla_sf_queue vanilla_sf_take vanilla_sf_set_allowed) ops s =
   run_ops cell_step ops (sf_enabled s, sf_allowed s, sf_held s)"
  by (rule sf.run_refines)

text \<open>
  C8. Hand-offs never leak between requests on the queued-buffer slot: on an enabled worker with an
  empty slot, any sequence of requests (set the gate, handler queues, worker takes) is answered
  request by request, each take yielding that request's own last buffer, or nothing when the gate
  was shut or nothing was queued.
\<close>

theorem qb_requests_isolated:
  assumes "qb_enabled s" and "\<not> qb_queued s"
  shows "run_ops (slot_step vanilla_qb_queue vanilla_qb_take vanilla_qb_set_allowed)
           (concat (map request_ops rs)) s = concat (map request_obs rs)"
  using assms by (simp add: qb.run_refines qb_held_def cell_run_requests)

theorem qb_requests_isolated_witness:
  "qb_enabled (vanilla_qb_enable vanilla_qb) \<and> \<not> qb_queued (vanilla_qb_enable vanilla_qb) \<and>
   run_ops (slot_step vanilla_qb_queue vanilla_qb_take vanilla_qb_set_allowed)
     (concat (map request_ops [(True, [(7, 100)], (0, 0)), (False, [(9, 5)], (1, 1))]))
     (vanilla_qb_enable vanilla_qb) =
   [Gated, Queued True, Took True (7, 100), Gated, Queued False, Took False (1, 1)]"
proof -
  have h: "qb_enabled (vanilla_qb_enable vanilla_qb)" "\<not> qb_queued (vanilla_qb_enable vanilla_qb)"
    by (simp_all add: vanilla_qb_enable_def vanilla_qb_def)
  show ?thesis
    using h qb_requests_isolated [OF h, of "[(True, [(7, 100)], (0, 0)), (False, [(9, 5)], (1, 1))]"]
    by (simp add: request_obs_def)
qed

text \<open>
  C9. The takeover slot: on every sequence of queue and take calls the slot answers like the cell,
  and \<^verbatim>\<open>vanilla_to_pending\<close> tells whether the next take will install a takeover.
\<close>

theorem to_slot_refines_cell:
  assumes "\<not> list_ex is_gate ops"
  shows "run_ops (slot_step vanilla_to_queue vanilla_to_take gate) ops s =
           run_ops cell_step ops (to_enabled s, True, to_held s) \<and>
         vanilla_to_pending s = fst (vanilla_to_take out s)"
  using takeover.run_refines_ungated [OF assms]
  by (simp add: vanilla_to_pending_def vanilla_to_take_def)

theorem to_slot_refines_cell_witness:
  "run_ops (slot_step vanilla_to_queue vanilla_to_take (\<lambda>b s. s))
     [Queue (1, 2), Queue (3, 4), Take (0, 0), Take (0, 0)] (vanilla_to_enable vanilla_to) =
   [Queued True, Queued True, Took True (3, 4), Took False (0, 0)]"
proof -
  have h: "\<not> list_ex is_gate [Queue (1, 2), Queue (3, 4), Take (0, 0), Take (0::addr, 0::addr)]"
    by simp
  show ?thesis
    using to_slot_refines_cell [OF h, of "\<lambda>b s. s" "vanilla_to_enable vanilla_to" "(0, 0)"]
    by (simp add: vanilla_to_enable_def vanilla_to_def to_held_def)
qed

end
