(* ===== verification/Sys.thy ===== *)
theory Sys
  imports Prelude
begin

text \<open>
  The kernel and the C library's name service, as the C sources use them. They are not part of the
  repository: a record of functions over an opaque kernel state \<open>'k\<close> is a parameter of every
  definition that makes a call, and what the code relies on is stated as a named predicate over it
  (\<^verbatim>\<open>fd_table\<close>, \<^verbatim>\<open>stream_socket\<close>). The kernel state holds everything the outcome of a call may depend
  on, so quantifying over kernels and states covers every behaviour of the system.

  The platform is Linux with glibc: the branches of the shims for other systems are not modelled.
\<close>

abbreviation (input) interrupted :: "int \<Rightarrow> bool" where
  "interrupted e \<equiv> e = EINTR"

datatype msg_flag = MSG_NOSIGNAL | MSG_PEEK | MSG_DONTWAIT

text \<open>\<^verbatim>\<open>struct tls12_crypto_info_aes_gcm_128\<close> of \<^verbatim>\<open>linux/tls.h\<close>.\<close>

record crypto_info =
  ci_version :: u16
  ci_cipher_type :: u16
  ci_iv :: "byte list"
  ci_key :: "byte list"
  ci_salt :: "byte list"
  ci_rec_seq :: "byte list"

datatype sockopt =
    TCP_NODELAY int
  | SO_KEEPALIVE int
  | TCP_KEEPIDLE int
  | TCP_KEEPINTVL int
  | TCP_KEEPCNT int
  | TCP_USER_TIMEOUT u32
  | TCP_ULP string
  | TLS_TX crypto_info
  | TLS_RX crypto_info
  | TLS_RX_EXPECT_NO_PAD int

text \<open>A signal's disposition: its handler and whether \<^verbatim>\<open>SA_SIGINFO\<close> is set.\<close>

datatype sighandler = SIG_DFL | SIG_IGN | SigFn int

record sigaction =
  sa_siginfo :: bool
  sa_handler :: sighandler

text \<open>The fields of \<^verbatim>\<open>struct stat\<close> the sources read.\<close>

record stat =
  st_regular :: bool
  st_nlink :: nat
  st_dev :: u64
  st_ino :: u64
  st_size :: int
  st_mtim :: "int \<times> int"
  st_ctim :: "int \<times> int"

text \<open>One \<^verbatim>\<open>struct addrinfo\<close>: its family and the bytes of its address.\<close>

type_synonym addrinfo = "int \<times> byte list"

abbreviation (input) AF_INET :: int where "AF_INET \<equiv> 2"
abbreviation (input) AF_INET6 :: int where "AF_INET6 \<equiv> 10"

record 'k kernel =
  k_socket :: "int \<Rightarrow> 'k \<Rightarrow> int sysret \<times> 'k" \<comment> \<open>stream, non-blocking, close-on-exec\<close>
  k_connect :: "int \<Rightarrow> byte list \<Rightarrow> 'k \<Rightarrow> unit sysret \<times> 'k"
  k_close :: "int \<Rightarrow> 'k \<Rightarrow> 'k"
  k_dup3 :: "int \<Rightarrow> int \<Rightarrow> 'k \<Rightarrow> unit sysret \<times> 'k" \<comment> \<open>with \<^verbatim>\<open>O_CLOEXEC\<close>\<close>
  k_setsockopt :: "int \<Rightarrow> sockopt \<Rightarrow> 'k \<Rightarrow> unit sysret \<times> 'k"
  k_getsockopt :: "int \<Rightarrow> int \<Rightarrow> int \<Rightarrow> 'k \<Rightarrow> int sysret \<times> 'k"
  k_recv :: "int \<Rightarrow> nat \<Rightarrow> msg_flag list \<Rightarrow> 'k \<Rightarrow> byte list sysret \<times> 'k"
  k_send :: "int \<Rightarrow> byte list \<Rightarrow> msg_flag list \<Rightarrow> 'k \<Rightarrow> nat sysret \<times> 'k"
  k_sendmsg :: "int \<Rightarrow> byte list list \<Rightarrow> (byte \<times> msg_flag list) option \<Rightarrow> 'k \<Rightarrow> nat sysret \<times> 'k"
    \<comment> \<open>the iovec; \<open>Some (t, _)\<close>: with a TLS record type \<open>t\<close> as control message\<close>
  k_poll :: "int \<Rightarrow> int \<Rightarrow> int \<Rightarrow> 'k \<Rightarrow> (nat \<times> int) sysret \<times> 'k"
    \<comment> \<open>one fd, events, timeout: the count of ready fds and the revents\<close>
  k_fionread :: "int \<Rightarrow> 'k \<Rightarrow> int sysret \<times> 'k"
  k_getpeername :: "int \<Rightarrow> 'k \<Rightarrow> (nat \<times> int \<times> byte list) sysret \<times> 'k"
    \<comment> \<open>the length the kernel reports, the family, the bytes\<close>
  k_pipe2 :: "'k \<Rightarrow> (int \<times> int) sysret \<times> 'k" \<comment> \<open>non-blocking, close-on-exec\<close>
  k_stat :: "string \<Rightarrow> 'k \<Rightarrow> stat sysret \<times> 'k"
  k_fstat :: "int \<Rightarrow> 'k \<Rightarrow> stat sysret \<times> 'k"
  k_open :: "string \<Rightarrow> 'k \<Rightarrow> int sysret \<times> 'k" \<comment> \<open>read-only, close-on-exec, non-blocking\<close>
  k_sigpipe_get :: "'k \<Rightarrow> sigaction sysret \<times> 'k"
  k_sigpipe_set :: "sigaction \<Rightarrow> 'k \<Rightarrow> unit sysret \<times> 'k"
  k_clock :: "'k \<Rightarrow> nat \<times> nat" \<comment> \<open>the monotonic clock: seconds, nanoseconds\<close>
  c_getaddrinfo :: "bool \<Rightarrow> string \<Rightarrow> string option \<Rightarrow> 'k \<Rightarrow> addrinfo list sysret \<times> 'k"
    \<comment> \<open>numeric host only?, host, service; the error is the \<^verbatim>\<open>EAI_\<close> code\<close>
  c_inet_pton :: "int \<Rightarrow> string \<Rightarrow> byte list option"

section \<open>What the code relies on\<close>

text \<open>
  The descriptor table: \<open>fds\<close> are the open descriptors. \<^verbatim>\<open>socket\<close> opens one that was free, \<^verbatim>\<open>close\<close>
  closes it, the other calls leave the table alone, except that \<^verbatim>\<open>dup3\<close> makes its target refer to the
  source's socket.
\<close>

definition fd_table :: "'k kernel \<Rightarrow> ('k \<Rightarrow> int set) \<Rightarrow> bool" where
  "fd_table K fds \<longleftrightarrow>
     (\<forall>fam k. case k_socket K fam k of
         (SysOk fd, k') \<Rightarrow> 0 \<le> fd \<and> fd \<notin> fds k \<and> fds k' = insert fd (fds k)
       | (SysErr e, k') \<Rightarrow> 0 < e \<and> fds k' = fds k) \<and>
     (\<forall>fd k. fds (k_close K fd k) = fds k - {fd}) \<and>
     (\<forall>fd opt k. fds (snd (k_setsockopt K fd opt k)) = fds k) \<and>
     (\<forall>fd sa k. case k_connect K fd sa k of (r, k') \<Rightarrow>
         fds k' = fds k \<and> (\<forall>e. r = SysErr e \<longrightarrow> 0 < e)) \<and>
     (\<forall>fd onto k. case k_dup3 K fd onto k of
         (SysOk u, k') \<Rightarrow> fds k' = insert onto (fds k)
       | (SysErr e, k') \<Rightarrow> 0 < e \<and> fds k' = fds k)"

text \<open>
  A receiver: \<open>rx x\<close> are the bytes waiting in state \<open>x\<close>, \<open>edge x\<close> whether a readable edge is pending that the
  event loop has not seen. Between \<open>x\<close> and \<open>x'\<close> the bytes \<open>bs\<close> were taken from the front; more may have
  arrived meanwhile, which raises an edge, and a pending edge stays pending.
\<close>

definition takes :: "('x \<Rightarrow> byte list) \<Rightarrow> ('x \<Rightarrow> bool) \<Rightarrow> 'x \<Rightarrow> byte list \<Rightarrow> 'x \<Rightarrow> bool" where
  "takes rx edge x bs x' \<longleftrightarrow>
     (\<exists>arrived. bs @ rx x' = rx x @ arrived \<and> (arrived \<noteq> [] \<longrightarrow> edge x')) \<and> (edge x \<longrightarrow> edge x')"

lemma takes_refl: "takes rx edge x [] x"
  by (auto simp: takes_def)

lemma takes_trans:
  assumes "takes rx edge x bs x'" and "takes rx edge x' bs' x''"
  shows "takes rx edge x (bs @ bs') x''"
proof -
  from assms obtain a a' where "bs @ rx x' = rx x @ a" "bs' @ rx x'' = rx x' @ a'"
    "a \<noteq> [] \<longrightarrow> edge x'" "a' \<noteq> [] \<longrightarrow> edge x''" "edge x \<longrightarrow> edge x'" "edge x' \<longrightarrow> edge x''"
    unfolding takes_def by blast
  then have "(bs @ bs') @ rx x'' = rx x @ (a @ a')" and "a @ a' \<noteq> [] \<longrightarrow> edge x''"
    by (metis append_assoc, auto)
  then show ?thesis
    using \<open>edge x \<longrightarrow> edge x'\<close> \<open>edge x' \<longrightarrow> edge x''\<close> unfolding takes_def by blast
qed

text \<open>
  The receive side of a connected, non-blocking stream socket watched edge-triggered. A \<^verbatim>\<open>recv\<close> hands
  out a prefix of what is there, at most as long as asked; when one comes back short, or with
  \<^verbatim>\<open>EAGAIN\<close>, the socket was drained, and whatever arrived later raised an edge (\<^verbatim>\<open>epoll(7)\<close>).
\<close>

definition stream_socket :: "'k kernel \<Rightarrow> int \<Rightarrow> ('k \<Rightarrow> byte list) \<Rightarrow> ('k \<Rightarrow> bool) \<Rightarrow> bool" where
  "stream_socket K fd rx edge \<longleftrightarrow>
     (\<forall>n k. case k_recv K fd n [] k of
         (SysOk bs, k') \<Rightarrow> length bs \<le> n \<and> takes rx edge k bs k' \<and>
            (length bs < n \<longrightarrow> rx k' = [] \<or> edge k')
       | (SysErr e, k') \<Rightarrow> takes rx edge k [] k' \<and> (e = EAGAIN \<longrightarrow> rx k' = [] \<or> edge k')) \<and>
     (\<forall>bs fl k. takes rx edge k [] (snd (k_send K fd bs fl k)))"

text \<open>The send side: \<open>wire k\<close> are the bytes the kernel accepted so far.\<close>

definition send_socket :: "'k kernel \<Rightarrow> int \<Rightarrow> ('k \<Rightarrow> byte list) \<Rightarrow> bool" where
  "send_socket K fd wire \<longleftrightarrow>
     (\<forall>bs fl k. case k_send K fd bs fl k of
         (SysOk n, k') \<Rightarrow> n \<le> length bs \<and> wire k' = wire k @ take n bs
       | (SysErr e, k') \<Rightarrow> wire k' = wire k) \<and>
     (\<forall>n fl k. wire (snd (k_recv K fd n fl k)) = wire k)"

text \<open>
  A system on which no call is interrupted for ever: the restart loops around the calls on \<open>fd\<close>
  settle from every state.
\<close>

definition calls_settle :: "'k kernel \<Rightarrow> bool" where
  "calls_settle K \<longleftrightarrow>
     (\<forall>fd n fl k. settles (\<lambda>e. e = EINTR) (k_recv K fd n fl) k) \<and>
     (\<forall>fd bs fl k. settles (\<lambda>e. e = EINTR) (k_send K fd bs fl) k)"

text \<open>A kernel on which every call fails with \<^verbatim>\<open>ENOSYS\<close>: the base of the concrete ones in witnesses.\<close>

definition no_kernel :: "'k kernel" where
  "no_kernel = \<lparr>
     k_socket = (\<lambda>fam k. (SysErr ENOSYS, k)),
     k_connect = (\<lambda>fd sa k. (SysErr ENOSYS, k)),
     k_close = (\<lambda>fd k. k),
     k_dup3 = (\<lambda>fd onto k. (SysErr ENOSYS, k)),
     k_setsockopt = (\<lambda>fd opt k. (SysErr ENOSYS, k)),
     k_getsockopt = (\<lambda>fd l n k. (SysErr ENOSYS, k)),
     k_recv = (\<lambda>fd n fl k. (SysErr ENOSYS, k)),
     k_send = (\<lambda>fd bs fl k. (SysErr ENOSYS, k)),
     k_sendmsg = (\<lambda>fd iov ctl k. (SysErr ENOSYS, k)),
     k_poll = (\<lambda>fd ev t k. (SysErr ENOSYS, k)),
     k_fionread = (\<lambda>fd k. (SysErr ENOSYS, k)),
     k_getpeername = (\<lambda>fd k. (SysErr ENOSYS, k)),
     k_pipe2 = (\<lambda>k. (SysErr ENOSYS, k)),
     k_stat = (\<lambda>p k. (SysErr ENOSYS, k)),
     k_fstat = (\<lambda>fd k. (SysErr ENOSYS, k)),
     k_open = (\<lambda>p k. (SysErr ENOSYS, k)),
     k_sigpipe_get = (\<lambda>k. (SysErr ENOSYS, k)),
     k_sigpipe_set = (\<lambda>a k. (SysErr ENOSYS, k)),
     k_clock = (\<lambda>k. (0, 0)),
     c_getaddrinfo = (\<lambda>num h s k. (SysErr ENOSYS, k)),
     c_inet_pton = (\<lambda>fam s. None)\<rparr>"

lemma settles_at_once: "(\<And>e. fst (call k) = SysErr e \<Longrightarrow> \<not> again e) \<Longrightarrow> settles again call k"
  unfolding settles_def by (rule exI [of _ 0]) auto

text \<open>
  A kernel whose state is one socket's receive queue and the bytes it has sent, for the witnesses; no
  byte arrives on its own.
\<close>

definition queue_kernel :: "(byte list \<times> byte list) kernel" where
  "queue_kernel = no_kernel\<lparr>
     k_recv := (\<lambda>fd n fl (q, out). if q = [] \<and> 0 < n then (SysErr EAGAIN, q, out)
                             else (SysOk (take n q), drop n q, out)),
     k_send := (\<lambda>fd bs fl (q, out). (SysOk (length bs), q, out @ bs))\<rparr>"

lemma queue_kernel_stream: "stream_socket queue_kernel fd fst (\<lambda>k. False)"
  by (auto simp: stream_socket_def queue_kernel_def takes_def split: if_splits)

lemma queue_kernel_send: "send_socket queue_kernel fd snd"
  by (auto simp: send_socket_def queue_kernel_def split: if_splits)

lemma queue_kernel_settles: "calls_settle queue_kernel"
  by (auto simp: calls_settle_def queue_kernel_def intro!: settles_at_once split: if_splits)

section \<open>Restarted calls on a socket\<close>

lemma stream_socket_recv:
  assumes "stream_socket K fd rx edge" and "k_recv K fd n [] k = (SysOk bs, k')"
  shows "length bs \<le> n" and "takes rx edge k bs k'" and "length bs < n \<Longrightarrow> rx k' = [] \<or> edge k'"
  using assms(1) [unfolded stream_socket_def, THEN conjunct1, rule_format, of n k] assms(2) by auto

lemma stream_socket_err:
  assumes "stream_socket K fd rx edge" and "k_recv K fd n [] k = (SysErr e, k')"
  shows "takes rx edge k [] k'" and "e = EAGAIN \<Longrightarrow> rx k' = [] \<or> edge k'"
  using assms(1) [unfolded stream_socket_def, THEN conjunct1, rule_format, of n k] assms(2) by auto

text \<open>A \<^verbatim>\<open>recv\<close> or \<^verbatim>\<open>send\<close> restarted after interruptions behaves like one.\<close>

lemma stream_socket_retry:
  assumes sock: "stream_socket K fd rx edge"
    and ret: "retry interrupted (k_recv K fd n []) k = Some (r, k')"
  shows "case r of
      SysOk bs \<Rightarrow> length bs \<le> n \<and> takes rx edge k bs k' \<and> (length bs < n \<longrightarrow> rx k' = [] \<or> edge k')
    | SysErr e \<Rightarrow> takes rx edge k [] k' \<and> (e = EAGAIN \<longrightarrow> rx k' = [] \<or> edge k')"
proof (rule retry_rule [OF ret, where I = "\<lambda>k'. takes rx edge k [] k'"])
  show "takes rx edge k [] k" by (rule takes_refl)
next
  fix k1 e
  assume I: "takes rx edge k [] k1" and "fst (k_recv K fd n [] k1) = SysErr e"
  then have "takes rx edge k1 [] (snd (k_recv K fd n [] k1))"
    using stream_socket_err(1) [OF sock, of n k1 e] by (cases "k_recv K fd n [] k1") simp
  from takes_trans [OF I this] show "takes rx edge k [] (snd (k_recv K fd n [] k1))" by simp
next
  fix k1
  assume I: "takes rx edge k [] k1"
  let ?x = "k_recv K fd n [] k1"
  show "case fst ?x of
      SysOk bs \<Rightarrow> length bs \<le> n \<and> takes rx edge k bs (snd ?x) \<and>
        (length bs < n \<longrightarrow> rx (snd ?x) = [] \<or> edge (snd ?x))
    | SysErr e \<Rightarrow> takes rx edge k [] (snd ?x) \<and> (e = EAGAIN \<longrightarrow> rx (snd ?x) = [] \<or> edge (snd ?x))"
  proof (cases ?x rule: syscall_cases)
    case (Ok bs k2)
    then show ?thesis
      using stream_socket_recv [OF sock Ok] takes_trans [OF I, of bs k2] by simp
  next
    case (Err e k2)
    then show ?thesis
      using stream_socket_err [OF sock Err] takes_trans [OF I, of "[]" k2] by simp
  qed
qed

lemma stream_socket_send_retry:
  assumes sock: "stream_socket K fd rx edge"
    and ret: "retry interrupted (k_send K fd bs fl) k = Some (r, k')"
  shows "takes rx edge k [] k'"
proof -
  have step: "takes rx edge k [] (snd (k_send K fd bs fl k1))" if "takes rx edge k [] k1" for k1
    using takes_trans [OF that, of "[]"] sock by (simp add: stream_socket_def)
  show ?thesis
    by (rule retry_rule [OF ret, where I = "\<lambda>k'. takes rx edge k [] k'" and Q = "\<lambda>r k'. takes rx edge k [] k'"])
      (auto intro: step takes_refl)
qed

lemma send_socketD:
  assumes "send_socket K fd wire"
  shows "k_send K fd bs fl k = (SysOk n, k') \<Longrightarrow> n \<le> length bs \<and> wire k' = wire k @ take n bs"
    and "k_send K fd bs fl k = (SysErr e, k') \<Longrightarrow> wire k' = wire k"
proof -
  from assms have "case k_send K fd bs fl k of
      (SysOk n, k') \<Rightarrow> n \<le> length bs \<and> wire k' = wire k @ take n bs
    | (SysErr e, k') \<Rightarrow> wire k' = wire k"
    unfolding send_socket_def by (elim conjE allE [of _ bs] allE [of _ fl] allE [of _ k])
  then show "k_send K fd bs fl k = (SysOk n, k') \<Longrightarrow> n \<le> length bs \<and> wire k' = wire k @ take n bs"
    and "k_send K fd bs fl k = (SysErr e, k') \<Longrightarrow> wire k' = wire k"
    by simp_all
qed

lemma send_socket_retry:
  assumes sock: "send_socket K fd wire"
    and ret: "retry interrupted (k_send K fd bs fl) k = Some (r, k')"
  shows "case r of SysOk n \<Rightarrow> n \<le> length bs \<and> wire k' = wire k @ take n bs | SysErr e \<Rightarrow> wire k' = wire k"
proof (rule retry_rule [OF ret, where I = "\<lambda>k'. wire k' = wire k"])
  fix k1 e
  assume "wire k1 = wire k" and "fst (k_send K fd bs fl k1) = SysErr e"
  then show "wire (snd (k_send K fd bs fl k1)) = wire k"
    using send_socketD(2) [OF sock, of bs fl k1 e] by (cases "k_send K fd bs fl k1") simp
next
  fix k1
  assume "wire k1 = wire k"
  then show "case fst (k_send K fd bs fl k1) of
      SysOk n \<Rightarrow> n \<le> length bs \<and> wire (snd (k_send K fd bs fl k1)) = wire k @ take n bs
    | SysErr e \<Rightarrow> wire (snd (k_send K fd bs fl k1)) = wire k"
    using send_socketD [OF sock, of bs fl k1]
    by (cases "k_send K fd bs fl k1" rule: syscall_cases) simp_all
qed simp

lemma send_socket_recv_retry:
  assumes sock: "send_socket K fd wire"
    and ret: "retry interrupted (k_recv K fd n fl) k = Some (r, k')"
  shows "wire k' = wire k"
proof -
  have step: "wire (snd (k_recv K fd n fl k1)) = wire k" if "wire k1 = wire k" for k1
    using sock that by (simp add: send_socket_def)
  show ?thesis
    by (rule retry_rule [OF ret, where I = "\<lambda>k'. wire k' = wire k" and Q = "\<lambda>r k'. wire k' = wire k"])
      (auto intro: step)
qed

end
