(* ===== verification/Shims.thy ===== *)
theory Shims
  imports Sys
begin

text \<open>
  The socket and file shims written in C: \<^verbatim>\<open>src/transport/transport_shim.h\<close> (dialling, name
  resolution, waiting), \<^verbatim>\<open>src/http1_1/upstream/upstream_shim.h\<close> (the pooled client's socket calls),
  \<^verbatim>\<open>src/pg_async/pg_async_shim.h\<close>, \<^verbatim>\<open>src/static_assets/file_sig.h\<close> and
  \<^verbatim>\<open>src/core/regular_file_nix.h\<close> (file signatures and sizes), \<^verbatim>\<open>src/server/sigpipe_shim.h\<close> and
  \<^verbatim>\<open>src/epoll/epoll_shim.h\<close>. Every function takes the kernel and its state and hands the state back;
  one that restarts an interrupted call returns in \<open>option\<close>.
\<close>

section \<open>Dialling\<close>

definition set_opt :: "'k kernel \<Rightarrow> int \<Rightarrow> sockopt \<Rightarrow> 'k \<Rightarrow> 'k" where
  "set_opt K fd opt k = snd (k_setsockopt K fd opt k)"

definition transport_tune :: "'k kernel \<Rightarrow> int \<Rightarrow> int \<Rightarrow> int \<Rightarrow> int \<Rightarrow> int \<Rightarrow> int \<Rightarrow> 'k \<Rightarrow> 'k" where
  "transport_tune K fd nodelay ka_idle ka_intvl ka_cnt user_timeout_ms k0 =
     (let k1 = (if nodelay \<noteq> 0 then set_opt K fd (TCP_NODELAY 1) k0 else k0);
          k2 = (if ka_idle > 0 then
                  (let a = set_opt K fd (SO_KEEPALIVE 1) k1;
                       b = set_opt K fd (TCP_KEEPIDLE ka_idle) a;
                       c = (if ka_intvl > 0 then set_opt K fd (TCP_KEEPINTVL ka_intvl) b else b)
                   in if ka_cnt > 0 then set_opt K fd (TCP_KEEPCNT ka_cnt) c else c)
                else k1)
      in if user_timeout_ms > 0
         then set_opt K fd (TCP_USER_TIMEOUT (word_of_int user_timeout_ms)) k2 else k2)"

definition transport_dial ::
  "'k kernel \<Rightarrow> int \<Rightarrow> byte list \<Rightarrow> int \<Rightarrow> int \<Rightarrow> int \<Rightarrow> int \<Rightarrow> int \<Rightarrow> 'k \<Rightarrow> int \<times> 'k" where
  "transport_dial K family sa nodelay ka_idle ka_intvl ka_cnt user_timeout_ms k =
     (case k_socket K family k of
        (SysErr e, k1) \<Rightarrow> (- e, k1)
      | (SysOk fd, k1) \<Rightarrow>
          (let k2 = (if family = AF_INET \<or> family = AF_INET6
                     then transport_tune K fd nodelay ka_idle ka_intvl ka_cnt user_timeout_ms k1
                     else k1)
           in case k_connect K fd sa k2 of
                (SysErr e, k3) \<Rightarrow>
                  if e \<noteq> EINPROGRESS then (- e, k_close K fd k3) else (fd, k3)
              | (SysOk u, k3) \<Rightarrow> (fd, k3)))"

text \<open>
  \<^verbatim>\<open>struct sockaddr_in\<close> and \<^verbatim>\<open>sockaddr_in6\<close> are laid out in the caller's 28 bytes: the family in host
  order (little endian), the port in network order, the address. The port is cut to 16 bits.
\<close>

definition port_be :: "int \<Rightarrow> byte list" where
  "port_be port = (let p = (word_of_int port :: u16) in [ucast (drop_bit 8 p), ucast p])"

definition transport_ip_addr ::
  "'k kernel \<Rightarrow> string \<Rightarrow> int \<Rightarrow> int \<Rightarrow> nat \<times> byte list \<times> int" where
  "transport_ip_addr K ip port family =
     (let zero = replicate 28 0 in
      case c_inet_pton K AF_INET ip of
        Some a \<Rightarrow> (16, memcpy_at zero 0 ([word_of_int AF_INET, 0] @ port_be port @ a), AF_INET)
      | None \<Rightarrow>
          (case c_inet_pton K AF_INET6 ip of
             Some a \<Rightarrow> (28, memcpy_at zero 0 ([word_of_int AF_INET6, 0] @ port_be port @
                              [0, 0, 0, 0] @ a), AF_INET6)
           | None \<Rightarrow> (0, zero, family)))"

abbreviation (input) SOL_SOCKET :: int where "SOL_SOCKET \<equiv> 1"
abbreviation (input) SO_ERROR :: int where "SO_ERROR \<equiv> 4"

definition transport_socket_error :: "'k kernel \<Rightarrow> int \<Rightarrow> 'k \<Rightarrow> int \<times> 'k" where
  "transport_socket_error K fd k =
     (case k_getsockopt K fd SOL_SOCKET SO_ERROR k of
        (SysErr e, k') \<Rightarrow> (e, k') | (SysOk v, k') \<Rightarrow> (v, k'))"

section \<open>Name resolution\<close>

record transport_resolved =
  tr_family :: int
  tr_len :: nat
  tr_data :: "byte list" \<comment> \<open>128 bytes\<close>

definition resolvable :: "addrinfo \<Rightarrow> bool" where
  "resolvable ai \<longleftrightarrow>
     (fst ai = AF_INET \<or> fst ai = AF_INET6) \<and> \<not> (length (snd ai) = 0 \<or> length (snd ai) > 128)"

text \<open>A slot of the caller's array holds the address \<open>ai\<close>.\<close>

definition holds_addr :: "transport_resolved \<Rightarrow> addrinfo \<Rightarrow> bool" where
  "holds_addr r ai \<longleftrightarrow> tr_family r = fst ai \<and> tr_len r = length (snd ai) \<and>
     take (tr_len r) (tr_data r) = snd ai"

fun resolve_copy ::
  "addrinfo list \<Rightarrow> int \<Rightarrow> nat \<Rightarrow> transport_resolved list \<Rightarrow> nat \<times> transport_resolved list" where
  "resolve_copy [] mx n out = (n, out)"
| "resolve_copy (ai # ais) mx n out =
     (if \<not> int n < mx then (n, out)
      else if fst ai \<noteq> AF_INET \<and> fst ai \<noteq> AF_INET6 then resolve_copy ais mx n out
      else if length (snd ai) = 0 \<or> length (snd ai) > 128 then resolve_copy ais mx n out
      else resolve_copy ais mx (Suc n)
             (out[n := \<lparr>tr_family = fst ai, tr_len = length (snd ai),
                        tr_data = memcpy_at (tr_data (out ! n)) 0 (snd ai)\<rparr>]))"

definition transport_resolve ::
  "'k kernel \<Rightarrow> string \<Rightarrow> string \<Rightarrow> transport_resolved list \<Rightarrow> int \<Rightarrow> 'k \<Rightarrow>
   (int + nat \<times> transport_resolved list) \<times> 'k" where
  "transport_resolve K host port out mx k =
     (case c_getaddrinfo K False host (Some port) k of
        (SysErr rc, k') \<Rightarrow> (Inl rc, k')
      | (SysOk res, k') \<Rightarrow> (Inr (resolve_copy res mx 0 out), k'))"

section \<open>Pipes and waiting\<close>

definition transport_pipe :: "'k kernel \<Rightarrow> 'k \<Rightarrow> (int \<times> (int \<times> int) option) \<times> 'k" where
  "transport_pipe K k =
     (case k_pipe2 K k of
        (SysOk fds, k') \<Rightarrow> ((0, Some fds), k') | (SysErr e, k') \<Rightarrow> ((- e, None), k'))"

abbreviation (input) POLLIN :: int where "POLLIN \<equiv> 1"

definition transport_wait :: "'k kernel \<Rightarrow> int \<Rightarrow> int \<Rightarrow> 'k \<Rightarrow> (int \<times> 'k) option" where
  "transport_wait K fd timeout_ms k = do {
     (r, k') \<leftarrow> retry interrupted (k_poll K fd POLLIN timeout_ms) k;
     Some (case r of SysOk (n, revents) \<Rightarrow> int n | SysErr e \<Rightarrow> - 1, k')
   }"

definition pg_async_wait :: "'k kernel \<Rightarrow> int \<Rightarrow> int \<Rightarrow> int \<Rightarrow> 'k \<Rightarrow> (int \<times> 'k) option" where
  "pg_async_wait K fd events timeout_ms k = do {
     (r, k') \<leftarrow> retry interrupted (k_poll K fd (sint (word_of_int events :: u16)) timeout_ms) k;
     Some (case r of
             SysOk (n, revents) \<Rightarrow> if n = 0 then 0 else revents
           | SysErr e \<Rightarrow> - 1, k')
   }"

definition pg_async_getsockopt_int :: "'k kernel \<Rightarrow> int \<Rightarrow> int \<Rightarrow> int \<Rightarrow> 'k \<Rightarrow> int \<times> 'k" where
  "pg_async_getsockopt_int K fd level name k =
     (case k_getsockopt K fd level name k of
        (SysErr e, k') \<Rightarrow> (- 1, k') | (SysOk v, k') \<Rightarrow> (v, k'))"

definition pg_async_pending_bytes :: "'k kernel \<Rightarrow> int \<Rightarrow> 'k \<Rightarrow> int \<times> 'k" where
  "pg_async_pending_bytes K fd k =
     (case k_fionread K fd k of (SysErr e, k') \<Rightarrow> (- 1, k') | (SysOk n, k') \<Rightarrow> (n, k'))"

text \<open>The answer is the length, with the family and the bytes copied out when it is not 0.\<close>

definition pg_async_peer_addr :: "'k kernel \<Rightarrow> int \<Rightarrow> 'k \<Rightarrow> (nat \<times> (int \<times> byte list) option) \<times> 'k" where
  "pg_async_peer_addr K fd k =
     (case k_getpeername K fd k of
        (SysErr e, k') \<Rightarrow> ((0, None), k')
      | (SysOk (len, fam, ss), k') \<Rightarrow>
          if len = 0 \<or> len > 128 then ((0, None), k') else ((len, Some (fam, take len ss)), k'))"

section \<open>The pooled client's socket calls\<close>

definition upstream_dup_onto :: "'k kernel \<Rightarrow> int \<Rightarrow> int \<Rightarrow> 'k \<Rightarrow> (int \<times> 'k) option" where
  "upstream_dup_onto K fd onto k = do {
     (r, k1) \<leftarrow> retry (\<lambda>e. e = EINTR \<or> e = EBUSY) (k_dup3 K fd onto) k;
     let k2 = k_close K fd k1;
     Some (case r of SysErr e \<Rightarrow> - e | SysOk u \<Rightarrow> onto, k2)
   }"

text \<open>The iovec handed to \<^verbatim>\<open>sendmsg\<close>: an empty first part is skipped, an empty second one not counted.\<close>

definition upstream_iov :: "byte list \<Rightarrow> byte list \<Rightarrow> byte list list" where
  "upstream_iov p1 p2 =
     (let iov = [p1, p2];
          msg_iov = (if length p1 > 0 then iov else drop 1 iov);
          msg_iovlen = (if length p1 > 0 \<and> length p2 > 0 then 2 else 1)
      in take msg_iovlen msg_iov)"

definition upstream_send :: "'k kernel \<Rightarrow> int \<Rightarrow> byte list \<Rightarrow> byte list \<Rightarrow> 'k \<Rightarrow> (int \<times> 'k) option" where
  "upstream_send K fd p1 p2 k = do {
     (r, k') \<leftarrow> retry interrupted (k_sendmsg K fd (upstream_iov p1 p2) None) k;
     Some (case r of SysErr e \<Rightarrow> - e | SysOk n \<Rightarrow> int n, k')
   }"

definition upstream_recv :: "'k kernel \<Rightarrow> int \<Rightarrow> nat \<Rightarrow> 'k \<Rightarrow> ((int \<times> byte list) \<times> 'k) option" where
  "upstream_recv K fd n k = do {
     (r, k') \<leftarrow> retry interrupted (k_recv K fd n []) k;
     Some (case r of SysErr e \<Rightarrow> (- e, []) | SysOk bs \<Rightarrow> (int (length bs), bs), k')
   }"

definition upstream_peek :: "'k kernel \<Rightarrow> int \<Rightarrow> 'k \<Rightarrow> (int \<times> 'k) option" where
  "upstream_peek K fd k = do {
     (r, k') \<leftarrow> retry interrupted (k_recv K fd 1 [MSG_PEEK, MSG_DONTWAIT]) k;
     Some (case r of
             SysOk bs \<Rightarrow> if length bs > 0 then 1 else 0
           | SysErr e \<Rightarrow> if e = EAGAIN \<or> e = EWOULDBLOCK then - 1 else - 2, k')
   }"

section \<open>Files\<close>

definition vanilla_regular_file_size :: "'k kernel \<Rightarrow> int \<Rightarrow> 'k \<Rightarrow> int \<times> 'k" where
  "vanilla_regular_file_size K fd k =
     (case k_fstat K fd k of
        (SysErr e, k') \<Rightarrow> (- 1, k')
      | (SysOk st, k') \<Rightarrow> if \<not> st_regular st then (- 1, k') else (st_size st, k'))"

text \<open>Signed 64-bit arithmetic, with the wrap-around written out.\<close>

definition i64 :: "int \<Rightarrow> int" where
  "i64 x = (x + 2 ^ 63) mod 2 ^ 64 - 2 ^ 63"

record vanilla_sa_sig =
  sig_dev :: u64
  sig_ino :: u64
  sig_size :: int
  sig_mtime_ns :: int
  sig_ctime_ns :: int

definition ts_ns :: "int \<times> int \<Rightarrow> int" where
  "ts_ns t = i64 (fst t * 1000000000 + snd t)"

definition vanilla_sa_fill :: "stat \<Rightarrow> vanilla_sa_sig" where
  "vanilla_sa_fill st = \<lparr>sig_dev = st_dev st, sig_ino = st_ino st, sig_size = st_size st,
     sig_mtime_ns = ts_ns (st_mtim st), sig_ctime_ns = ts_ns (st_ctim st)\<rparr>"

definition sa_usable :: "stat \<Rightarrow> bool" where
  "sa_usable st \<longleftrightarrow> \<not> (\<not> st_regular st \<or> st_nlink st = 0)"

definition vanilla_sa_open :: "'k kernel \<Rightarrow> string \<Rightarrow> 'k \<Rightarrow> int \<times> 'k" where
  "vanilla_sa_open K path k =
     (case k_open K path k of (SysOk fd, k') \<Rightarrow> (fd, k') | (SysErr e, k') \<Rightarrow> (- 1, k'))"

definition vanilla_sa_close :: "'k kernel \<Rightarrow> int \<Rightarrow> 'k \<Rightarrow> 'k" where
  "vanilla_sa_close K fd k = k_close K fd k"

definition vanilla_sa_stat :: "'k kernel \<Rightarrow> string \<Rightarrow> 'k \<Rightarrow> vanilla_sa_sig option \<times> 'k" where
  "vanilla_sa_stat K path k =
     (case k_stat K path k of
        (SysErr e, k') \<Rightarrow> (None, k')
      | (SysOk st, k') \<Rightarrow> if sa_usable st then (Some (vanilla_sa_fill st), k') else (None, k'))"

definition vanilla_sa_fstat :: "'k kernel \<Rightarrow> int \<Rightarrow> 'k \<Rightarrow> vanilla_sa_sig option \<times> 'k" where
  "vanilla_sa_fstat K fd k =
     (case k_fstat K fd k of
        (SysErr e, k') \<Rightarrow> (None, k')
      | (SysOk st, k') \<Rightarrow> if sa_usable st then (Some (vanilla_sa_fill st), k') else (None, k'))"

definition vanilla_sa_now_ms :: "'k kernel \<Rightarrow> 'k \<Rightarrow> u64" where
  "vanilla_sa_now_ms K k =
     (case k_clock K k of (sec, nsec) \<Rightarrow> of_nat sec * 1000 + of_nat nsec div 1000000)"

section \<open>Signals and epoll data\<close>

definition vanilla_ignore_default_sigpipe :: "'k kernel \<Rightarrow> 'k \<Rightarrow> int \<times> 'k" where
  "vanilla_ignore_default_sigpipe K k =
     (case k_sigpipe_get K k of
        (SysErr e, k1) \<Rightarrow> (0, k1)
      | (SysOk old, k1) \<Rightarrow>
          if sa_siginfo old \<or> sa_handler old \<noteq> SIG_DFL then (0, k1)
          else (case k_sigpipe_set K \<lparr>sa_siginfo = False, sa_handler = SIG_IGN\<rparr> k1 of
                  (SysOk u, k2) \<Rightarrow> (1, k2) | (SysErr e, k2) \<Rightarrow> (0, k2)))"

text \<open>\<^verbatim>\<open>union epoll_data\<close> is 64 bits wide; its \<^verbatim>\<open>fd\<close> member is the low 32 of them (little endian).\<close>

definition v_epoll_event_get_fd :: "u64 \<Rightarrow> int" where
  "v_epoll_event_get_fd data = sint (ucast data :: u32)"

definition v_epoll_event_set_fd :: "u64 \<Rightarrow> int \<Rightarrow> u64" where
  "v_epoll_event_set_fd data fd =
     push_bit 32 (drop_bit 32 data) OR ucast (word_of_int fd :: u32)"

section \<open>Lemmas\<close>

lemma fd_tableD:
  assumes "fd_table K fds"
  shows "k_socket K fam k = (SysOk fd, k') \<Longrightarrow> 0 \<le> fd \<and> fd \<notin> fds k \<and> fds k' = insert fd (fds k)"
    and "k_socket K fam k = (SysErr e, k') \<Longrightarrow> 0 < e \<and> fds k' = fds k"
    and "fds (k_close K fd k) = fds k - {fd}"
    and "fds (snd (k_setsockopt K fd opt k)) = fds k"
    and "k_connect K fd sa k = (r, k') \<Longrightarrow> fds k' = fds k"
    and "k_connect K fd sa k = (SysErr e, k') \<Longrightarrow> 0 < e"
    and "k_dup3 K fd onto k = (SysOk u, k') \<Longrightarrow> fds k' = insert onto (fds k)"
    and "k_dup3 K fd onto k = (SysErr e, k') \<Longrightarrow> 0 < e \<and> fds k' = fds k"
proof -
  note laws = assms [unfolded fd_table_def]
  note sock = laws [THEN conjunct1]
    and close = laws [THEN conjunct2, THEN conjunct1]
    and opt = laws [THEN conjunct2, THEN conjunct2, THEN conjunct1]
    and conn = laws [THEN conjunct2, THEN conjunct2, THEN conjunct2, THEN conjunct1]
    and dup = laws [THEN conjunct2, THEN conjunct2, THEN conjunct2, THEN conjunct2]
  show "k_socket K fam k = (SysOk fd, k') \<Longrightarrow> 0 \<le> fd \<and> fd \<notin> fds k \<and> fds k' = insert fd (fds k)"
    and "k_socket K fam k = (SysErr e, k') \<Longrightarrow> 0 < e \<and> fds k' = fds k"
    using sock [THEN spec [where x = fam], THEN spec [where x = k]] by auto
  show "fds (k_close K fd k) = fds k - {fd}" and "fds (snd (k_setsockopt K fd opt k)) = fds k"
    using close opt by auto
  show "k_connect K fd sa k = (r, k') \<Longrightarrow> fds k' = fds k"
    and "k_connect K fd sa k = (SysErr e, k') \<Longrightarrow> 0 < e"
    using conn [THEN spec [where x = fd], THEN spec [where x = sa], THEN spec [where x = k]] by auto
  show "k_dup3 K fd onto k = (SysOk u, k') \<Longrightarrow> fds k' = insert onto (fds k)"
    and "k_dup3 K fd onto k = (SysErr e, k') \<Longrightarrow> 0 < e \<and> fds k' = fds k"
    using dup [THEN spec [where x = fd], THEN spec [where x = onto], THEN spec [where x = k]] by auto
qed

lemma transport_tune_fds:
  "fd_table K fds \<Longrightarrow> fds (transport_tune K fd nd idle intvl cnt ut k) = fds k"
  by (simp add: transport_tune_def set_opt_def Let_def fd_tableD(4))

lemma concat_upstream_iov: "concat (upstream_iov p1 p2) = p1 @ p2"
  by (auto simp: upstream_iov_def Let_def)

lemma resolve_copy_length: "length (snd (resolve_copy ais mx n out)) = length out"
  by (induction ais mx n out rule: resolve_copy.induct) auto

lemma resolve_copy_count:
  "fst (resolve_copy ais mx n out) = n + length (take (nat (mx - int n)) (filter resolvable ais))"
proof (induction ais mx n out rule: resolve_copy.induct)
  case (2 ai ais mx n out)
  show ?case
  proof (cases "int n < mx")
    case True
    then have "nat (mx - int n) = Suc (nat (mx - int (Suc n)))" by simp
    with True 2 show ?thesis by (auto simp: resolvable_def)
  qed simp
qed simp

text \<open>Slots already filled are never written again, and the slots past the count are untouched.\<close>

lemma resolve_copy_frame:
  "i < n \<or> fst (resolve_copy ais mx n out) \<le> i \<Longrightarrow> snd (resolve_copy ais mx n out) ! i = out ! i"
proof (induction ais mx n out rule: resolve_copy.induct)
  case (2 ai ais mx n out)
  show ?case
  proof (cases "int n < mx \<and> resolvable ai")
    case True
    then have step: "resolve_copy (ai # ais) mx n out = resolve_copy ais mx (Suc n)
             (out[n := \<lparr>tr_family = fst ai, tr_len = length (snd ai),
                        tr_data = memcpy_at (tr_data (out ! n)) 0 (snd ai)\<rparr>])"
      by (auto simp: resolvable_def)
    have "Suc n \<le> fst (resolve_copy (ai # ais) mx n out)"
      unfolding step by (simp add: resolve_copy_count)
    with 2 True show ?thesis
      unfolding step by (auto simp: resolvable_def nth_list_update)
  next
    case False
    with 2 show ?thesis by (auto simp: resolvable_def)
  qed
qed simp

lemma resolve_copy_nth:
  assumes "n \<le> i" and "i < fst (resolve_copy ais mx n out)" and "mx \<le> int (length out)"
  shows "holds_addr (snd (resolve_copy ais mx n out) ! i) (filter resolvable ais ! (i - n))"
  using assms
proof (induction ais mx n out rule: resolve_copy.induct)
  case (2 ai ais mx n out)
  show ?case
  proof (cases "int n < mx \<and> resolvable ai")
    case True
    let ?out = "out[n := \<lparr>tr_family = fst ai, tr_len = length (snd ai),
                        tr_data = memcpy_at (tr_data (out ! n)) 0 (snd ai)\<rparr>]"
    from True have step: "resolve_copy (ai # ais) mx n out = resolve_copy ais mx (Suc n) ?out"
      by (auto simp: resolvable_def)
    from True 2(6) have n: "n < length out" by simp
    show ?thesis
    proof (cases "i = n")
      case True
      then have "snd (resolve_copy ais mx (Suc n) ?out) ! i = ?out ! n"
        using resolve_copy_frame [of n "Suc n" ais mx ?out] by simp
      with True n \<open>int n < mx \<and> resolvable ai\<close> show ?thesis
        unfolding step by (simp add: holds_addr_def)
    next
      case False
      with 2(4) have "Suc n \<le> i" by simp
      moreover from this have "(ai # filter resolvable ais) ! (i - n) = filter resolvable ais ! (i - Suc n)"
        by (simp add: nth_Cons')
      ultimately show ?thesis
        using 2(3) [OF _ _ _ \<open>Suc n \<le> i\<close>] 2(5,6) True unfolding step
        by (auto simp: resolvable_def)
    qed
  next
    case False
    with 2 show ?thesis by (auto simp: resolvable_def split: if_splits)
  qed
qed simp

lemma i64_id: "- (2 ^ 63) \<le> x \<Longrightarrow> x < 2 ^ 63 \<Longrightarrow> i64 x = x"
  unfolding i64_def by (subst mod_pos_pos_trivial) auto

lemma ns_inj:
  assumes "0 \<le> n" and "n < 1000000000" and "0 \<le> n'" and "n' < (1000000000::int)"
    and "s * 1000000000 + n = s' * 1000000000 + n'"
  shows "s = s' \<and> n = n'"
  using assms by (cases s s' rule: linorder_cases) linarith+

definition ts_valid :: "int \<times> int \<Rightarrow> bool" where
  "ts_valid t \<longleftrightarrow> \<bar>fst t\<bar> \<le> 9223372035 \<and> 0 \<le> snd t \<and> snd t < 1000000000"

lemma ts_ns_inj: "ts_valid t \<Longrightarrow> ts_valid t' \<Longrightarrow> ts_ns t = ts_ns t' \<longleftrightarrow> t = t'"
proof
  assume v: "ts_valid t" "ts_valid t'" and eq: "ts_ns t = ts_ns t'"
  from v have "i64 (fst t * 1000000000 + snd t) = fst t * 1000000000 + snd t"
    and "i64 (fst t' * 1000000000 + snd t') = fst t' * 1000000000 + snd t'"
    unfolding ts_valid_def by (intro i64_id; simp add: abs_le_iff)+
  with eq have "fst t * 1000000000 + snd t = fst t' * 1000000000 + snd t'"
    by (simp add: ts_ns_def)
  with v have "fst t = fst t' \<and> snd t = snd t'"
    unfolding ts_valid_def by (intro ns_inj) auto
  then show "t = t'" by (simp add: prod_eq_iff)
qed simp

text \<open>The dispositions of SIGPIPE as \<^verbatim>\<open>sigaction(2)\<close> reads and sets them.\<close>

definition sigpipe_laws :: "'k kernel \<Rightarrow> ('k \<Rightarrow> sigaction) \<Rightarrow> bool" where
  "sigpipe_laws K disp \<longleftrightarrow>
     (\<forall>k. case k_sigpipe_get K k of
        (SysOk a, k') \<Rightarrow> a = disp k \<and> disp k' = disp k | (SysErr e, k') \<Rightarrow> disp k' = disp k) \<and>
     (\<forall>a k. case k_sigpipe_set K a k of
        (SysOk u, k') \<Rightarrow> disp k' = a | (SysErr e, k') \<Rightarrow> disp k' = disp k)"

text \<open>A kernel whose state lists the open descriptors, and one that refuses to connect.\<close>

definition list_kernel :: "unit sysret \<Rightarrow> int list kernel" where
  "list_kernel conn = no_kernel\<lparr>
     k_socket := (\<lambda>fam k. let fd = 1 + foldr max k 0 in (SysOk fd, fd # k)),
     k_connect := (\<lambda>fd sa k. (conn, k)),
     k_close := (\<lambda>fd k. filter (\<lambda>x. x \<noteq> fd) k),
     k_dup3 := (\<lambda>fd onto k. (SysOk (), onto # k)),
     k_setsockopt := (\<lambda>fd opt k. (SysOk (), k))\<rparr>"

lemma foldr_max_ge:
  shows "x \<in> set k \<Longrightarrow> x \<le> foldr max k (0::int)" and "0 \<le> foldr max k (0::int)"
  by (induction k) auto

lemma list_kernel_fd_table:
  assumes "\<And>e. conn = SysErr e \<Longrightarrow> 0 < e"
  shows "fd_table (list_kernel conn) set"
proof -
  have "1 + foldr max k (0::int) \<notin> set k" for k
    using foldr_max_ge(1) [of "1 + foldr max k 0" k] by auto
  with assms foldr_max_ge(2) show ?thesis
    by (auto simp: fd_table_def list_kernel_def Let_def)
qed

section \<open>Properties\<close>

text \<open>
  C18. Dialling never leaks a descriptor: a non-negative answer is a descriptor that was not open
  before and is the only one added; after a negative answer (the negated errno of \<^verbatim>\<open>socket\<close> or of
  \<^verbatim>\<open>connect\<close>) the descriptor table is what it was.
\<close>

theorem transport_dial_no_leak:
  assumes "fd_table K fds"
    and "transport_dial K family sa nd idle intvl cnt ut k = (r, k')"
  shows "(0 \<le> r \<longrightarrow> r \<notin> fds k \<and> fds k' = insert r (fds k)) \<and> (r < 0 \<longrightarrow> fds k' = fds k)"
proof (cases "k_socket K family k" rule: syscall_cases)
  case (Err e k1)
  with assms fd_tableD(2) [OF assms(1), of family k e k1] show ?thesis
    by (auto simp: transport_dial_def)
next
  case (Ok fd k1)
  define k2 where "k2 = (if family = AF_INET \<or> family = AF_INET6
      then transport_tune K fd nd idle intvl cnt ut k1 else k1)"
  have k2: "0 \<le> fd" "fd \<notin> fds k" "fds k2 = insert fd (fds k)"
    using fd_tableD(1) [OF assms(1) Ok] transport_tune_fds [OF assms(1)] by (simp_all add: k2_def)
  show ?thesis
  proof (cases "k_connect K fd sa k2" rule: syscall_cases)
    case c: (Ok u k3)
    with assms(2) Ok have "r = fd" "k' = k3"
      by (simp_all add: transport_dial_def Let_def flip: k2_def)
    with k2 fd_tableD(5) [OF assms(1) c] show ?thesis by simp
  next
    case c: (Err e k3)
    with assms(2) Ok have "(r, k') = (if e \<noteq> EINPROGRESS then (- e, k_close K fd k3) else (fd, k3))"
      by (simp add: transport_dial_def Let_def flip: k2_def)
    with k2 fd_tableD(5,6) [OF assms(1) c] fd_tableD(3) [OF assms(1), of fd k3] show ?thesis
      by (auto split: if_splits)
  qed
qed

theorem transport_dial_no_leak_witness:
  "transport_dial (list_kernel (SysErr 111)) 2 [] 1 0 0 0 0 [3, 5] = (- 111, [3, 5]) \<and>
   set [3, 5] = set [3, 5::int]"
proof -
  have run: "transport_dial (list_kernel (SysErr 111)) 2 [] 1 0 0 0 0 [3, 5] = (- 111, [3, 5])"
    by (simp add: transport_dial_def list_kernel_def transport_tune_def set_opt_def Let_def)
  have "fd_table (list_kernel (SysErr 111)) set"
    by (rule list_kernel_fd_table) simp
  from transport_dial_no_leak [OF this run] run show ?thesis by simp
qed

text \<open>
  C19. Re-dialling onto a pooled slot's descriptor number: when \<^verbatim>\<open>upstream_dup_onto\<close> returns, the new
  socket's own number is closed; it answers \<^verbatim>\<open>onto\<close>, which is then open, or a negated errno, and then
  the rest of the table is unchanged (\<^verbatim>\<open>onto\<close> still holds its old socket).
\<close>

theorem upstream_dup_onto_table:
  assumes tab: "fd_table K fds" and ne: "fd \<noteq> onto" and onto: "0 \<le> onto"
    and ret: "upstream_dup_onto K fd onto k = Some (r, k')"
  shows "(r = onto \<and> fds k' = insert onto (fds k) - {fd}) \<or> (r < 0 \<and> fds k' = fds k - {fd})"
proof -
  from ret obtain s k1 where s: "retry (\<lambda>e. e = EINTR \<or> e = EBUSY) (k_dup3 K fd onto) k = Some (s, k1)"
    and r: "r = (case s of SysErr e \<Rightarrow> - e | SysOk u \<Rightarrow> onto)" and k': "k' = k_close K fd k1"
    unfolding upstream_dup_onto_def by (auto elim!: bind_SomeE simp: Let_def)
  have "case s of SysOk u \<Rightarrow> fds k1 = insert onto (fds k) | SysErr e \<Rightarrow> 0 < e \<and> fds k1 = fds k"
  proof (rule retry_rule [OF s, where I = "\<lambda>k'. fds k' = fds k"])
    fix k2 e
    assume "fds k2 = fds k" and "fst (k_dup3 K fd onto k2) = SysErr e"
    then show "fds (snd (k_dup3 K fd onto k2)) = fds k"
      using fd_tableD(8) [OF tab, of fd onto k2 e] by (cases "k_dup3 K fd onto k2") simp
  next
    fix k2
    assume "fds k2 = fds k"
    then show "case fst (k_dup3 K fd onto k2) of
        SysOk u \<Rightarrow> fds (snd (k_dup3 K fd onto k2)) = insert onto (fds k)
      | SysErr e \<Rightarrow> 0 < e \<and> fds (snd (k_dup3 K fd onto k2)) = fds k"
    proof (cases "k_dup3 K fd onto k2" rule: syscall_cases)
      case (Ok u k3)
      with \<open>fds k2 = fds k\<close> show ?thesis using fd_tableD(7) [OF tab Ok] by simp
    next
      case (Err e k3)
      with \<open>fds k2 = fds k\<close> show ?thesis using fd_tableD(8) [OF tab Err] by simp
    qed
  qed simp
  with r k' fd_tableD(3) [OF tab, of fd k1] show ?thesis by (auto split: sysret.splits)
qed

theorem upstream_dup_onto_table_witness:
  "upstream_dup_onto (list_kernel (SysOk ())) 7 4 [7, 4] = Some (4, [4, 4]) \<and>
   ((4 = (4::int) \<and> set [4, 4] = insert 4 (set [7, 4]) - {7::int}) \<or>
    (4 < (0::int) \<and> set [4, 4] = set [7, 4] - {7::int}))"
proof -
  have run: "upstream_dup_onto (list_kernel (SysOk ())) 7 4 [7, 4] = Some (4, [4, 4])"
    by (simp add: upstream_dup_onto_def list_kernel_def retry.simps)
  have tab: "fd_table (list_kernel (SysOk ())) set"
    by (rule list_kernel_fd_table) simp
  show ?thesis using run upstream_dup_onto_table [OF tab _ _ run] by simp
qed

text \<open>
  C20. Name resolution keeps exactly the IPv4 and IPv6 addresses that fit, in \<^verbatim>\<open>getaddrinfo\<close>'s order, at
  most \<^verbatim>\<open>max\<close> of them: the count is right, every filled slot holds that address (family, length and
  bytes), the slots past the count are untouched.
\<close>

theorem transport_resolve_selects:
  assumes "c_getaddrinfo K False host (Some port) k = (SysOk res, k')" and "mx \<le> int (length out)"
  shows "\<exists>n out'. transport_resolve K host port out mx k = (Inr (n, out'), k') \<and>
     n = length (take (nat mx) (filter resolvable res)) \<and> length out' = length out \<and>
     (\<forall>i < n. holds_addr (out' ! i) (filter resolvable res ! i)) \<and>
     (\<forall>i \<ge> n. out' ! i = out ! i)"
proof -
  obtain n out' where r: "resolve_copy res mx 0 out = (n, out')" by (metis surj_pair)
  from r have "n = length (take (nat mx) (filter resolvable res))" and "length out' = length out"
    using resolve_copy_count [of res mx 0 out] resolve_copy_length [of res mx 0 out] by simp_all
  moreover have "\<forall>i \<ge> n. out' ! i = out ! i"
    using resolve_copy_frame [of _ 0 res mx out] r by simp
  moreover have "\<forall>i < n. holds_addr (out' ! i) (filter resolvable res ! i)"
    using resolve_copy_nth [of 0 _ res mx out] r assms(2) by simp
  moreover have "transport_resolve K host port out mx k = (Inr (n, out'), k')"
    using assms(1) r by (simp add: transport_resolve_def)
  ultimately show ?thesis by blast
qed

definition resolve_kernel :: "unit kernel" where
  "resolve_kernel = no_kernel\<lparr>c_getaddrinfo :=
     (\<lambda>num h s k. (SysOk [(1, [9]), (2, [1, 2]), (10, [3])], k))\<rparr>"

theorem transport_resolve_selects_witness:
  "\<exists>n out'. transport_resolve resolve_kernel ''db'' ''5432''
       [\<lparr>tr_family = 0, tr_len = 0, tr_data = replicate 128 0\<rparr>] 1 () = (Inr (n, out'), ()) \<and>
     n = 1 \<and> holds_addr (out' ! 0) (2, [1, 2])"
proof -
  have g: "c_getaddrinfo resolve_kernel False ''db'' (Some ''5432'') () =
      (SysOk [(1, [9]), (2, [1, 2]), (10, [3])], ())"
    by (simp add: resolve_kernel_def)
  show ?thesis
    using transport_resolve_selects [OF g,
        of 1 "[\<lparr>tr_family = 0, tr_len = 0, tr_data = replicate 128 0\<rparr>]"]
    by (auto simp: resolvable_def)
qed

text \<open>
  A file signature detects every change: for files with valid time stamps, two signatures are
  equal exactly when device, inode, size, modification time and change time all are (the packing of
  seconds and nanoseconds into one 64-bit number loses nothing).
\<close>

theorem sa_sig_detects_change:
  assumes "ts_valid (st_mtim a)" and "ts_valid (st_ctim a)" and "ts_valid (st_mtim b)" and "ts_valid (st_ctim b)"
  shows "vanilla_sa_fill a = vanilla_sa_fill b \<longleftrightarrow>
     st_dev a = st_dev b \<and> st_ino a = st_ino b \<and> st_size a = st_size b \<and>
     st_mtim a = st_mtim b \<and> st_ctim a = st_ctim b"
  using assms by (simp add: vanilla_sa_fill_def ts_ns_inj)

definition stat_example :: "int \<Rightarrow> stat" where
  "stat_example ns = \<lparr>st_regular = True, st_nlink = 1, st_dev = 1, st_ino = 2, st_size = 10,
     st_mtim = (1700000000, ns), st_ctim = (1700000000, 999999999)\<rparr>"

theorem sa_sig_detects_change_witness:
  "vanilla_sa_fill (stat_example 5) \<noteq> vanilla_sa_fill (stat_example 6)"
proof -
  have v: "ts_valid (st_mtim (stat_example 5))" "ts_valid (st_ctim (stat_example 5))"
    "ts_valid (st_mtim (stat_example 6))" "ts_valid (st_ctim (stat_example 6))"
    by (simp_all add: stat_example_def ts_valid_def)
  show ?thesis using sa_sig_detects_change [OF v] by (simp add: stat_example_def)
qed

text \<open>
  Starting a server never replaces the application's own handling of SIGPIPE: the disposition
  afterwards is the one before, unless that was the default action, which alone may become
  \<^verbatim>\<open>SIG_IGN\<close>; the answer is 1 exactly when it did.
\<close>

theorem sigpipe_only_default_replaced:
  assumes "sigpipe_laws K disp" and "vanilla_ignore_default_sigpipe K k = (r, k')"
  shows "(r = 0 \<and> disp k' = disp k) \<or>
     (r = 1 \<and> \<not> sa_siginfo (disp k) \<and> sa_handler (disp k) = SIG_DFL \<and>
      disp k' = \<lparr>sa_siginfo = False, sa_handler = SIG_IGN\<rparr>)"
proof -
  note get = assms(1) [unfolded sigpipe_laws_def, THEN conjunct1, THEN spec [where x = k]]
    and set = assms(1) [unfolded sigpipe_laws_def, THEN conjunct2, THEN spec, THEN spec]
  show ?thesis
  proof (cases "k_sigpipe_get K k" rule: syscall_cases)
    case (Err e k1)
    with assms(2) get show ?thesis by (simp add: vanilla_ignore_default_sigpipe_def)
  next
    case (Ok old k1)
    let ?ign = "\<lparr>sa_siginfo = False, sa_handler = SIG_IGN\<rparr>"
    show ?thesis
      using assms(2) get set [of ?ign k1] Ok
      by (cases "k_sigpipe_set K ?ign k1" rule: syscall_cases)
        (auto simp: vanilla_ignore_default_sigpipe_def split: if_splits)
  qed
qed

definition sig_kernel :: "sigaction kernel" where
  "sig_kernel = no_kernel\<lparr>k_sigpipe_get := (\<lambda>k. (SysOk k, k)), k_sigpipe_set := (\<lambda>a k. (SysOk (), a))\<rparr>"

theorem sigpipe_only_default_replaced_witness:
  "vanilla_ignore_default_sigpipe sig_kernel \<lparr>sa_siginfo = False, sa_handler = SigFn 1\<rparr> =
     (0, \<lparr>sa_siginfo = False, sa_handler = SigFn 1\<rparr>)"
proof -
  have laws: "sigpipe_laws sig_kernel (\<lambda>k. k)"
    by (simp add: sigpipe_laws_def sig_kernel_def)
  obtain r k' where run: "vanilla_ignore_default_sigpipe sig_kernel \<lparr>sa_siginfo = False, sa_handler = SigFn 1\<rparr> = (r, k')"
    by (metis surj_pair)
  show ?thesis using sigpipe_only_default_replaced [OF laws run] run by auto
qed

end
