(* ===== verification/Mbedtls.thy ===== *)
theory Mbedtls
  imports Sys
begin

text \<open>
  Mbed TLS 4 and PSA Crypto, as \<^verbatim>\<open>src/tls/vanilla_tls.c\<close> calls them. They are not part of the
  repository: a record of functions over opaque library objects \<open>'m\<close> (an SSL context, a
  configuration, a certificate, a key, the process-wide PSA state) is a parameter of the TLS model.

  A library call that may call back into the session (receive, send, export a secret, verify a
  certificate) is a tree: it either returns, or makes a callback and continues with its answer. Every
  theorem about such a call therefore holds for every way the library may use its callbacks. The
  locales at the end carry a law of the callbacks over to whole library calls.
\<close>

section \<open>Results and errors\<close>

text \<open>
  The error codes the code compares with are distinct, and none is a byte count; any other negative
  code \<open>-n\<close> is \<open>ERR_OTHER n\<close>. \<open>MRet n\<close> is the non-negative result \<open>n\<close>.
\<close>

datatype merr =
    ERR_SSL_WANT_READ
  | ERR_SSL_WANT_WRITE
  | ERR_SSL_RECEIVED_NEW_SESSION_TICKET
  | ERR_SSL_PEER_CLOSE_NOTIFY
  | ERR_SSL_CONN_EOF
  | ERR_SSL_BAD_INPUT_DATA
  | ERR_SSL_FEATURE_UNAVAILABLE
  | ERR_NET_RECV_FAILED
  | ERR_NET_SEND_FAILED
  | ERR_NET_CONN_RESET
  | ERR_X509_CERT_VERIFY_FAILED
  | ERR_X509_CERT_UNKNOWN_FORMAT
  | ERR_OTHER nat

datatype mret = MRet nat | MErr merr

datatype key_export =
    SERVER_APPLICATION_TRAFFIC_SECRET
  | CLIENT_APPLICATION_TRAFFIC_SECRET
  | OTHER_SECRET nat

text \<open>One entry of a certificate's subjectAltName list: its ASN.1 tag and content.\<close>

record san =
  san_tag :: byte
  san_p :: "byte list"

text \<open>What \<^verbatim>\<open>mbedtls_ssl_conf_*\<close> and \<^verbatim>\<open>mbedtls_x509write_crt_set_*\<close> are called with.\<close>

datatype 'm conf_call =
    ConfDefaultsServer
  | ConfDefaultsClient
  | ConfMinTls13
  | ConfMaxTls13
  | ConfCiphersuites "int list"
  | ConfNewSessionTickets nat
  | ConfOwnCert 'm 'm
  | ConfSessionTicketsCb 'm
  | ConfAlpn "string list"
  | ConfAuthNone
  | ConfAuthRequired
  | ConfCaChain 'm
  | ConfVerifyChainOnly

datatype san_node = SanDns string | SanIp "byte list"

datatype 'm wc_call =
    WcSubjectKey 'm
  | WcIssuerKey 'm
  | WcSubjectName string
  | WcIssuerName string
  | WcVersion3
  | WcMdSha256
  | WcSerialRaw "byte list"
  | WcValidity string string
  | WcSubjectAltName "san_node list"
  | WcBasicConstraints bool int
  | WcKeyUsage nat
  | WcExtKeyUsageServerAuth

section \<open>Library calls with callbacks\<close>

datatype 'a lib =
    Ret 'a
  | BioRecv nat "mret \<times> byte list \<Rightarrow> 'a lib"
  | BioSend "byte list" "mret \<Rightarrow> 'a lib"
  | ExportKeys key_export "byte list" "'a lib"
  | VerifyCert "san list" nat u32 "u32 \<Rightarrow> 'a lib"

text \<open>The callbacks over a caller's state \<open>'s\<close>; receiving and sending may fail to return.\<close>

record 's callbacks =
  cb_recv :: "nat \<Rightarrow> 's \<Rightarrow> ((mret \<times> byte list) \<times> 's) option"
  cb_send :: "byte list \<Rightarrow> 's \<Rightarrow> (mret \<times> 's) option"
  cb_export :: "key_export \<Rightarrow> byte list \<Rightarrow> 's \<Rightarrow> 's"
  cb_verify :: "san list \<Rightarrow> nat \<Rightarrow> u32 \<Rightarrow> 's \<Rightarrow> u32"

primrec run_lib :: "'s callbacks \<Rightarrow> 'a lib \<Rightarrow> 's \<Rightarrow> ('a \<times> 's) option" where
  "run_lib cb (Ret a) s = Some (a, s)"
| "run_lib cb (BioRecv n f) s =
     Option.bind (cb_recv cb n s) (\<lambda>(x, s'). run_lib cb (f x) s')"
| "run_lib cb (BioSend bs f) s =
     Option.bind (cb_send cb bs s) (\<lambda>(x, s'). run_lib cb (f x) s')"
| "run_lib cb (ExportKeys ty sec t) s = run_lib cb t (cb_export cb ty sec s)"
| "run_lib cb (VerifyCert sans depth flags f) s =
     run_lib cb (f (cb_verify cb sans depth flags s)) s"

section \<open>The library\<close>

record 'm mbedtls =
  ssl_init :: 'm
  ssl_setup :: "'m \<Rightarrow> 'm \<Rightarrow> 'm \<Rightarrow> mret \<times> 'm \<times> 'm" \<comment> \<open>ssl, conf, PSA; then ssl, PSA\<close>
  ssl_free :: "'m \<Rightarrow> 'm \<Rightarrow> 'm" \<comment> \<open>ssl, PSA; then PSA\<close>
  ssl_set_hostname :: "string option \<Rightarrow> 'm \<Rightarrow> mret \<times> 'm"
  ssl_session_reset :: "'m \<Rightarrow> 'm \<Rightarrow> mret \<times> 'm \<times> 'm"
  ssl_handshake :: "'m \<Rightarrow> 'm \<Rightarrow> (mret \<times> 'm \<times> 'm) lib"
  ssl_read :: "nat \<Rightarrow> 'm \<Rightarrow> 'm \<Rightarrow> ((mret \<times> byte list) \<times> 'm \<times> 'm) lib"
  ssl_write :: "byte list \<Rightarrow> 'm \<Rightarrow> 'm \<Rightarrow> (mret \<times> 'm \<times> 'm) lib"
  ssl_close_notify :: "'m \<Rightarrow> 'm \<Rightarrow> (mret \<times> 'm \<times> 'm) lib"
  ssl_get_bytes_avail :: "'m \<Rightarrow> nat"
  ssl_check_pending :: "'m \<Rightarrow> bool"
  ssl_get_max_out_record_payload :: "'m \<Rightarrow> mret"
  ssl_get_ciphersuite_id :: "'m \<Rightarrow> int"
  ssl_get_alpn_protocol :: "'m \<Rightarrow> string option"
  ssl_get_verify_result :: "'m \<Rightarrow> u32"
  x509_crt_verify_info :: "nat \<Rightarrow> u32 \<Rightarrow> string option"
    \<comment> \<open>buffer size and flags: the text, \<open>None\<close> when it does not fit\<close>
  mbedtls_strerror :: "mret \<Rightarrow> string"
  merr_code :: "merr \<Rightarrow> nat" \<comment> \<open>the magnitude of a negative code\<close>
  psa_crypto_init :: "'m \<Rightarrow> bool \<times> 'm"
  kd_setup :: "'m \<Rightarrow> bool \<times> 'm" \<comment> \<open>\<^verbatim>\<open>PSA_ALG_HKDF_EXPAND(PSA_ALG_SHA_256)\<close>\<close>
  kd_input_secret :: "byte list \<Rightarrow> 'm \<Rightarrow> bool \<times> 'm"
  kd_input_info :: "byte list \<Rightarrow> 'm \<Rightarrow> bool \<times> 'm"
  kd_output :: "nat \<Rightarrow> 'm \<Rightarrow> byte list option \<times> 'm"
  kd_abort :: "'m \<Rightarrow> 'm"
  conf_init :: 'm
  conf_call :: "'m conf_call \<Rightarrow> 'm \<Rightarrow> mret \<times> 'm"
  conf_free :: "'m \<Rightarrow> 'm \<Rightarrow> 'm" \<comment> \<open>the object, PSA; then PSA: so for every \<open>free\<close>\<close>
  x509_crt_init :: 'm
  x509_crt_parse :: "byte list \<Rightarrow> 'm \<Rightarrow> 'm \<Rightarrow> mret \<times> 'm \<times> 'm"
  x509_crt_parse_file :: "string \<Rightarrow> 'm \<Rightarrow> 'm \<Rightarrow> mret \<times> 'm \<times> 'm"
  x509_crt_parse_der :: "byte list \<Rightarrow> 'm \<Rightarrow> 'm \<Rightarrow> mret \<times> 'm \<times> 'm"
  x509_crt_version :: "'m \<Rightarrow> int"
  x509_crt_free :: "'m \<Rightarrow> 'm \<Rightarrow> 'm"
  pk_init :: 'm
  pk_parse_key :: "byte list \<Rightarrow> 'm \<Rightarrow> 'm \<Rightarrow> mret \<times> 'm \<times> 'm"
  pk_wrap_psa :: "nat \<Rightarrow> 'm \<Rightarrow> 'm \<Rightarrow> mret \<times> 'm \<times> 'm"
  pk_write_key_pem :: "nat \<Rightarrow> 'm \<Rightarrow> 'm \<Rightarrow> mret \<times> byte list \<times> 'm" \<comment> \<open>buffer size; NUL-terminated\<close>
  pk_free :: "'m \<Rightarrow> 'm \<Rightarrow> 'm"
  psa_generate_key :: "'m \<Rightarrow> nat option \<times> 'm" \<comment> \<open>an EC P-256 signing key, exportable\<close>
  psa_generate_random :: "nat \<Rightarrow> 'm \<Rightarrow> byte list \<times> 'm"
  psa_destroy_key :: "nat \<Rightarrow> 'm \<Rightarrow> 'm"
  wc_init :: 'm
  wc_call :: "'m wc_call \<Rightarrow> 'm \<Rightarrow> mret \<times> 'm"
  x509write_crt_der :: "nat \<Rightarrow> 'm \<Rightarrow> 'm \<Rightarrow> (byte list + merr) \<times> 'm" \<comment> \<open>buffer size\<close>
  wc_free :: "'m \<Rightarrow> 'm \<Rightarrow> 'm"
  pem_write_certificate :: "nat \<Rightarrow> byte list \<Rightarrow> mret \<times> byte list \<times> nat"
    \<comment> \<open>buffer size and DER: the bytes written, NUL-terminated, and \<^verbatim>\<open>olen\<close>\<close>
  ticket_init :: 'm
  ticket_setup :: "'m \<Rightarrow> 'm \<Rightarrow> mret \<times> 'm \<times> 'm"
  ticket_free :: "'m \<Rightarrow> 'm \<Rightarrow> 'm"

text \<open>
  A library on which every call succeeds without a callback and changes nothing, its objects being
  \<open>m0\<close>: the base of the concrete libraries in witnesses.
\<close>

definition null_lib :: "'m \<Rightarrow> 'm mbedtls" where
  "null_lib m0 = \<lparr>
     ssl_init = m0,
     ssl_setup = (\<lambda>a0 a1 a2. (MRet 0, a0, a2)),
     ssl_free = (\<lambda>a0 a1. a1),
     ssl_set_hostname = (\<lambda>a0 a1. (MRet 0, a1)),
     ssl_session_reset = (\<lambda>a0 a1. (MRet 0, a0, a1)),
     ssl_handshake = (\<lambda>a0 a1. Ret (MRet 0, a0, a1)),
     ssl_read = (\<lambda>a0 a1 a2. Ret ((MRet 0, []), a1, a2)),
     ssl_write = (\<lambda>a0 a1 a2. Ret (MRet 0, a1, a2)),
     ssl_close_notify = (\<lambda>a0 a1. Ret (MRet 0, a0, a1)),
     ssl_get_bytes_avail = (\<lambda>a0. 0),
     ssl_check_pending = (\<lambda>a0. False),
     ssl_get_max_out_record_payload = (\<lambda>a0. MRet 0),
     ssl_get_ciphersuite_id = (\<lambda>a0. 0),
     ssl_get_alpn_protocol = (\<lambda>a0. None),
     ssl_get_verify_result = (\<lambda>a0. 0),
     x509_crt_verify_info = (\<lambda>a0 a1. None),
     mbedtls_strerror = (\<lambda>a0. ''''),
     merr_code = (\<lambda>a0. 0),
     psa_crypto_init = (\<lambda>a0. (True, a0)),
     kd_setup = (\<lambda>a0. (True, a0)),
     kd_input_secret = (\<lambda>a0 a1. (True, a1)),
     kd_input_info = (\<lambda>a0 a1. (True, a1)),
     kd_output = (\<lambda>a0 a1. (Some (replicate a0 0), a1)),
     kd_abort = (\<lambda>a0. a0),
     conf_init = m0,
     conf_call = (\<lambda>a0 a1. (MRet 0, a1)),
     conf_free = (\<lambda>a0 a1. a1),
     x509_crt_init = m0,
     x509_crt_parse = (\<lambda>a0 a1 a2. (MRet 0, a1, a2)),
     x509_crt_parse_file = (\<lambda>a0 a1 a2. (MRet 0, a1, a2)),
     x509_crt_parse_der = (\<lambda>a0 a1 a2. (MRet 0, a1, a2)),
     x509_crt_version = (\<lambda>a0. 0),
     x509_crt_free = (\<lambda>a0 a1. a1),
     pk_init = m0,
     pk_parse_key = (\<lambda>a0 a1 a2. (MRet 0, a1, a2)),
     pk_wrap_psa = (\<lambda>a0 a1 a2. (MRet 0, a1, a2)),
     pk_write_key_pem = (\<lambda>a0 a1 a2. (MRet 0, [], a2)),
     pk_free = (\<lambda>a0 a1. a1),
     psa_generate_key = (\<lambda>a0. (Some 1, a0)),
     psa_generate_random = (\<lambda>a0 a1. (replicate a0 0, a1)),
     psa_destroy_key = (\<lambda>a0 a1. a1),
     wc_init = m0,
     wc_call = (\<lambda>a0 a1. (MRet 0, a1)),
     x509write_crt_der = (\<lambda>a0 a1 a2. (Inl [], a2)),
     wc_free = (\<lambda>a0 a1. a1),
     pem_write_certificate = (\<lambda>a0 a1. (MRet 0, [], 0)),
     ticket_init = m0,
     ticket_setup = (\<lambda>a0 a1. (MRet 0, a0, a1)),
     ticket_free = (\<lambda>a0 a1. a1)\<rparr>"

section \<open>Paths through a library call\<close>

datatype bio_event =
    Received nat mret "byte list"
  | Sent "byte list" mret
  | Exported key_export "byte list"
  | Verified "san list" nat u32 u32

inductive lib_path :: "'a lib \<Rightarrow> bio_event list \<Rightarrow> 'a \<Rightarrow> bool" where
  path_Ret: "lib_path (Ret a) [] a"
| path_BioRecv: "lib_path (f (r, bs)) tr a \<Longrightarrow> lib_path (BioRecv n f) (Received n r bs # tr) a"
| path_BioSend: "lib_path (f r) tr a \<Longrightarrow> lib_path (BioSend bs f) (Sent bs r # tr) a"
| path_ExportKeys: "lib_path t tr a \<Longrightarrow> lib_path (ExportKeys ty sec t) (Exported ty sec # tr) a"
| path_VerifyCert: "lib_path (f fl') tr a \<Longrightarrow>
    lib_path (VerifyCert sans depth fl f) (Verified sans depth fl fl' # tr) a"

inductive_simps lib_path_simps:
  "lib_path (Ret a) tr b"
  "lib_path (BioRecv n f) tr b"
  "lib_path (BioSend bs f) tr b"
  "lib_path (ExportKeys ty sec t) tr b"
  "lib_path (VerifyCert sans depth fl f) tr b"

text \<open>The events of one run.\<close>

primrec lib_trace :: "'s callbacks \<Rightarrow> 'a lib \<Rightarrow> 's \<Rightarrow> bio_event list" where
  "lib_trace cb (Ret a) s = []"
| "lib_trace cb (BioRecv n f) s =
     (case cb_recv cb n s of
        None \<Rightarrow> [] | Some (x, s') \<Rightarrow> Received n (fst x) (snd x) # lib_trace cb (f x) s')"
| "lib_trace cb (BioSend bs f) s =
     (case cb_send cb bs s of None \<Rightarrow> [] | Some (x, s') \<Rightarrow> Sent bs x # lib_trace cb (f x) s')"
| "lib_trace cb (ExportKeys ty sec t) s = Exported ty sec # lib_trace cb t (cb_export cb ty sec s)"
| "lib_trace cb (VerifyCert sans depth flags f) s =
     Verified sans depth flags (cb_verify cb sans depth flags s) #
     lib_trace cb (f (cb_verify cb sans depth flags s)) s"

lemma lib_trace_path: "run_lib cb t s = Some (a, s') \<Longrightarrow> lib_path t (lib_trace cb t s) a"
proof (induction t arbitrary: s)
  case (BioRecv n f)
  then obtain r bs s1 where "cb_recv cb n s = Some ((r, bs), s1)"
    and "run_lib cb (f (r, bs)) s1 = Some (a, s')"
    by (auto elim!: bind_SomeE)
  with BioRecv.IH [OF rangeI, of "(r, bs)" s1] show ?case
    by (simp add: path_BioRecv)
next
  case (BioSend bs f)
  then obtain r s1 where "cb_send cb bs s = Some (r, s1)"
    and "run_lib cb (f r) s1 = Some (a, s')"
    by (auto elim!: bind_SomeE)
  with BioSend.IH [OF rangeI, of r s1] show ?case
    by (simp add: path_BioSend)
qed (auto intro: lib_path.intros)

text \<open>The bytes the library received and the bytes it was told went out.\<close>

fun received :: "bio_event list \<Rightarrow> byte list" where
  "received [] = []"
| "received (Received n r bs # tr) = bs @ received tr"
| "received (_ # tr) = received tr"

fun sent :: "bio_event list \<Rightarrow> byte list" where
  "sent [] = []"
| "sent (Sent bs (MRet n) # tr) = take n bs @ sent tr"
| "sent (_ # tr) = sent tr"

lemma received_append [simp]: "received (tr @ tr') = received tr @ received tr'"
  by (induction tr rule: received.induct) auto

lemma sent_append [simp]: "sent (tr @ tr') = sent tr @ sent tr'"
  by (induction tr rule: sent.induct) auto

section \<open>From the callbacks to library calls\<close>

text \<open>
  A relation between states, indexed by what was exchanged, that holds of every callback and is
  closed under sequencing holds of every library call, along the path the call took.
\<close>

locale bio_contract =
  fixes cb :: "'s callbacks"
    and R :: "'s \<Rightarrow> bio_event list \<Rightarrow> 's \<Rightarrow> bool"
  assumes no_event: "R s [] s"
    and sequence: "R s tr s' \<Longrightarrow> R s' tr' s'' \<Longrightarrow> R s (tr @ tr') s''"
    and on_recv: "cb_recv cb n s = Some ((r, bs), s') \<Longrightarrow> R s [Received n r bs] s'"
    and on_send: "cb_send cb bs s = Some (r, s') \<Longrightarrow> R s [Sent bs r] s'"
    and on_export: "R s [Exported ty sec] (cb_export cb ty sec s)"
    and on_verify: "R s [Verified sans depth fl (cb_verify cb sans depth fl s)] s"
begin

lemma then_event: "R s [e] s' \<Longrightarrow> R s' tr s'' \<Longrightarrow> R s (e # tr) s''"
  using sequence [of s "[e]" s' tr s''] by simp

lemma run_lib_contract: "run_lib cb t s = Some (a, s') \<Longrightarrow> R s (lib_trace cb t s) s'"
proof (induction t arbitrary: s)
  case (Ret b)
  then show ?case by (simp add: no_event)
next
  case (BioRecv n f)
  then obtain r bs s1 where "cb_recv cb n s = Some ((r, bs), s1)"
    and "run_lib cb (f (r, bs)) s1 = Some (a, s')"
    by (auto elim!: bind_SomeE)
  with BioRecv.IH [OF rangeI, of "(r, bs)" s1] show ?case
    by (simp add: then_event [OF on_recv])
next
  case (BioSend bs f)
  then obtain r s1 where "cb_send cb bs s = Some (r, s1)"
    and "run_lib cb (f r) s1 = Some (a, s')"
    by (auto elim!: bind_SomeE)
  with BioSend.IH [OF rangeI, of r s1] show ?case
    by (simp add: then_event [OF on_send])
next
  case (ExportKeys ty sec t)
  then show ?case by (simp add: then_event [OF on_export])
next
  case (VerifyCert sans depth fl f)
  then show ?case by (simp add: then_event [OF on_verify])
qed

end

text \<open>A property of the state that makes every callback return and survives it.\<close>

locale bio_total =
  fixes cb :: "'s callbacks" and ok :: "'s \<Rightarrow> bool"
  assumes recv_returns: "ok s \<Longrightarrow> \<exists>x s'. cb_recv cb n s = Some (x, s') \<and> ok s'"
    and send_returns: "ok s \<Longrightarrow> \<exists>x s'. cb_send cb bs s = Some (x, s') \<and> ok s'"
    and export_keeps: "ok s \<Longrightarrow> ok (cb_export cb ty sec s)"
begin

lemma run_lib_returns: "ok s \<Longrightarrow> \<exists>a s'. run_lib cb t s = Some (a, s') \<and> ok s'"
proof (induction t arbitrary: s)
  case (BioRecv n f)
  obtain x s1 where "cb_recv cb n s = Some (x, s1)" and "ok s1"
    using recv_returns [OF BioRecv.prems] by blast
  with BioRecv.IH [OF rangeI, of s1 x] show ?case by simp
next
  case (BioSend bs f)
  obtain x s1 where "cb_send cb bs s = Some (x, s1)" and "ok s1"
    using send_returns [OF BioSend.prems] by blast
  with BioSend.IH [OF rangeI, of s1 x] show ?case by simp
qed (auto simp: export_keeps)

end

end
