(* ===== verification/Tls_Ctx.thy ===== *)
theory Tls_Ctx
  imports Mbedtls
begin

text \<open>
  The process-wide state of \<^verbatim>\<open>src/tls/vanilla_tls.c\<close> (the crypto lock, the PSA state, the one-time log
  flags) and the TLS context: creation, the self-signed identity, loaded PEM identities, and the
  configuration calls of the server and of the client.
\<close>

section \<open>The environment and the world\<close>

text \<open>
  What the code is linked and built with: the kernel, Mbed TLS, and the macros of the Mbed TLS
  configuration the source tests (\<^verbatim>\<open>MBEDTLS_THREADING_C\<close>, \<^verbatim>\<open>MBEDTLS_SSL_TICKET_C\<close>,
  \<^verbatim>\<open>MBEDTLS_SSL_SESSION_TICKETS\<close>, \<^verbatim>\<open>MBEDTLS_SSL_SRV_C\<close>).
\<close>

record ('m, 'k) env =
  env_kernel :: "'k kernel"
  env_lib :: "'m mbedtls"
  env_calloc :: "'k \<Rightarrow> bool \<times> 'k" \<comment> \<open>does an allocation succeed?\<close>
  threading_c :: bool
  ticket_c :: bool
  session_tickets :: bool
  srv_c :: bool

text \<open>The lines the code prints to \<^verbatim>\<open>stderr\<close>, by their format and arguments.\<close>

datatype log_line =
    LogTickets
  | LogOptOut
  | LogFallback string
  | LogUlpFailed int \<comment> \<open>\<^verbatim>\<open>errno\<close>\<close>
  | LogEngaged bool \<comment> \<open>with RX no-pad?\<close>

record ('m, 'k) world =
  kst :: 'k
  psa :: 'm
  vtls_lock :: bool
  ktls_logged_ok :: bool
  ktls_logged_fb :: bool
  ktls_logged_off :: bool
  ktls_logged_tickets :: bool
  stderr :: "log_line list"

text \<open>
  The lock compiles out when Mbed TLS does its own locking. A thread that takes it while holding it
  never returns.
\<close>

definition VTLS_SERIALIZED :: "('m, 'k) env \<Rightarrow> bool" where
  "VTLS_SERIALIZED E \<longleftrightarrow> \<not> threading_c E"

definition VTLS_LOCK :: "('m, 'k) env \<Rightarrow> ('m, 'k) world \<Rightarrow> ('m, 'k) world option" where
  "VTLS_LOCK E w =
     (if threading_c E then Some w
      else if vtls_lock w then None else Some (w\<lparr>vtls_lock := True\<rparr>))"

definition VTLS_UNLOCK :: "('m, 'k) env \<Rightarrow> ('m, 'k) world \<Rightarrow> ('m, 'k) world" where
  "VTLS_UNLOCK E w = (if threading_c E then w else w\<lparr>vtls_lock := False\<rparr>)"

definition vtls_parallel_crypto :: "('m, 'k) env \<Rightarrow> int" where
  "vtls_parallel_crypto E = (if threading_c E then 1 else 0)"

definition vtls_global_init :: "('m, 'k) env \<Rightarrow> ('m, 'k) world \<Rightarrow> (int \<times> ('m, 'k) world) option" where
  "vtls_global_init E w = do {
     w1 \<leftarrow> VTLS_LOCK E w;
     let (ok, p) = psa_crypto_init (env_lib E) (psa w1);
     Some (if ok then 0 else - 1, VTLS_UNLOCK E (w1\<lparr>psa := p\<rparr>))
   }"

section \<open>The context\<close>

text \<open>The certificate callback a configuration or a session is registered with; \<open>NoVrfy\<close> is the null pointer.\<close>

datatype vrfy_cb = NoVrfy | VrfyChainOnly | VrfyIpSan

text \<open>\<open>conf_vrfy\<close> is the callback \<^verbatim>\<open>mbedtls_ssl_conf_verify\<close> left in the configuration \<open>conf\<close>.\<close>

record 'm vtls_ctx =
  conf :: 'm
  conf_vrfy :: vrfy_cb
  srvcert :: 'm
  pkey :: 'm
  key_id :: nat
  cert_pem :: "byte list" \<comment> \<open>4096 bytes\<close>
  cert_pem_len :: nat
  key_pem :: "byte list" \<comment> \<open>2048 bytes\<close>
  key_pem_len :: nat
  alpn_buf :: string \<comment> \<open>64 characters\<close>
  alpn :: "nat option list" \<comment> \<open>5 pointers into \<^verbatim>\<open>alpn_buf\<close>, as offsets\<close>
  ctx_ktls_off :: bool
  ctx_ktls_rx_no_pad :: bool
  cachain :: 'm
  verify :: int
  ctx_tickets :: nat
  ticket_ready :: bool
  ticket :: 'm

abbreviation (input) NUL :: char where "NUL \<equiv> CHR 0x00"

definition vtls_ctx_new ::
  "('m, 'k) env \<Rightarrow> ('m, 'k) world \<Rightarrow> 'm vtls_ctx option \<times> ('m, 'k) world" where
  "vtls_ctx_new E w =
     (let L = env_lib E; (ok, k) = env_calloc E (kst w); w' = w\<lparr>kst := k\<rparr> in
      if \<not> ok then (None, w')
      else (Some \<lparr>conf = conf_init L, conf_vrfy = NoVrfy, srvcert = x509_crt_init L, pkey = pk_init L, key_id = 0,
                  cert_pem = replicate 4096 0, cert_pem_len = 0,
                  key_pem = replicate 2048 0, key_pem_len = 0,
                  alpn_buf = replicate 64 NUL, alpn = replicate 5 None,
                  ctx_ktls_off = False, ctx_ktls_rx_no_pad = False,
                  cachain = x509_crt_init L, verify = 0, ctx_tickets = 0,
                  ticket_ready = False, ticket = ticket_init L\<rparr>, w'))"

definition vtls_ctx_free ::
  "('m, 'k) env \<Rightarrow> 'm vtls_ctx option \<Rightarrow> ('m, 'k) world \<Rightarrow> ('m, 'k) world option" where
  "vtls_ctx_free E c w =
     (case c of
        None \<Rightarrow> Some w
      | Some c \<Rightarrow> do {
          w1 \<leftarrow> VTLS_LOCK E w;
          let L = env_lib E;
          let p1 = x509_crt_free L (srvcert c) (psa w1);
          let p2 = x509_crt_free L (cachain c) p1;
          let p3 = (if key_id c \<noteq> 0 then psa_destroy_key L (key_id c) p2 else p2);
          let p4 = pk_free L (pkey c) p3;
          let p5 = conf_free L (conf c) p4;
          let p6 = (if ticket_c E then ticket_free L (ticket c) p5 else p5);
          Some (VTLS_UNLOCK E (w1\<lparr>psa := p6\<rparr>))
        })"

section \<open>The self-signed identity\<close>

text \<open>\<^verbatim>\<open>if ((ret = f()) != 0) goto done;\<close>\<close>

definition on_ok :: "mret \<times> 's \<Rightarrow> ('s \<Rightarrow> mret \<times> 's) \<Rightarrow> mret \<times> 's" where
  "on_ok x f = (if fst x = MRet 0 then f (snd x) else x)"

abbreviation (input) fail :: mret where "fail \<equiv> MErr (ERR_OTHER 1)" \<comment> \<open>\<^verbatim>\<open>ret = -1\<close>\<close>

definition vtls_parse_san :: "'k kernel \<Rightarrow> string \<Rightarrow> san_node option" where
  "vtls_parse_san K s =
     (if take 4 s = ''DNS:'' then
        (if length (drop 4 s) = 0 then None else Some (SanDns (drop 4 s)))
      else if take 3 s = ''IP:'' then
        (case c_inet_pton K AF_INET (drop 3 s) of
           Some a \<Rightarrow> Some (SanIp (take 4 a))
         | None \<Rightarrow> (case c_inet_pton K AF_INET6 (drop 3 s) of
                     Some a \<Rightarrow> Some (SanIp (take 16 a)) | None \<Rightarrow> None))
      else None)"

fun parse_sans :: "'k kernel \<Rightarrow> string list \<Rightarrow> san_node list option" where
  "parse_sans K [] = Some []"
| "parse_sans K (s # ss) =
     (case vtls_parse_san K s of
        None \<Rightarrow> None
      | Some node \<Rightarrow> map_option ((#) node) (parse_sans K ss))"

text \<open>The part of the first entry after its colon; \<^verbatim>\<open>snprintf\<close> into 160 characters.\<close>

definition cn_value :: "string \<Rightarrow> string" where
  "cn_value s = (case dropWhile (\<lambda>c. c \<noteq> CHR '':'') s of [] \<Rightarrow> s | c # v \<Rightarrow> v)"

definition snprintf :: "nat \<Rightarrow> string \<Rightarrow> string" where
  "snprintf cap s = take (cap - 1) s"

definition subject_cn :: "string \<Rightarrow> string" where
  "subject_cn value = snprintf 160 (''CN='' @ value @ '',O=vanilla'')"

definition fix_serial :: "byte list \<Rightarrow> byte list" where
  "fix_serial serial = serial[0 := (serial ! 0 AND 0x7f) OR 0x01]"

definition c_strlen :: "byte list \<Rightarrow> nat" where
  "c_strlen bs = length (takeWhile (\<lambda>b. b \<noteq> 0) bs)"

text \<open>
  The certificate is written into an \<^verbatim>\<open>x509write_cert\<close> object \<open>wc\<close>; the state is that object, the context
  and the PSA state. \<^verbatim>\<open>wc_checked\<close> is a call whose result the code tests, \<^verbatim>\<open>wc_void\<close> one without a result.
\<close>

type_synonym 'm wc_state = "'m \<times> 'm vtls_ctx \<times> 'm"

definition wc_checked :: "'m mbedtls \<Rightarrow> 'm wc_call \<Rightarrow> 'm wc_state \<Rightarrow> mret \<times> 'm wc_state" where
  "wc_checked L call = (\<lambda>(wc, c, p). let (r, wc') = wc_call L call wc in (r, wc', c, p))"

definition wc_void :: "'m mbedtls \<Rightarrow> 'm wc_call \<Rightarrow> 'm wc_state \<Rightarrow> mret \<times> 'm wc_state" where
  "wc_void L call = (\<lambda>(wc, c, p). (MRet 0, snd (wc_call L call wc), c, p))"

definition self_signed_key :: "'m mbedtls \<Rightarrow> 'm wc_state \<Rightarrow> mret \<times> 'm wc_state" where
  "self_signed_key L = (\<lambda>(wc, c, p).
     case psa_generate_key L p of
       (None, p1) \<Rightarrow> (fail, wc, c, p1)
     | (Some kid, p1) \<Rightarrow>
         (let (r, pk, p2) = pk_wrap_psa L kid (pkey c) p1
          in (r, wc, c\<lparr>key_id := kid, pkey := pk\<rparr>, p2)))"

definition self_signed_serial :: "'m mbedtls \<Rightarrow> 'm wc_state \<Rightarrow> mret \<times> 'm wc_state" where
  "self_signed_serial L = (\<lambda>(wc, c, p).
     let (serial, p1) = psa_generate_random L 12 p
     in wc_checked L (WcSerialRaw (fix_serial serial)) (wc, c, p1))"

definition self_signed_pem :: "'m mbedtls \<Rightarrow> 'm wc_state \<Rightarrow> mret \<times> 'm wc_state" where
  "self_signed_pem L = (\<lambda>(wc, c, p).
     case x509write_crt_der L 4096 wc p of
       (Inr e, p1) \<Rightarrow> (MErr e, wc, c, p1)
     | (Inl der, p1) \<Rightarrow>
         (let (r, crt, p2) = x509_crt_parse_der L der (srvcert c) p1; c1 = c\<lparr>srvcert := crt\<rparr> in
          if r \<noteq> MRet 0 then (r, wc, c1, p2)
          else (let (r2, text, olen) = pem_write_certificate L 4096 der;
                    c2 = c1\<lparr>cert_pem := memcpy_at (cert_pem c1) 0 text, cert_pem_len := olen\<rparr> in
                if r2 \<noteq> MRet 0 then (r2, wc, c2, p2)
                else (let (r3, key, p3) = pk_write_key_pem L 2048 (pkey c2) p2;
                          c3 = c2\<lparr>key_pem := memcpy_at (key_pem c2) 0 key\<rparr> in
                      if r3 \<noteq> MRet 0 then (r3, wc, c3, p3)
                      else (MRet 0, wc, c3\<lparr>key_pem_len := c_strlen (key_pem c3)\<rparr>, p3)))))"

abbreviation (input) KU_DIGITAL_SIGNATURE :: nat where "KU_DIGITAL_SIGNATURE \<equiv> 0x80"
abbreviation (input) KU_KEY_AGREEMENT :: nat where "KU_KEY_AGREEMENT \<equiv> 0x08"

definition self_signed_write ::
  "'m mbedtls \<Rightarrow> san_node list \<Rightarrow> string \<Rightarrow> 'm wc_state \<Rightarrow> mret \<times> 'm wc_state" where
  "self_signed_write L nodes cn st0 =
     on_ok (self_signed_key L st0) (\<lambda>st.
     on_ok (wc_void L (WcSubjectKey (pkey (fst (snd st)))) st) (\<lambda>st.
     on_ok (wc_void L (WcIssuerKey (pkey (fst (snd st)))) st) (\<lambda>st.
     on_ok (wc_checked L (WcSubjectName cn) st) (\<lambda>st.
     on_ok (wc_checked L (WcIssuerName cn) st) (\<lambda>st.
     on_ok (wc_void L WcVersion3 st) (\<lambda>st.
     on_ok (wc_void L WcMdSha256 st) (\<lambda>st.
     on_ok (self_signed_serial L st) (\<lambda>st.
     on_ok (wc_void L (WcValidity ''20250101000000'' ''20351231235959'') st) (\<lambda>st.
     on_ok (wc_checked L (WcSubjectAltName nodes) st) (\<lambda>st.
     on_ok (wc_checked L (WcBasicConstraints False (- 1)) st) (\<lambda>st.
     on_ok (wc_checked L (WcKeyUsage (KU_DIGITAL_SIGNATURE + KU_KEY_AGREEMENT)) st) (\<lambda>st.
     on_ok (wc_checked L WcExtKeyUsageServerAuth st)
       (self_signed_pem L)))))))))))))"

definition use_self_signed ::
  "('m, 'k) env \<Rightarrow> string list \<Rightarrow> 'm vtls_ctx \<Rightarrow> 'm \<Rightarrow> mret \<times> 'm vtls_ctx \<times> 'm" where
  "use_self_signed E sans c p =
     (let L = env_lib E in
      if length sans = 0 \<or> length sans > 16 then (fail, c, p)
      else
        (let (r, wc, c', p') =
           (case parse_sans (env_kernel E) sans of
              None \<Rightarrow> (fail, wc_init L, c, p)
            | Some nodes \<Rightarrow>
                (let value = cn_value (sans ! 0) in
                 if length value > 64 then (fail, wc_init L, c, p)
                 else self_signed_write L nodes (subject_cn value) (wc_init L, c, p)))
         in (r, c', wc_free L wc p')))"

definition vtls_use_self_signed ::
  "('m, 'k) env \<Rightarrow> string list \<Rightarrow> 'm vtls_ctx \<Rightarrow> ('m, 'k) world \<Rightarrow>
   (mret \<times> 'm vtls_ctx \<times> ('m, 'k) world) option" where
  "vtls_use_self_signed E sans c w = do {
     w1 \<leftarrow> VTLS_LOCK E w;
     let (r, c', p) = use_self_signed E sans c (psa w1);
     Some (r, c', VTLS_UNLOCK E (w1\<lparr>psa := p\<rparr>))
   }"

section \<open>Loaded identities\<close>

fun pem_len :: "byte list \<Rightarrow> nat \<Rightarrow> nat" where
  "pem_len src 0 = 0"
| "pem_len src (Suc n) = (if src ! n = 0 then pem_len src n else Suc n)"

definition vtls_keep_pem :: "byte list \<Rightarrow> byte list \<Rightarrow> nat \<Rightarrow> byte list \<times> nat" where
  "vtls_keep_pem src dst cap =
     (let n = pem_len src (length src) in
      if n = 0 \<or> n \<ge> cap then (dst, 0)
      else (memcpy_at dst 0 (take n src @ [0]), n))"

definition vtls_use_pem ::
  "('m, 'k) env \<Rightarrow> byte list \<Rightarrow> byte list \<Rightarrow> 'm vtls_ctx \<Rightarrow> ('m, 'k) world \<Rightarrow>
   (mret \<times> 'm vtls_ctx \<times> ('m, 'k) world) option" where
  "vtls_use_pem E cert key c w = do {
     w1 \<leftarrow> VTLS_LOCK E w;
     let L = env_lib E;
     let (r1, crt, p1) = x509_crt_parse L cert (srvcert c) (psa w1);
     let c1 = c\<lparr>srvcert := crt\<rparr>;
     let (r2, c2, p2) =
       (if r1 = MRet 0
        then (let (r, pk, p) = pk_parse_key L key (pkey c1) p1 in (r, c1\<lparr>pkey := pk\<rparr>, p))
        else (r1, c1, p1));
     let w2 = VTLS_UNLOCK E (w1\<lparr>psa := p2\<rparr>);
     if r2 \<noteq> MRet 0 then Some (r2, c2, w2)
     else do {
       let (cp, cl) = vtls_keep_pem cert (cert_pem c2) 4096;
       let (kp, kl) = vtls_keep_pem key (key_pem c2) 2048;
       Some (MRet 0, c2\<lparr>cert_pem := cp, cert_pem_len := cl, key_pem := kp, key_pem_len := kl\<rparr>, w2)
     }
   }"

text \<open>The getters return the array, \<open>None\<close> being the null pointer.\<close>

definition vtls_key_pem :: "'m vtls_ctx option \<Rightarrow> byte list option" where
  "vtls_key_pem c =
     (case c of None \<Rightarrow> None | Some c \<Rightarrow> if key_pem_len c > 0 then Some (key_pem c) else None)"

definition vtls_cert_pem :: "'m vtls_ctx option \<Rightarrow> byte list option" where
  "vtls_cert_pem c =
     (case c of None \<Rightarrow> None | Some c \<Rightarrow> if cert_pem_len c > 0 then Some (cert_pem c) else None)"

section \<open>Configuration\<close>

definition conf_checked :: "'m mbedtls \<Rightarrow> 'm conf_call \<Rightarrow> 'm vtls_ctx \<Rightarrow> mret \<times> 'm vtls_ctx" where
  "conf_checked L call c = (let (r, cf) = conf_call L call (conf c) in (r, c\<lparr>conf := cf\<rparr>))"

definition conf_void :: "'m mbedtls \<Rightarrow> 'm conf_call \<Rightarrow> 'm vtls_ctx \<Rightarrow> 'm vtls_ctx" where
  "conf_void L call c = snd (conf_checked L call c)"

abbreviation (input) TLS1_3_AES_128_GCM_SHA256 :: int where "TLS1_3_AES_128_GCM_SHA256 \<equiv> 0x1301"

definition ktls_ciphersuites :: "int list" where
  "ktls_ciphersuites = [TLS1_3_AES_128_GCM_SHA256, 0]"

definition server_setup :: "('m, 'k) env \<Rightarrow> 'm vtls_ctx \<Rightarrow> mret \<times> 'm vtls_ctx" where
  "server_setup E c =
     (let L = env_lib E; (r, c1) = conf_checked L ConfDefaultsServer c in
      if r \<noteq> MRet 0 then (r, c1)
      else
        (let c2 = conf_void L ConfMinTls13 c1;
             c3 = conf_void L ConfMaxTls13 c2;
             c4 = conf_void L (ConfCiphersuites ktls_ciphersuites) c3;
             c5 = (if session_tickets E then conf_void L (ConfNewSessionTickets 0) c4 else c4)
         in conf_checked L (ConfOwnCert (srvcert c5) (pkey c5)) c5))"

definition vtls_setup ::
  "('m, 'k) env \<Rightarrow> 'm vtls_ctx \<Rightarrow> ('m, 'k) world \<Rightarrow> (mret \<times> 'm vtls_ctx \<times> ('m, 'k) world) option" where
  "vtls_setup E c w = do {
     w1 \<leftarrow> VTLS_LOCK E w;
     let (r, c') = server_setup E c;
     Some (r, c', VTLS_UNLOCK E w1)
   }"

definition vtls_set_ktls :: "int \<Rightarrow> 'm vtls_ctx option \<Rightarrow> 'm vtls_ctx option" where
  "vtls_set_ktls enabled c =
     (let off = (if enabled \<noteq> 0 then False else True) in map_option (ctx_ktls_off_update (\<lambda>_. off)) c)"

definition vtls_set_ktls_rx_no_pad :: "int \<Rightarrow> 'm vtls_ctx option \<Rightarrow> 'm vtls_ctx option" where
  "vtls_set_ktls_rx_no_pad enabled c = map_option (ctx_ktls_rx_no_pad_update (\<lambda>_. enabled \<noteq> 0)) c"

text \<open>
  The loop of \<^verbatim>\<open>vtls_set_alpn\<close>: commas become NULs and the next token's address is stored, while there
  is room in the array of five pointers.
\<close>

function alpn_tokens ::
  "nat \<Rightarrow> nat \<Rightarrow> nat \<Rightarrow> string \<Rightarrow> nat option list \<Rightarrow> nat \<times> string \<times> nat option list" where
  "alpn_tokens n i count buf ptrs =
     (if i < n \<and> count < 5 - 1 then
        (if buf ! i = CHR '','' then
           alpn_tokens n (Suc i) (Suc count) (buf[i := NUL]) (ptrs[count := Some (Suc i)])
         else alpn_tokens n (Suc i) count buf ptrs)
      else (count, buf, ptrs))"
  by pat_completeness auto
termination by (relation "measure (\<lambda>(n, i, _). n - i)") auto

declare alpn_tokens.simps [simp del]

text \<open>What the library reads through the pointers: C strings, up to the null pointer.\<close>

definition cstring_at :: "string \<Rightarrow> nat \<Rightarrow> string" where
  "cstring_at buf off = takeWhile (\<lambda>c. c \<noteq> NUL) (drop off buf)"

fun cstrings :: "string \<Rightarrow> nat option list \<Rightarrow> string list" where
  "cstrings buf (Some off # ps) = cstring_at buf off # cstrings buf ps"
| "cstrings buf (None # ps) = []"
| "cstrings buf [] = []"

definition vtls_set_alpn ::
  "('m, 'k) env \<Rightarrow> string option \<Rightarrow> 'm vtls_ctx option \<Rightarrow> mret \<times> 'm vtls_ctx option" where
  "vtls_set_alpn E lst co =
     (case (co, lst) of
        (Some c, Some l) \<Rightarrow>
          (let n = length l in
           if n = 0 \<or> n \<ge> 64 then (fail, Some c)
           else
             (let buf0 = memcpy_at (alpn_buf c) 0 (l @ [NUL]);
                  (count, buf, ptrs) = alpn_tokens n 0 1 buf0 ((alpn c)[0 := Some 0]);
                  c1 = c\<lparr>alpn_buf := buf, alpn := ptrs[count := None]\<rparr>;
                  (r, c2) = conf_checked (env_lib E) (ConfAlpn (cstrings (alpn_buf c1) (alpn c1))) c1
              in (r, Some c2)))
      | _ \<Rightarrow> (fail, co))"

definition vtls_set_session_tickets ::
  "('m, 'k) env \<Rightarrow> int \<Rightarrow> 'm vtls_ctx option \<Rightarrow> ('m, 'k) world \<Rightarrow>
   (mret \<times> 'm vtls_ctx option \<times> ('m, 'k) world) option" where
  "vtls_set_session_tickets E n co w =
     (case co of
        None \<Rightarrow> Some (MErr ERR_SSL_BAD_INPUT_DATA, co, w)
      | Some c \<Rightarrow>
          if n < 0 \<or> n > 0xffff then Some (MErr ERR_SSL_BAD_INPUT_DATA, co, w)
          else if session_tickets E \<and> ticket_c E \<and> srv_c E then do {
            w1 \<leftarrow> VTLS_LOCK E w;
            let L = env_lib E;
            let (r, c1, p1) =
              (if n > 0 \<and> \<not> ticket_ready c then
                 (let (r, t, p) = ticket_setup L (ticket c) (psa w1); c' = c\<lparr>ticket := t\<rparr> in
                  if r = MRet 0
                  then (r, (conf_void L (ConfSessionTicketsCb t) c')\<lparr>ticket_ready := True\<rparr>, p)
                  else (r, c', p))
               else (MRet 0, c, psa w1));
            let c2 = (if r = MRet 0
                      then (conf_void L (ConfNewSessionTickets (nat n)) c1)\<lparr>ctx_tickets := nat n\<rparr>
                      else c1);
            Some (r, Some c2, VTLS_UNLOCK E (w1\<lparr>psa := p1\<rparr>))
          }
          else Some (if n = 0 then MRet 0 else MErr ERR_SSL_FEATURE_UNAVAILABLE, co, w))"

section \<open>The client's configuration\<close>

abbreviation (input) VTLS_VERIFY_NONE :: int where "VTLS_VERIFY_NONE \<equiv> 0"
abbreviation (input) VTLS_VERIFY_CA :: int where "VTLS_VERIFY_CA \<equiv> 1"
abbreviation (input) VTLS_VERIFY_FULL :: int where "VTLS_VERIFY_FULL \<equiv> 2"

abbreviation (input) BADCERT_CN_MISMATCH :: u32 where "BADCERT_CN_MISMATCH \<equiv> 0x04"
abbreviation (input) BADCERT_NOT_TRUSTED :: u32 where "BADCERT_NOT_TRUSTED \<equiv> 0x08"

definition verify_chain_only :: "san list \<Rightarrow> nat \<Rightarrow> u32 \<Rightarrow> u32" where
  "verify_chain_only sans depth flags =
     (if depth = 0 then flags AND NOT BADCERT_CN_MISMATCH else flags)"

definition client_setup ::
  "('m, 'k) env \<Rightarrow> string \<Rightarrow> int \<Rightarrow> 'm vtls_ctx \<Rightarrow> 'm \<Rightarrow> mret \<times> 'm vtls_ctx \<times> 'm" where
  "client_setup E ca_file vrfy c p =
     (let L = env_lib E; (r, c1) = conf_checked L ConfDefaultsClient c in
      if r \<noteq> MRet 0 then (r, c1, p)
      else
        (let c2 = conf_void L ConfMinTls13 c1;
             c3 = (conf_void L ConfMaxTls13 c2)\<lparr>verify := vrfy\<rparr> in
         if vrfy = VTLS_VERIFY_NONE then (MRet 0, conf_void L ConfAuthNone c3, p)
         else
           (let (r2, crt, p2) = x509_crt_parse_file L ca_file (cachain c3) p;
                c4 = c3\<lparr>cachain := crt\<rparr> in
            case r2 of
              MErr e \<Rightarrow> (r2, c4, p2)
            | MRet bad \<Rightarrow>
                if x509_crt_version L (cachain c4) = 0
                then (MErr ERR_X509_CERT_UNKNOWN_FORMAT, c4, p2)
                else
                  (let c5 = conf_void L (ConfCaChain (cachain c4)) c4;
                       c6 = conf_void L ConfAuthRequired c5;
                       c7 = (if vrfy = VTLS_VERIFY_CA then (conf_void L ConfVerifyChainOnly c6)\<lparr>conf_vrfy := VrfyChainOnly\<rparr> else c6)
                   in (MRet 0, c7, p2)))))"

definition vtls_client_setup ::
  "('m, 'k) env \<Rightarrow> string \<Rightarrow> int \<Rightarrow> 'm vtls_ctx \<Rightarrow> ('m, 'k) world \<Rightarrow>
   (mret \<times> 'm vtls_ctx \<times> ('m, 'k) world) option" where
  "vtls_client_setup E ca_file vrfy c w = do {
     w1 \<leftarrow> VTLS_LOCK E w;
     let (r, c', p) = client_setup E ca_file vrfy c (psa w1);
     Some (r, c', VTLS_UNLOCK E (w1\<lparr>psa := p\<rparr>))
   }"

section \<open>The lock\<close>

lemma VTLS_LOCK_free: "\<not> vtls_lock w \<Longrightarrow> \<exists>w1. VTLS_LOCK E w = Some w1"
  by (simp add: VTLS_LOCK_def)

lemma VTLS_LOCK_Some:
  assumes "VTLS_LOCK E w = Some w1"
  shows "w1 = w\<lparr>vtls_lock := (\<not> threading_c E \<or> vtls_lock w)\<rparr>"
  using assms by (auto simp: VTLS_LOCK_def split: if_splits)

lemma VTLS_UNLOCK_sel [simp]:
  "kst (VTLS_UNLOCK E w) = kst w" "psa (VTLS_UNLOCK E w) = psa w"
  "vtls_lock (VTLS_UNLOCK E w) = (threading_c E \<and> vtls_lock w)"
  "stderr (VTLS_UNLOCK E w) = stderr w"
  by (simp_all add: VTLS_UNLOCK_def)

section \<open>Loaded identities: lemmas\<close>

definition strip_nuls :: "byte list \<Rightarrow> byte list" where
  "strip_nuls bs = rev (dropWhile (\<lambda>b. b = 0) (rev bs))"

lemma pem_len_strip: "n \<le> length src \<Longrightarrow> take (pem_len src n) src = strip_nuls (take n src)"
proof (induction n)
  case (Suc n)
  then have "take (Suc n) src = take n src @ [src ! n]"
    by (simp add: take_Suc_conv_app_nth)
  with Suc show ?case by (simp add: strip_nuls_def)
qed (simp add: strip_nuls_def)

lemma pem_len_le: "pem_len src n \<le> n"
  by (induction n) auto

lemma pem_len_eq: "pem_len src (length src) = length (strip_nuls src)"
proof -
  have "length (take (pem_len src (length src)) src) = length (strip_nuls src)"
    by (simp add: pem_len_strip)
  with pem_len_le [of src "length src"] show ?thesis by simp
qed

lemma strip_nuls_snoc: "0 \<notin> set t \<Longrightarrow> strip_nuls (t @ [0]) = t"
  by (cases t rule: rev_cases) (auto simp: strip_nuls_def)

lemma vtls_keep_pem_fits:
  assumes "0 < length (strip_nuls src)" and "length (strip_nuls src) < cap"
  shows "vtls_keep_pem src dst cap =
    (memcpy_at dst 0 (strip_nuls src @ [0]), length (strip_nuls src))"
  using assms pem_len_strip [of "length src" src] by (simp add: vtls_keep_pem_def pem_len_eq)

lemma c_strlen_memcpy:
  "0 \<notin> set t \<Longrightarrow> c_strlen (memcpy_at dst 0 (t @ [0])) = length t"
  by (subgoal_tac "\<And>b. b \<in> set t \<Longrightarrow> b \<noteq> 0")
    (auto simp: c_strlen_def memcpy_at_def takeWhile_append2)

section \<open>ALPN: lemmas\<close>

text \<open>Splitting at commas into at most \<open>k + 1\<close> parts, the last one keeping the rest.\<close>

fun split_commas :: "nat \<Rightarrow> string \<Rightarrow> string list" where
  "split_commas 0 xs = [xs]"
| "split_commas (Suc k) xs =
     (case dropWhile (\<lambda>c. c \<noteq> CHR '','') xs of
        [] \<Rightarrow> [xs]
      | c # ys \<Rightarrow> takeWhile (\<lambda>c. c \<noteq> CHR '','') xs # split_commas k ys)"

lemma split_commas_none:
  assumes "CHR '','' \<notin> set xs"
  shows "split_commas k xs = [xs]"
proof -
  from assms have "dropWhile (\<lambda>c. c \<noteq> CHR '','') xs = []"
    unfolding dropWhile_eq_Nil_conv by metis
  then show ?thesis by (cases k) (simp_all del: dropWhile_eq_Nil_conv)
qed

lemma split_commas_at:
  assumes "CHR '','' \<notin> set xs"
  shows "split_commas (Suc k) (xs @ CHR '','' # ys) = xs # split_commas k ys"
proof -
  from assms have "\<And>c. c \<in> set xs \<Longrightarrow> c \<noteq> CHR '',''"
    by metis
  then show ?thesis by (simp add: dropWhile_append2 takeWhile_append2)
qed

text \<open>The loop never touches what is behind it.\<close>

lemma alpn_tokens_frame:
  assumes "alpn_tokens n i count buf ptrs = (count', buf', ptrs')" and "count \<le> 4"
  shows "length buf' = length buf \<and> length ptrs' = length ptrs \<and> count \<le> count' \<and> count' \<le> 4 \<and>
    take i buf' = take i buf \<and> drop n buf' = drop n buf \<and> take count ptrs' = take count ptrs"
  using assms
proof (induction n i count buf ptrs rule: alpn_tokens.induct)
  case (1 n i count buf ptrs)
  show ?case
  proof (cases "i < n \<and> count < 4")
    case step: True
    show ?thesis
    proof (cases "buf ! i = CHR '',''")
      case True
      with step 1(3) have "alpn_tokens n (Suc i) (Suc count) (buf[i := NUL]) (ptrs[count := Some (Suc i)])
          = (count', buf', ptrs')"
        by (simp add: alpn_tokens.simps [of n i])
      from 1(1) [OF _ True this] step have IH: "length buf' = length buf" "length ptrs' = length ptrs"
        "Suc count \<le> count'" "count' \<le> 4" "take (Suc i) buf' = take (Suc i) (buf[i := NUL])"
        "drop n buf' = drop n (buf[i := NUL])"
        "take (Suc count) ptrs' = take (Suc count) (ptrs[count := Some (Suc i)])"
        by auto
      have "take i buf' = take i buf" and "take count ptrs' = take count ptrs"
        using arg_cong [OF IH(5), of "take i"] arg_cong [OF IH(7), of "take count"] by simp_all
      then show ?thesis using IH step by simp
    next
      case False
      with step 1(3) have "alpn_tokens n (Suc i) count buf ptrs = (count', buf', ptrs')"
        by (simp add: alpn_tokens.simps [of n i])
      from 1(2) [OF _ False this] step have IH: "length buf' = length buf" "length ptrs' = length ptrs"
        "count \<le> count'" "count' \<le> 4" "take (Suc i) buf' = take (Suc i) buf"
        "drop n buf' = drop n buf" "take count ptrs' = take count ptrs"
        by auto
      have "take i buf' = take i buf"
        using arg_cong [OF IH(5), of "take i"] by simp
      with IH show ?thesis by simp
    qed
  next
    case False
    with 1(3,4) show ?thesis by (auto simp: alpn_tokens.simps [of n i])
  qed
qed

lemma cstring_at_end:
  assumes "\<forall>c \<in> set (segment j n buf). c \<noteq> NUL" and "j \<le> n" and "n < length buf" and "buf ! n = NUL"
  shows "cstring_at buf j = segment j n buf"
proof -
  have "drop j buf = segment j n buf @ drop n buf"
    using assms(2) unfolding segment_def by (metis append_take_drop_id drop_drop le_add_diff_inverse2)
  moreover have "drop n buf = NUL # drop (Suc n) buf"
    using assms(3,4) by (simp add: Cons_nth_drop_Suc [symmetric])
  ultimately show ?thesis
    using assms(1) by (simp add: cstring_at_def takeWhile_append2)
qed

lemma segment_Suc: "j \<le> i \<Longrightarrow> i < length buf \<Longrightarrow> segment j (Suc i) buf = segment j i buf @ [buf ! i]"
  by (simp add: segment_def Suc_diff_le take_Suc_conv_app_nth)

lemma segment_Cons: "i < n \<Longrightarrow> n \<le> length buf \<Longrightarrow> segment i n buf = buf ! i # segment (Suc i) n buf"
  by (simp add: segment_def Cons_nth_drop_Suc [symmetric] take_Cons' Suc_diff_Suc)

lemma segment_cong: "take hi xs = take hi ys \<Longrightarrow> segment lo hi xs = segment lo hi ys"
  by (cases "hi \<le> lo") (simp_all add: segment_def take_drop)

lemma alpn_tokens_split:
  assumes "alpn_tokens n i count buf ptrs = (count', buf', ptrs')"
    and "n < length buf" and "buf ! n = NUL" and "length ptrs = 5"
    and "1 \<le> count" and "count \<le> 4" and "j \<le> i" and "i \<le> n"
    and "\<forall>c \<in> set (segment j n buf). c \<noteq> NUL" and "CHR '','' \<notin> set (segment j i buf)"
    and "ptrs ! (count - 1) = Some j"
  shows "cstrings buf' (drop (count - 1) (ptrs'[count' := None])) = split_commas (4 - count) (segment j n buf)"
  using assms
proof (induction n i count buf ptrs arbitrary: j rule: alpn_tokens.induct)
  case (1 n i count buf ptrs)
  note frame = alpn_tokens_frame [OF 1(3) 1(8)]
  have last: "drop (count - 1) ptrs = ptrs ! (count - 1) # drop count ptrs" if "length ptrs = 5"
    for ptrs :: "nat option list"
    using 1(7,8) that Cons_nth_drop_Suc [of "count - 1" ptrs] by simp
  show ?case
  proof (cases "i < n \<and> count < 5 - 1")
    case step: True
    have i: "i < length buf" using step 1(4) by simp
    have seg: "segment j n buf = segment j i buf @ buf ! i # segment (Suc i) n buf"
      using step 1(4,9) segment_split [of j i n buf] segment_Cons [of i n buf] by simp
    show ?thesis
    proof (cases "buf ! i = CHR '',''")
      case True
      let ?b = "buf[i := NUL]" and ?p = "ptrs[count := Some (Suc i)]"
      from True step 1(3) have rec: "alpn_tokens n (Suc i) (Suc count) ?b ?p = (count', buf', ptrs')"
        by (simp add: alpn_tokens.simps [of n i])
      have tail: "segment (Suc i) n ?b = segment (Suc i) n buf"
        by (simp add: segment_def)
      from 1(1) [OF step True rec, of "Suc i"] have
        "cstrings buf' (drop count (ptrs'[count' := None])) = split_commas (3 - count) (segment (Suc i) n buf)"
        using step 1(4-8,11) i by (simp add: tail seg)
      moreover from alpn_tokens_frame [OF rec] step i
      have f: "take (Suc i) buf' = take (Suc i) ?b" "take (Suc count) ptrs' = take (Suc count) ?p"
        "Suc count \<le> count'" "length buf' = length buf" "length ptrs' = 5"
        using 1(6) by auto
      have "cstring_at buf' j = segment j i buf"
      proof -
        have "segment j i buf' = segment j i buf"
          using arg_cong [OF f(1), of "take i"] by (intro segment_cong) simp
        moreover have "buf' ! i = NUL"
          using arg_cong [OF f(1), of "\<lambda>xs. xs ! i"] i by simp
        ultimately show ?thesis
          using cstring_at_end [of j i buf'] 1(9,11) i f(4) by (simp add: seg)
      qed
      moreover have "(ptrs'[count' := None]) ! (count - 1) = Some j"
        using arg_cong [OF f(2), of "\<lambda>xs. xs ! (count - 1)"] f(3) 1(6-8,13) by simp
      moreover have "4 - count = Suc (3 - count)"
        using step by arith
      ultimately show ?thesis
        using last [of "ptrs'[count' := None]"] f(5) True 1(12)
          split_commas_at [of "segment j i buf" "3 - count" "segment (Suc i) n buf"]
        by (simp add: seg)
    next
      case False
      with step 1(3) have rec: "alpn_tokens n (Suc i) count buf ptrs = (count', buf', ptrs')"
        by (simp add: alpn_tokens.simps [of n i])
      from 1(2) [OF step False rec, of j] show ?thesis
        using step False 1(4-13) i by (simp add: segment_Suc)
    qed
  next
    case False
    with 1(3) have eq: "count' = count" "buf' = buf" "ptrs' = ptrs"
      by (auto simp: alpn_tokens.simps [of n i])
    have "split_commas (4 - count) (segment j n buf) = [segment j n buf]"
    proof (cases "count = 4")
      case False
      with \<open>\<not> (i < n \<and> count < 5 - 1)\<close> 1(8,10) have "i = n" by simp
      with 1(12) show ?thesis by (simp add: split_commas_none)
    qed simp
    moreover have "cstrings buf (drop (count - 1) (ptrs[count := None])) = [cstring_at buf j]"
      using 1(6-8,13) last [of "ptrs[count := None]"] Cons_nth_drop_Suc [of count "ptrs[count := None]", symmetric]
      by simp
    ultimately show ?thesis
      using cstring_at_end [of j n buf] 1(4,5,9-11) by (simp add: eq)
  qed
qed

section \<open>Serial numbers: lemmas\<close>

lemma serial_byte: "1 \<le> unat ((b AND 0x7f) OR 0x01 :: byte)" "unat ((b AND 0x7f) OR 0x01 :: byte) \<le> 127"
proof -
  have m: "(0x7f :: byte) = mask 7" by (simp add: mask_eq_exp_minus_1)
  have "take_bit 7 ((b AND 0x7f) OR 0x01) = (b AND 0x7f) OR (0x01 :: byte)"
    by (rule bit_eqI) (auto simp: m bit_simps)
  then have "unat ((b AND 0x7f) OR 0x01 :: byte) < 2 ^ 7"
    by (metis take_bit_nat_less_exp unsigned_take_bit_eq)
  then show "unat ((b AND 0x7f) OR 0x01 :: byte) \<le> 127" by simp
  have "bit ((b AND 0x7f) OR 0x01 :: byte) 0"
    by (simp add: bit_or_iff)
  then have "(b AND 0x7f) OR 0x01 \<noteq> (0 :: byte)"
    by auto
  then show "1 \<le> unat ((b AND 0x7f) OR 0x01 :: byte)"
    by (simp add: unat_gt_0 Suc_le_eq)
qed

section \<open>Concrete environments\<close>

text \<open>An environment and a world for witnesses: no locking library, every feature built in.\<close>

definition plain_env :: "'m mbedtls \<Rightarrow> 'k kernel \<Rightarrow> ('m, 'k) env" where
  "plain_env L K = \<lparr>env_kernel = K, env_lib = L, env_calloc = (\<lambda>k. (True, k)),
     threading_c = False, ticket_c = True, session_tickets = True, srv_c = True\<rparr>"

definition plain_world :: "'m \<Rightarrow> 'k \<Rightarrow> ('m, 'k) world" where
  "plain_world p k = \<lparr>kst = k, psa = p, vtls_lock = False, ktls_logged_ok = False,
     ktls_logged_fb = False, ktls_logged_off = False, ktls_logged_tickets = False, stderr = []\<rparr>"

definition plain_ctx :: "'m \<Rightarrow> 'm vtls_ctx" where
  "plain_ctx m = the (fst (vtls_ctx_new (plain_env (null_lib m) no_kernel) (plain_world m ())))"

lemma plain_ctx_sizes [simp]:
  "length (alpn_buf (plain_ctx m)) = 64" "length (alpn (plain_ctx m)) = 5"
  "length (cert_pem (plain_ctx m)) = 4096" "length (key_pem (plain_ctx m)) = 2048"
  by (simp_all add: plain_ctx_def vtls_ctx_new_def plain_env_def Let_def)

section \<open>Properties of the context\<close>

text \<open>
  C24. The ALPN list: for a list of 1 to 63 characters the configuration receives the list split at its
  commas, in order, into at most four names, and the context's own arrays keep their sizes.
\<close>

theorem set_alpn_splits:
  assumes "0 < length l" and "length l < 64" and "NUL \<notin> set l"
    and "length (alpn_buf c) = 64" and "length (alpn c) = 5"
  shows "\<exists>c'. vtls_set_alpn E (Some l) (Some c)
      = (fst (conf_call (env_lib E) (ConfAlpn (split_commas 3 l)) (conf c)), Some c') \<and>
    conf c' = snd (conf_call (env_lib E) (ConfAlpn (split_commas 3 l)) (conf c)) \<and>
    length (alpn_buf c') = 64 \<and> length (alpn c') = 5"
proof -
  let ?b = "memcpy_at (alpn_buf c) 0 (l @ [NUL])" and ?p = "(alpn c)[0 := Some 0]"
  obtain count buf ptrs where loop: "alpn_tokens (length l) 0 1 ?b ?p = (count, buf, ptrs)"
    using prod_cases3 by blast
  have b: "length ?b = 64" "?b ! length l = NUL" "segment 0 (length l) ?b = l"
    using assms by (simp_all add: memcpy_at_def segment_def nth_append)
  have nz: "\<forall>ch \<in> set l. ch \<noteq> NUL"
    using assms(3) by metis
  have "cstrings buf (ptrs[count := None]) = split_commas 3 l"
    using alpn_tokens_split [OF loop, of 0] assms(2,5) b nz by simp
  moreover have "length buf = 64" and "length ptrs = 5"
    using alpn_tokens_frame [OF loop] b(1) assms(5) by simp_all
  ultimately show ?thesis
    using assms(1,2) by (simp add: vtls_set_alpn_def loop [unfolded One_nat_def] conf_checked_def case_prod_beta)
qed

definition alpn_lib :: "string list mbedtls" where
  "alpn_lib = (null_lib [])\<lparr>conf_call := (\<lambda>call m. case call of ConfAlpn ts \<Rightarrow> (MRet 0, ts) | _ \<Rightarrow> (MRet 0, m))\<rparr>"

theorem set_alpn_splits_witness:
  "\<exists>c'. vtls_set_alpn (plain_env alpn_lib (no_kernel :: unit kernel)) (Some ''h2,http/1.1'') (Some (plain_ctx []))
      = (MRet 0, Some c') \<and> conf c' = [''h2'', ''http/1.1'']"
proof -
  let ?E = "plain_env alpn_lib (no_kernel :: unit kernel)"
  have "split_commas 3 ''h2,http/1.1'' = [''h2'', ''http/1.1'']"
    by (simp add: numeral_3_eq_3)
  moreover have "conf_call (env_lib ?E) (ConfAlpn ts) m = (MRet 0, ts)" for ts m
    by (simp add: plain_env_def alpn_lib_def)
  ultimately show ?thesis
    using set_alpn_splits [of "''h2,http/1.1''" "plain_ctx []" ?E] by auto
qed

text \<open>
  C25. Loading an identity keeps the PEM texts readable: after a successful \<^verbatim>\<open>vtls_use_pem\<close> with
  NUL-terminated texts that fit, \<^verbatim>\<open>vtls_cert_pem\<close> and \<^verbatim>\<open>vtls_key_pem\<close> return arrays of unchanged size whose
  C strings are exactly those texts.
\<close>

theorem use_pem_keeps_texts:
  assumes "vtls_use_pem E (t @ [0]) (u @ [0]) c w = Some (MRet 0, c', w')"
    and "0 \<notin> set t" and "0 < length t" and "length t < 4096" and "length (cert_pem c) = 4096"
    and "0 \<notin> set u" and "0 < length u" and "length u < 2048" and "length (key_pem c) = 2048"
  shows "\<exists>a b. vtls_cert_pem (Some c') = Some a \<and> length a = 4096 \<and> take (c_strlen a) a = t \<and>
    vtls_key_pem (Some c') = Some b \<and> length b = 2048 \<and> take (c_strlen b) b = u"
proof -
  have keep: "vtls_keep_pem (v @ [0]) dst cap = (memcpy_at dst 0 (v @ [0]), length v)"
    if "0 \<notin> set v" "0 < length v" "length v < cap" for v :: "byte list" and dst cap
    using vtls_keep_pem_fits [of "v @ [0]" cap dst] that by (simp add: strip_nuls_snoc)
  from assms(1) have "cert_pem c' = memcpy_at (cert_pem c) 0 (t @ [0])" "cert_pem_len c' = length t"
    "key_pem c' = memcpy_at (key_pem c) 0 (u @ [0])" "key_pem_len c' = length u"
    using keep [OF assms(2-4)] keep [OF assms(6-8)]
    by (auto simp: vtls_use_pem_def case_prod_beta Let_def split: if_splits elim!: bind_SomeE)
  moreover have "take (length v) (memcpy_at dst 0 (v @ [0])) = v" for v dst :: "byte list"
    by (simp add: memcpy_at_def)
  ultimately show ?thesis
    using assms(2-9) by (simp add: vtls_cert_pem_def vtls_key_pem_def c_strlen_memcpy)
qed

theorem use_pem_keeps_texts_witness:
  "\<exists>c' w' a. vtls_use_pem (plain_env (null_lib ()) (no_kernel :: unit kernel)) [45, 66, 0] [75, 0]
       (plain_ctx ()) (plain_world () ()) = Some (MRet 0, c', w') \<and>
     vtls_cert_pem (Some c') = Some a \<and> take (c_strlen a) a = [45, 66]"
proof -
  let ?E = "plain_env (null_lib ()) (no_kernel :: unit kernel)"
  obtain c' w' where run: "vtls_use_pem ?E ([45, 66] @ [0]) ([75] @ [0]) (plain_ctx ()) (plain_world () ())
      = Some (MRet 0, c', w')"
    by (simp add: vtls_use_pem_def VTLS_LOCK_def plain_env_def plain_world_def null_lib_def case_prod_beta)
  with use_pem_keeps_texts [OF run] show ?thesis by auto
qed

text \<open>
  The certificate's serial number is a positive DER integer in its shortest form: 12 bytes whose
  first lies between 1 and 127, the rest being as random as they were drawn.
\<close>

theorem self_signed_serial_positive:
  assumes "length (fst (psa_generate_random L 12 p)) = 12"
  shows "\<exists>s. self_signed_serial L (wc, c, p)
       = wc_checked L (WcSerialRaw s) (wc, c, snd (psa_generate_random L 12 p)) \<and>
     length s = 12 \<and> 1 \<le> unat (s ! 0) \<and> unat (s ! 0) \<le> 127 \<and>
     drop 1 s = drop 1 (fst (psa_generate_random L 12 p))"
  using assms serial_byte [of "fst (psa_generate_random L 12 p) ! 0"]
  by (intro exI [of _ "fix_serial (fst (psa_generate_random L 12 p))"])
    (simp add: self_signed_serial_def fix_serial_def case_prod_beta)

theorem self_signed_serial_positive_witness:
  "\<exists>s. self_signed_serial (null_lib ()) ((), plain_ctx (), ())
       = wc_checked (null_lib ()) (WcSerialRaw s) ((), plain_ctx (), ()) \<and>
     length s = 12 \<and> 1 \<le> unat (s ! 0)"
  using self_signed_serial_positive [of "null_lib ()" "()" "()" "plain_ctx ()"]
  by (auto simp: null_lib_def)

end
