(* ===== verification/Tls_Session.thy ===== *)
theory Tls_Session
  imports Tls_Ctx
begin

text \<open>
  The per-connection TLS session of \<^verbatim>\<open>src/tls/vanilla_tls.c\<close>: the receive callback with its read-ahead,
  the send callback, handshake, read and write. The state of every operation is the session and the
  world; \<open>None\<close> is an operation that does not return.
\<close>

section \<open>The session\<close>

record vtls_keys =
  client_app_secret :: "byte list" \<comment> \<open>32 bytes\<close>
  server_app_secret :: "byte list" \<comment> \<open>32 bytes\<close>
  have_client :: bool
  have_server :: bool

record 'm vtls_session =
  ssl :: 'm
  net_fd :: int
  keys :: vtls_keys
  ktls :: bool
  ktls_failed :: bool
  ktls_off :: bool
  tickets :: bool
  ktls_rx_no_pad :: bool
  readable :: bool
  readahead :: bool
  closed :: nat
  defer_send :: bool
  deferred :: bool
  wpend :: nat
  parked :: bool
  bio_want :: bool
  peer_closed :: bool
  close_notify :: bool
  last_err :: mret
  peer_ip :: "byte list" \<comment> \<open>16 bytes\<close>
  peer_ip_len :: nat
  ra_off :: nat
  ra_len :: nat
  ra :: "byte list" \<comment> \<open>\<^verbatim>\<open>VTLS_READAHEAD\<close> bytes\<close>
  export_cb :: bool \<comment> \<open>\<^verbatim>\<open>on_export_keys\<close> is registered\<close>
  vrfy :: vrfy_cb \<comment> \<open>what Mbed TLS calls: the session's own callback, else its configuration's\<close>

type_synonym ('m, 'k) tls_state = "'m vtls_session \<times> ('m, 'k) world"

definition VTLS_READAHEAD :: nat where "VTLS_READAHEAD = 4096"

definition zero_keys :: vtls_keys where
  "zero_keys = \<lparr>client_app_secret = replicate 32 0, server_app_secret = replicate 32 0,
     have_client = False, have_server = False\<rparr>"

text \<open>\<^verbatim>\<open>calloc(1, sizeof(vtls_session))\<close> followed by \<^verbatim>\<open>mbedtls_ssl_init\<close>.\<close>

definition zero_session :: "'m \<Rightarrow> 'm vtls_session" where
  "zero_session m = \<lparr>ssl = m, net_fd = 0, keys = zero_keys, ktls = False, ktls_failed = False,
     ktls_off = False, tickets = False, ktls_rx_no_pad = False, readable = False, readahead = False,
     closed = 0, defer_send = False, deferred = False, wpend = 0, parked = False, bio_want = False,
     peer_closed = False, close_notify = False, last_err = MRet 0, peer_ip = replicate 16 0,
     peer_ip_len = 0, ra_off = 0, ra_len = 0, ra = replicate VTLS_READAHEAD 0,
     export_cb = False, vrfy = NoVrfy\<rparr>"

definition on_export_keys :: "key_export \<Rightarrow> byte list \<Rightarrow> vtls_keys \<Rightarrow> vtls_keys" where
  "on_export_keys ty secret k =
     (if length secret \<noteq> 32 then k
      else case ty of
        SERVER_APPLICATION_TRAFFIC_SECRET \<Rightarrow> k\<lparr>server_app_secret := secret, have_server := True\<rparr>
      | CLIENT_APPLICATION_TRAFFIC_SECRET \<Rightarrow> k\<lparr>client_app_secret := secret, have_client := True\<rparr>
      | OTHER_SECRET n \<Rightarrow> k)"

section \<open>The receive callback\<close>

definition vtls_recv ::
  "('m, 'k) env \<Rightarrow> nat \<Rightarrow> ('m, 'k) tls_state \<Rightarrow> ((mret \<times> byte list) \<times> ('m, 'k) tls_state) option" where
  "vtls_recv E want = (\<lambda>(s, w). do {
     (r, k) \<leftarrow> retry interrupted (k_recv (env_kernel E) (net_fd s) want []) (kst w);
     let w' = w\<lparr>kst := k\<rparr>;
     Some (case r of
         SysErr e \<Rightarrow>
           if e = EAGAIN \<or> e = EWOULDBLOCK
           then ((MErr ERR_SSL_WANT_READ, []), s\<lparr>readable := False, bio_want := True\<rparr>, w')
           else ((MErr ERR_NET_RECV_FAILED, []), s\<lparr>closed := 2\<rparr>, w')
       | SysOk bs \<Rightarrow>
           if length bs = 0 then ((MRet 0, []), s\<lparr>closed := 1\<rparr>, w')
           else ((MRet (length bs), bs),
                 if length bs < want then s\<lparr>readable := False\<rparr> else s, w'))
   })"

definition ra_fill ::
  "('m, 'k) env \<Rightarrow> ('m, 'k) tls_state \<Rightarrow> (mret \<times> ('m, 'k) tls_state) option" where
  "ra_fill E \<sigma> = do {
     ((r, bs), s, w) \<leftarrow> vtls_recv E VTLS_READAHEAD \<sigma>;
     Some (r, s\<lparr>ra := memcpy_at (ra s) 0 bs, ra_off := 0,
                ra_len := (case r of MRet n \<Rightarrow> n | MErr e \<Rightarrow> 0)\<rparr>, w)
   }"

definition ra_take ::
  "nat \<Rightarrow> ('m, 'k) tls_state \<Rightarrow> (mret \<times> byte list) \<times> ('m, 'k) tls_state" where
  "ra_take len = (\<lambda>(s, w).
     let n0 = ra_len s - ra_off s; n = (if n0 > len then len else n0)
     in ((MRet n, segment (ra_off s) (ra_off s + n) (ra s)), s\<lparr>ra_off := ra_off s + n\<rparr>, w))"

definition vtls_bio_recv ::
  "('m, 'k) env \<Rightarrow> nat \<Rightarrow> ('m, 'k) tls_state \<Rightarrow> ((mret \<times> byte list) \<times> ('m, 'k) tls_state) option" where
  "vtls_bio_recv E len = (\<lambda>(s, w).
     if ra_off s \<ge> ra_len s then
       if closed s \<noteq> 0
       then Some ((if closed s = 1 then MRet 0 else MErr ERR_NET_RECV_FAILED, []), s, w)
       else if \<not> readable s then Some ((MErr ERR_SSL_WANT_READ, []), s\<lparr>bio_want := True\<rparr>, w)
       else if \<not> readahead s \<or> len \<ge> VTLS_READAHEAD then vtls_recv E len (s, w)
       else do {
         (r, \<sigma>1) \<leftarrow> ra_fill E (s, w);
         Some (case r of
             MErr e \<Rightarrow> ((MErr e, []), \<sigma>1)
           | MRet n \<Rightarrow> if n = 0 then ((MRet 0, []), \<sigma>1) else ra_take len \<sigma>1)
       }
     else Some (ra_take len (s, w)))"

section \<open>The send callback\<close>

definition vtls_bio_send ::
  "('m, 'k) env \<Rightarrow> byte list \<Rightarrow> ('m, 'k) tls_state \<Rightarrow> (mret \<times> ('m, 'k) tls_state) option" where
  "vtls_bio_send E buf = (\<lambda>(s, w).
     if defer_send s then Some (MErr ERR_SSL_WANT_WRITE, s\<lparr>deferred := True\<rparr>, w)
     else do {
       (r, k) \<leftarrow> retry interrupted (k_send (env_kernel E) (net_fd s) buf [MSG_NOSIGNAL]) (kst w);
       let w' = w\<lparr>kst := k\<rparr>;
       Some (case r of
           SysOk n \<Rightarrow>
             (MRet n, if wpend s = 1 \<and> n = length buf then s\<lparr>wpend := 2\<rparr> else s, w')
         | SysErr e \<Rightarrow>
             (MErr (if e = EAGAIN \<or> e = EWOULDBLOCK then ERR_SSL_WANT_WRITE
                    else if e = EPIPE \<or> e = ECONNRESET then ERR_NET_CONN_RESET
                    else ERR_NET_SEND_FAILED), s, w'))
     })"

section \<open>The certificate callbacks\<close>

abbreviation (input) ASN1_TAG_VALUE_MASK :: byte where "ASN1_TAG_VALUE_MASK \<equiv> 0x1f"
abbreviation (input) X509_SAN_IP_ADDRESS :: byte where "X509_SAN_IP_ADDRESS \<equiv> 7"

fun ip_san_listed :: "nat \<Rightarrow> byte list \<Rightarrow> san list \<Rightarrow> bool" where
  "ip_san_listed ip_len ip [] = False"
| "ip_san_listed ip_len ip (san # sans) =
     (if san_tag san AND ASN1_TAG_VALUE_MASK = X509_SAN_IP_ADDRESS \<and>
         length (san_p san) = ip_len \<and> take ip_len (san_p san) = take ip_len ip
      then True else ip_san_listed ip_len ip sans)"

definition verify_ip_san :: "'m vtls_session \<Rightarrow> san list \<Rightarrow> nat \<Rightarrow> u32 \<Rightarrow> u32" where
  "verify_ip_san s sans depth flags =
     (if depth \<noteq> 0 then flags
      else if ip_san_listed (peer_ip_len s) (peer_ip s) sans then flags
      else flags OR BADCERT_CN_MISMATCH)"

text \<open>What Mbed TLS calls back into.\<close>

definition session_callbacks :: "('m, 'k) env \<Rightarrow> ('m, 'k) tls_state callbacks" where
  "session_callbacks E = \<lparr>
     cb_recv = vtls_bio_recv E,
     cb_send = vtls_bio_send E,
     cb_export = (\<lambda>ty secret (s, w).
       (if export_cb s then s\<lparr>keys := on_export_keys ty secret (keys s)\<rparr> else s, w)),
     cb_verify = (\<lambda>sans depth flags (s, w).
       case vrfy s of
         NoVrfy \<Rightarrow> flags
       | VrfyChainOnly \<Rightarrow> verify_chain_only sans depth flags
       | VrfyIpSan \<Rightarrow> verify_ip_san s sans depth flags)\<rparr>"

text \<open>A call of Mbed TLS on the session's context, without and with the crypto lock around it.\<close>

definition call_ssl ::
  "('m, 'k) env \<Rightarrow> ('m \<Rightarrow> 'm \<Rightarrow> ('a \<times> 'm \<times> 'm) lib) \<Rightarrow> ('m, 'k) tls_state \<Rightarrow>
   ('a \<times> ('m, 'k) tls_state) option" where
  "call_ssl E f = (\<lambda>(s, w). do {
     ((a, m, p), s1, w1) \<leftarrow> run_lib (session_callbacks E) (f (ssl s) (psa w)) (s, w);
     Some (a, s1\<lparr>ssl := m\<rparr>, w1\<lparr>psa := p\<rparr>)
   })"

definition locked_call ::
  "('m, 'k) env \<Rightarrow> ('m \<Rightarrow> 'm \<Rightarrow> ('a \<times> 'm \<times> 'm) lib) \<Rightarrow> ('m, 'k) tls_state \<Rightarrow>
   ('a \<times> ('m, 'k) tls_state) option" where
  "locked_call E f = (\<lambda>(s, w). do {
     w1 \<leftarrow> VTLS_LOCK E w;
     (a, s2, w2) \<leftarrow> call_ssl E f (s, w1);
     Some (a, s2, VTLS_UNLOCK E w2)
   })"

section \<open>Creating and freeing\<close>

definition vtls_session_new ::
  "('m, 'k) env \<Rightarrow> 'm vtls_ctx \<Rightarrow> int \<Rightarrow> ('m, 'k) world \<Rightarrow>
   ('m vtls_session option \<times> ('m, 'k) world) option" where
  "vtls_session_new E c fd w0 =
     (let (ok, k) = env_calloc E (kst w0); w = w0\<lparr>kst := k\<rparr>; L = env_lib E in
      if \<not> ok then Some (None, w)
      else do {
        w1 \<leftarrow> VTLS_LOCK E w;
        let (ret, m, p) = ssl_setup L (ssl_init L) (conf c) (psa w1);
        let p' = (if ret \<noteq> MRet 0 then ssl_free L m p else p);
        let w2 = VTLS_UNLOCK E (w1\<lparr>psa := p'\<rparr>);
        Some (if ret \<noteq> MRet 0 then (None, w2)
              else (Some ((zero_session m)\<lparr>net_fd := fd, readable := True,
                            ktls_off := ctx_ktls_off c, tickets := ctx_tickets c > 0,
                            ktls_rx_no_pad := ctx_ktls_rx_no_pad c, vrfy := conf_vrfy c, export_cb := True\<rparr>), w2))
      })"

definition vtls_session_free ::
  "('m, 'k) env \<Rightarrow> 'm vtls_session option \<Rightarrow> ('m, 'k) world \<Rightarrow> ('m, 'k) world option" where
  "vtls_session_free E sess w =
     (case sess of
        None \<Rightarrow> Some w
      | Some s \<Rightarrow> do {
          w1 \<leftarrow> VTLS_LOCK E w;
          (s2, w2) \<leftarrow>
            (if \<not> ktls s \<and> net_fd s \<ge> 0
             then Option.bind (call_ssl E (ssl_close_notify (env_lib E)) (s, w1)) (\<lambda>(r, \<sigma>). Some \<sigma>)
             else Some (s, w1));
          Some (VTLS_UNLOCK E (w2\<lparr>psa := ssl_free (env_lib E) (ssl s2) (psa w2)\<rparr>))
        })"

definition vtls_get_alpn :: "('m, 'k) env \<Rightarrow> 'm vtls_session \<Rightarrow> string option" where
  "vtls_get_alpn E s = ssl_get_alpn_protocol (env_lib E) (ssl s)"

section \<open>Handshake and read\<close>

abbreviation (input) VTLS_OK :: int where "VTLS_OK \<equiv> 0"
abbreviation (input) VTLS_WANT :: int where "VTLS_WANT \<equiv> - 2"
abbreviation (input) VTLS_WANT_WRITE :: int where "VTLS_WANT_WRITE \<equiv> - 3"
abbreviation (input) VTLS_ERROR :: int where "VTLS_ERROR \<equiv> - 1"

definition map_ret :: "mret \<Rightarrow> int" where
  "map_ret ret =
     (if ret = MErr ERR_SSL_WANT_READ then VTLS_WANT
      else if ret = MErr ERR_SSL_WANT_WRITE then VTLS_WANT_WRITE
      else VTLS_ERROR)"

definition VTLS_RETRIES :: nat where "VTLS_RETRIES = 64"

definition vtls_retry :: "'m vtls_session \<Rightarrow> mret \<Rightarrow> bool" where
  "vtls_retry s ret \<longleftrightarrow>
     ret = MErr ERR_SSL_RECEIVED_NEW_SESSION_TICKET \<or>
     (ret = MErr ERR_SSL_WANT_READ \<and> \<not> bio_want s)"

text \<open>The do-while loops count their calls in \<open>n\<close>, from 0, up to \<^verbatim>\<open>VTLS_RETRIES\<close>.\<close>

function handshake_loop ::
  "('m, 'k) env \<Rightarrow> nat \<Rightarrow> ('m, 'k) tls_state \<Rightarrow> (mret \<times> ('m, 'k) tls_state) option" where
  "handshake_loop E n (s, w) = do {
     (ret, s2, w2) \<leftarrow> locked_call E (ssl_handshake (env_lib E)) (s\<lparr>bio_want := False\<rparr>, w);
     if vtls_retry s2 ret \<and> n + 1 < VTLS_RETRIES then handshake_loop E (n + 1) (s2, w2)
     else Some (ret, s2, w2)
   }"
  by pat_completeness auto
termination by (relation "measure (\<lambda>(E, n, \<sigma>). VTLS_RETRIES - n)") auto

declare handshake_loop.simps [simp del]

definition vtls_handshake ::
  "('m, 'k) env \<Rightarrow> ('m, 'k) tls_state \<Rightarrow> (int \<times> ('m, 'k) tls_state) option" where
  "vtls_handshake E \<sigma> = do {
     (ret, s, w) \<leftarrow> handshake_loop E 0 \<sigma>;
     if ret = MRet 0 then Some (VTLS_OK, s, w)
     else do {
       let r = map_ret ret;
       Some (r, if r = VTLS_ERROR then s\<lparr>last_err := ret\<rparr> else s, w)
     }
   }"

definition vtls_mark_readable :: "'m vtls_session \<Rightarrow> 'm vtls_session" where
  "vtls_mark_readable s = s\<lparr>readable := True\<rparr>"

text \<open>
  The loop of \<^verbatim>\<open>vtls_read\<close> ends with the library's answer, or with \<^verbatim>\<open>return VTLS_WANT\<close> before the library
  is entered. Its first half is the refill ahead of the lock.
\<close>

datatype read_end = ReadWant | ReadRet mret "byte list"

definition read_prefetch ::
  "('m, 'k) env \<Rightarrow> ('m, 'k) tls_state \<Rightarrow> (bool \<times> ('m, 'k) tls_state) option" where
  "read_prefetch E = (\<lambda>(s, w).
     if ra_off s \<ge> ra_len s \<and> closed s = 0 \<and> ssl_get_bytes_avail (env_lib E) (ssl s) = 0 \<and>
        \<not> ssl_check_pending (env_lib E) (ssl s)
     then
       if \<not> readable s then Some (True, s, w)
       else if readahead s
       then do { (r, \<sigma>1) \<leftarrow> ra_fill E (s, w); Some (r = MErr ERR_SSL_WANT_READ, \<sigma>1) }
       else Some (False, s, w)
     else Some (False, s, w))"

function read_loop ::
  "('m, 'k) env \<Rightarrow> nat \<Rightarrow> nat \<Rightarrow> ('m, 'k) tls_state \<Rightarrow> (read_end \<times> ('m, 'k) tls_state) option" where
  "read_loop E len n \<sigma> = do {
     (want, s1, w1) \<leftarrow> read_prefetch E \<sigma>;
     if want then Some (ReadWant, s1, w1)
     else do {
       ((ret, bs), s2, w2) \<leftarrow> locked_call E (ssl_read (env_lib E) len) (s1\<lparr>bio_want := False\<rparr>, w1);
       if vtls_retry s2 ret \<and> n + 1 < VTLS_RETRIES then read_loop E len (n + 1) (s2, w2)
       else Some (ReadRet ret bs, s2, w2)
     }
   }"
  by pat_completeness auto
termination by (relation "measure (\<lambda>(E, len, n, \<sigma>). VTLS_RETRIES - n)") auto

declare read_loop.simps [simp del]

definition read_finish ::
  "mret \<Rightarrow> byte list \<Rightarrow> 'm vtls_session \<Rightarrow> (int \<times> byte list) \<times> 'm vtls_session" where
  "read_finish ret bs s0 =
     (let s = s0\<lparr>parked := (ret = MErr ERR_SSL_WANT_WRITE)\<rparr> in
      case ret of
        MRet n \<Rightarrow>
          if n > 0 then ((int n, bs), s) else ((VTLS_ERROR, []), s\<lparr>peer_closed := True\<rparr>)
      | MErr e \<Rightarrow>
          if e = ERR_SSL_PEER_CLOSE_NOTIFY
          then ((VTLS_ERROR, []), s\<lparr>peer_closed := True, close_notify := True\<rparr>)
          else ((map_ret ret, []), s))"

definition vtls_read ::
  "('m, 'k) env \<Rightarrow> nat \<Rightarrow> ('m, 'k) tls_state \<Rightarrow> ((int \<times> byte list) \<times> ('m, 'k) tls_state) option" where
  "vtls_read E len \<sigma> = do {
     (e, s, w) \<leftarrow> read_loop E len 0 \<sigma>;
     Some (case e of
         ReadWant \<Rightarrow> ((VTLS_WANT, []), s, w)
       | ReadRet ret bs \<Rightarrow> (let (r, s') = read_finish ret bs s in (r, s', w)))
   }"

definition vtls_peer_closed :: "'m vtls_session \<Rightarrow> bool" where
  "vtls_peer_closed s = peer_closed s"

definition vtls_peer_close_notify :: "'m vtls_session \<Rightarrow> bool" where
  "vtls_peer_close_notify s = close_notify s"

section \<open>Write\<close>

text \<open>The conversion \<^verbatim>\<open>(int)len\<close> of a \<^verbatim>\<open>size_t\<close>, which keeps the low 32 bits.\<close>

definition int_of_size :: "nat \<Rightarrow> int" where
  "int_of_size n = sint (of_nat n :: u32)"

text \<open>What \<^verbatim>\<open>vtls_write\<close> reports for a record that went out from inside another call.\<close>

datatype write_end = WriteDone int | WriteRet mret

definition settled_count :: "('m, 'k) env \<Rightarrow> byte list \<Rightarrow> 'm vtls_session \<Rightarrow> int" where
  "settled_count E buf s =
     (case ssl_get_max_out_record_payload (env_lib E) (ssl s) of
        MRet r \<Rightarrow> if r > 0 \<and> r < length buf then int r else int_of_size (length buf)
      | MErr e \<Rightarrow> int_of_size (length buf))"

partial_function (option) write_loop ::
  "('m, 'k) env \<Rightarrow> byte list \<Rightarrow> ('m, 'k) tls_state \<Rightarrow> (write_end \<times> ('m, 'k) tls_state) option" where
  "write_loop E buf \<sigma> =
     (if wpend (fst \<sigma>) = 2 then
        Some (WriteDone (settled_count E buf (fst \<sigma>)), (fst \<sigma>)\<lparr>wpend := 0\<rparr>, snd \<sigma>)
      else do {
        (ret, s1, w1) \<leftarrow> locked_call E (ssl_write (env_lib E) buf)
          ((fst \<sigma>)\<lparr>defer_send := (VTLS_SERIALIZED E \<and> \<not> parked (fst \<sigma>))\<rparr>, snd \<sigma>);
        (if ret \<noteq> MErr ERR_SSL_RECEIVED_NEW_SESSION_TICKET
         then Some (WriteRet ret, s1\<lparr>defer_send := False\<rparr>, w1)
         else write_loop E buf (s1\<lparr>defer_send := False, parked := False\<rparr>, w1))
      })"

definition write_finish :: "mret \<Rightarrow> 'm vtls_session \<Rightarrow> int \<times> 'm vtls_session" where
  "write_finish ret s =
     (case ret of
        MRet n \<Rightarrow> (int n, s\<lparr>wpend := 0, parked := False\<rparr>)
      | MErr e \<Rightarrow> (map_ret ret, if e = ERR_SSL_WANT_WRITE then s\<lparr>wpend := 1\<rparr> else s))"

definition vtls_write ::
  "('m, 'k) env \<Rightarrow> byte list \<Rightarrow> ('m, 'k) tls_state \<Rightarrow> (int \<times> ('m, 'k) tls_state) option" where
  "vtls_write E buf \<sigma> = do {
     (e, s, w) \<leftarrow> write_loop E buf \<sigma>;
     case e of
       WriteDone r \<Rightarrow> Some (r, s, w)
     | WriteRet ret \<Rightarrow> do {
         (ret2, s2, w2) \<leftarrow>
           (if deferred s then call_ssl E (ssl_write (env_lib E) buf) (s\<lparr>deferred := False\<rparr>, w)
            else Some (ret, s, w));
         let (r, s3) = write_finish ret2 s2;
         Some (r, s3, w2)
       }
   }"

section \<open>What callbacks leave alone\<close>

text \<open>The callbacks write nine fields of the session; \<open>own\<close> blanks them out.\<close>

definition own :: "'m vtls_session \<Rightarrow> 'm vtls_session" where
  "own s = s\<lparr>keys := zero_keys, readable := False, closed := 0, deferred := False, wpend := 0,
     bio_want := False, ra_off := 0, ra_len := 0, ra := []\<rparr>"

definition world_rest :: "('m, 'k) world \<Rightarrow> 'm \<times> bool \<times> bool \<times> bool \<times> bool \<times> bool \<times> log_line list" where
  "world_rest w = (psa w, vtls_lock w, ktls_logged_ok w, ktls_logged_fb w, ktls_logged_off w,
     ktls_logged_tickets w, stderr w)"

definition bio_frame :: "('m, 'k) tls_state \<Rightarrow> bio_event list \<Rightarrow> ('m, 'k) tls_state \<Rightarrow> bool" where
  "bio_frame \<sigma> tr \<sigma>' \<longleftrightarrow>
     own (fst \<sigma>') = own (fst \<sigma>) \<and> world_rest (snd \<sigma>') = world_rest (snd \<sigma>)"

lemma own_eqD:
  assumes "own s' = own s"
  shows "ssl s' = ssl s" "net_fd s' = net_fd s" "ktls s' = ktls s" "ktls_failed s' = ktls_failed s"
    "ktls_off s' = ktls_off s" "tickets s' = tickets s" "readahead s' = readahead s"
    "defer_send s' = defer_send s" "parked s' = parked s" "peer_closed s' = peer_closed s"
    "close_notify s' = close_notify s" "last_err s' = last_err s" "peer_ip s' = peer_ip s"
    "peer_ip_len s' = peer_ip_len s" "export_cb s' = export_cb s" "vrfy s' = vrfy s"
    "ktls_rx_no_pad s' = ktls_rx_no_pad s"
  using arg_cong [OF assms, of ssl] arg_cong [OF assms, of net_fd] arg_cong [OF assms, of ktls]
    arg_cong [OF assms, of ktls_failed] arg_cong [OF assms, of ktls_off] arg_cong [OF assms, of tickets]
    arg_cong [OF assms, of readahead] arg_cong [OF assms, of defer_send] arg_cong [OF assms, of parked]
    arg_cong [OF assms, of peer_closed] arg_cong [OF assms, of close_notify] arg_cong [OF assms, of last_err]
    arg_cong [OF assms, of peer_ip] arg_cong [OF assms, of peer_ip_len] arg_cong [OF assms, of export_cb]
    arg_cong [OF assms, of vrfy] arg_cong [OF assms, of ktls_rx_no_pad]
  by (simp_all add: own_def)

lemma vtls_recv_cases [consumes 1, case_names Data Eof Again Failed]:
  assumes "vtls_recv E want (s, w) = Some ((r, bs), \<sigma>')"
  obtains
    (Data) k where "retry interrupted (k_recv (env_kernel E) (net_fd s) want []) (kst w) = Some (SysOk bs, k)"
      "bs \<noteq> []" "r = MRet (length bs)"
      "\<sigma>' = (if length bs < want then s\<lparr>readable := False\<rparr> else s, w\<lparr>kst := k\<rparr>)"
  | (Eof) k where "retry interrupted (k_recv (env_kernel E) (net_fd s) want []) (kst w) = Some (SysOk [], k)"
      "bs = []" "r = MRet 0" "\<sigma>' = (s\<lparr>closed := 1\<rparr>, w\<lparr>kst := k\<rparr>)"
  | (Again) k where "retry interrupted (k_recv (env_kernel E) (net_fd s) want []) (kst w) = Some (SysErr EAGAIN, k)"
      "bs = []" "r = MErr ERR_SSL_WANT_READ"
      "\<sigma>' = (s\<lparr>readable := False, bio_want := True\<rparr>, w\<lparr>kst := k\<rparr>)"
  | (Failed) e k where "retry interrupted (k_recv (env_kernel E) (net_fd s) want []) (kst w) = Some (SysErr e, k)"
      "bs = []" "r = MErr ERR_NET_RECV_FAILED" "\<sigma>' = (s\<lparr>closed := 2\<rparr>, w\<lparr>kst := k\<rparr>)"
proof -
  from assms obtain a k where ret: "retry interrupted (k_recv (env_kernel E) (net_fd s) want []) (kst w) = Some (a, k)"
    by (auto simp: vtls_recv_def elim!: bind_SomeE)
  show thesis
  proof (cases a)
    case (SysOk x)
    then show thesis
      using assms ret by (cases "x = []") (auto simp: vtls_recv_def intro: Data Eof)
  next
    case (SysErr e)
    then show thesis
      using assms ret by (cases "e = EAGAIN") (auto simp: vtls_recv_def intro: Again Failed)
  qed
qed

lemma vtls_recv_frame: "vtls_recv E want \<sigma> = Some (x, \<sigma>') \<Longrightarrow> bio_frame \<sigma> tr \<sigma>'"
  by (cases \<sigma>; cases x)
    (auto elim!: vtls_recv_cases simp: bio_frame_def own_def world_rest_def)

lemma ra_fill_frame: "ra_fill E \<sigma> = Some (r, \<sigma>') \<Longrightarrow> bio_frame \<sigma> tr \<sigma>'"
  by (cases \<sigma>)
    (auto simp: ra_fill_def bio_frame_def own_def world_rest_def elim!: bind_SomeE vtls_recv_cases)

lemma vtls_bio_recv_cases [consumes 1, case_names Latched Want Direct Refill Buffered]:
  assumes "vtls_bio_recv E len (s, w) = Some ((r, bs), \<sigma>')"
  obtains
    (Latched) "ra_len s \<le> ra_off s" "closed s \<noteq> 0" "bs = []" "\<sigma>' = (s, w)"
      "r = (if closed s = 1 then MRet 0 else MErr ERR_NET_RECV_FAILED)"
  | (Want) "ra_len s \<le> ra_off s" "\<not> readable s" "bs = []" "\<sigma>' = (s\<lparr>bio_want := True\<rparr>, w)"
      "r = MErr ERR_SSL_WANT_READ" "closed s = 0"
  | (Direct) "ra_len s \<le> ra_off s" "readable s" "vtls_recv E len (s, w) = Some ((r, bs), \<sigma>')"
  | (Refill) n \<sigma>1 where "ra_len s \<le> ra_off s" "readable s" "ra_fill E (s, w) = Some (n, \<sigma>1)"
      "(bs = [] \<and> r = n \<and> \<sigma>' = \<sigma>1 \<and> (\<forall>i. n \<noteq> MRet (Suc i))) \<or>
       ((\<exists>i. n = MRet (Suc i)) \<and> ((r, bs), \<sigma>') = ra_take len \<sigma>1)"
  | (Buffered) "ra_off s < ra_len s" "((r, bs), \<sigma>') = ra_take len (s, w)"
proof (cases "ra_len s \<le> ra_off s")
  case empty: True
  show thesis
  proof (cases "closed s = 0 \<and> readable s")
    case live: True
    show thesis
    proof (cases "\<not> readahead s \<or> len \<ge> VTLS_READAHEAD")
      case True
      with assms empty live have "vtls_recv E len (s, w) = Some ((r, bs), \<sigma>')"
        by (simp add: vtls_bio_recv_def)
      with empty live show thesis by (intro Direct) simp_all
    next
      case False
      with assms empty live obtain n \<sigma>1 where "ra_fill E (s, w) = Some (n, \<sigma>1)" and
        out: "((r, bs), \<sigma>') = (case n of MErr e \<Rightarrow> ((MErr e, []), \<sigma>1)
          | MRet i \<Rightarrow> if i = 0 then ((MRet 0, []), \<sigma>1) else ra_take len \<sigma>1)"
        by (auto simp: vtls_bio_recv_def elim!: bind_SomeE)
      from out have "(bs = [] \<and> r = n \<and> \<sigma>' = \<sigma>1 \<and> (\<forall>i. n \<noteq> MRet (Suc i))) \<or>
       ((\<exists>i. n = MRet (Suc i)) \<and> ((r, bs), \<sigma>') = ra_take len \<sigma>1)"
        by (cases n) (auto split: if_splits dest: gr0_implies_Suc)
      with empty live \<open>ra_fill E (s, w) = Some (n, \<sigma>1)\<close> show thesis by (intro Refill) simp_all
    qed
  next
    case False
    with assms empty show thesis
      by (cases "closed s = 0") (auto simp: vtls_bio_recv_def intro: Latched Want)
  qed
next
  case False
  with assms show thesis by (intro Buffered) (simp_all add: vtls_bio_recv_def)
qed

lemma ra_take_frame: "((r, bs), \<sigma>') = ra_take len \<sigma> \<Longrightarrow> bio_frame \<sigma> tr \<sigma>'"
  by (cases \<sigma>) (simp add: ra_take_def bio_frame_def own_def world_rest_def Let_def)

lemma vtls_bio_recv_frame:
  assumes "vtls_bio_recv E n (s, w) = Some ((r, bs), \<sigma>')"
  shows "bio_frame (s, w) tr \<sigma>'"
  using assms
proof (cases rule: vtls_bio_recv_cases)
  case (Refill m \<sigma>1)
  then show ?thesis
    using ra_fill_frame [of E "(s, w)" m \<sigma>1 tr] ra_take_frame [of r bs \<sigma>' n \<sigma>1 tr]
    by (auto simp: bio_frame_def)
next
  case Direct
  then show ?thesis by (intro vtls_recv_frame)
next
  case Buffered
  then show ?thesis by (intro ra_take_frame)
qed (simp_all add: bio_frame_def own_def)

lemma vtls_bio_send_cases [consumes 1, case_names Deferred Sent Error]:
  assumes "vtls_bio_send E buf (s, w) = Some (r, \<sigma>')"
  obtains
    (Deferred) "defer_send s" "r = MErr ERR_SSL_WANT_WRITE" "\<sigma>' = (s\<lparr>deferred := True\<rparr>, w)"
  | (Sent) n k where "\<not> defer_send s" "r = MRet n"
      "retry interrupted (k_send (env_kernel E) (net_fd s) buf [MSG_NOSIGNAL]) (kst w) = Some (SysOk n, k)"
      "\<sigma>' = (if wpend s = 1 \<and> n = length buf then s\<lparr>wpend := 2\<rparr> else s, w\<lparr>kst := k\<rparr>)"
  | (Error) e c k where "\<not> defer_send s" "r = MErr c"
      "retry interrupted (k_send (env_kernel E) (net_fd s) buf [MSG_NOSIGNAL]) (kst w) = Some (SysErr e, k)"
      "\<sigma>' = (s, w\<lparr>kst := k\<rparr>)"
proof (cases "defer_send s")
  case True
  with assms show thesis by (intro Deferred) (simp_all add: vtls_bio_send_def)
next
  case False
  with assms obtain a k where
    ret: "retry interrupted (k_send (env_kernel E) (net_fd s) buf [MSG_NOSIGNAL]) (kst w) = Some (a, k)"
    by (auto simp: vtls_bio_send_def elim!: bind_SomeE)
  show thesis
  proof (cases a)
    case (SysOk n)
    with assms False ret show thesis by (intro Sent) (auto simp: vtls_bio_send_def)
  next
    case (SysErr e)
    with assms False ret show thesis by (intro Error) (auto simp: vtls_bio_send_def)
  qed
qed

lemma session_callbacks_sel [simp]:
  "cb_recv (session_callbacks E) = vtls_bio_recv E"
  "cb_send (session_callbacks E) = vtls_bio_send E"
  "cb_export (session_callbacks E) ty sec (s, w)
    = (if export_cb s then s\<lparr>keys := on_export_keys ty sec (keys s)\<rparr> else s, w)"
  by (simp_all add: session_callbacks_def)

interpretation frame: bio_contract "session_callbacks E" bio_frame for E :: "('m, 'k) env"
proof
  fix n \<sigma> r bs and \<sigma>' :: "('m, 'k) tls_state"
  assume "cb_recv (session_callbacks E) n \<sigma> = Some ((r, bs), \<sigma>')"
  then show "bio_frame \<sigma> [Received n r bs] \<sigma>'"
    by (cases \<sigma>) (auto dest: vtls_bio_recv_frame)
next
  fix bs \<sigma> r and \<sigma>' :: "('m, 'k) tls_state"
  assume "cb_send (session_callbacks E) bs \<sigma> = Some (r, \<sigma>')"
  then show "bio_frame \<sigma> [Sent bs r] \<sigma>'"
    by (cases \<sigma>) (auto elim!: vtls_bio_send_cases simp: bio_frame_def own_def world_rest_def)
next
  fix ty sec and \<sigma> :: "('m, 'k) tls_state"
  show "bio_frame \<sigma> [Exported ty sec] (cb_export (session_callbacks E) ty sec \<sigma>)"
    by (cases \<sigma>) (simp add: bio_frame_def own_def)
qed (auto simp: bio_frame_def)

section \<open>The receive side\<close>

definition session_wf :: "'m vtls_session \<Rightarrow> bool" where
  "session_wf s \<longleftrightarrow> length (ra s) = VTLS_READAHEAD \<and> ra_off s \<le> ra_len s \<and> ra_len s \<le> VTLS_READAHEAD"

text \<open>The bytes the peer sent that Mbed TLS has not received: the read-ahead, then the socket.\<close>

definition buffered :: "'m vtls_session \<Rightarrow> byte list" where
  "buffered s = segment (ra_off s) (ra_len s) (ra s)"

definition pending :: "('k \<Rightarrow> byte list) \<Rightarrow> ('m, 'k) tls_state \<Rightarrow> byte list" where
  "pending rx \<sigma> = buffered (fst \<sigma>) @ rx (kst (snd \<sigma>))"

definition edge_in :: "('k \<Rightarrow> bool) \<Rightarrow> ('m, 'k) tls_state \<Rightarrow> bool" where
  "edge_in edge \<sigma> = edge (kst (snd \<sigma>))"

text \<open>Bytes in the socket are announced: the session knows of them, or an edge is pending.\<close>

definition awake :: "('k \<Rightarrow> byte list) \<Rightarrow> ('k \<Rightarrow> bool) \<Rightarrow> ('m, 'k) tls_state \<Rightarrow> bool" where
  "awake rx edge \<sigma> \<longleftrightarrow> readable (fst \<sigma>) \<or> rx (kst (snd \<sigma>)) = [] \<or> edge (kst (snd \<sigma>))"

text \<open>Within a library call, a WANT_READ answered by the receive callback means drained.\<close>

definition want_ok :: "'m vtls_session \<Rightarrow> bool" where
  "want_ok s \<longleftrightarrow> (bio_want s \<longrightarrow> \<not> readable s \<and> ra_len s \<le> ra_off s)"

definition rx_rel ::
  "('m, 'k) env \<Rightarrow> ('k \<Rightarrow> byte list) \<Rightarrow> ('k \<Rightarrow> bool) \<Rightarrow>
   ('m, 'k) tls_state \<Rightarrow> bio_event list \<Rightarrow> ('m, 'k) tls_state \<Rightarrow> bool" where
  "rx_rel E rx edge \<sigma> tr \<sigma>' \<longleftrightarrow>
     (stream_socket (env_kernel E) (net_fd (fst \<sigma>)) rx edge \<and> session_wf (fst \<sigma>) \<longrightarrow>
      net_fd (fst \<sigma>') = net_fd (fst \<sigma>) \<and> session_wf (fst \<sigma>') \<and>
      takes (pending rx) (edge_in edge) \<sigma> (received tr) \<sigma>' \<and>
      (awake rx edge \<sigma> \<longrightarrow> awake rx edge \<sigma>') \<and>
      (want_ok (fst \<sigma>) \<longrightarrow> want_ok (fst \<sigma>')))"

lemma takes_awake: "takes rx edge k bs k' \<Longrightarrow> rx k = [] \<or> edge k \<Longrightarrow> rx k' = [] \<or> edge k'"
  by (auto simp: takes_def)

lemma takes_lift:
  assumes "takes rx edge (kst w) bs (kst w')" and "buffered s = []" and "buffered s' = []"
  shows "takes (pending rx) (edge_in edge) (s, w) bs (s', w')"
  using assms by (simp add: takes_def pending_def edge_in_def)

lemma takes_stash:
  assumes "takes rx edge (kst w) bs (kst w')" and "buffered s = []" and "buffered s' = bs"
  shows "takes (pending rx) (edge_in edge) (s, w) [] (s', w')"
  using assms by (simp add: takes_def pending_def edge_in_def)

lemma buffered_empty [simp]: "ra_len s \<le> ra_off s \<Longrightarrow> buffered s = []"
  by (simp add: buffered_def)

lemma buffered_cong: "ra_off s' = ra_off s \<Longrightarrow> ra_len s' = ra_len s \<Longrightarrow> ra s' = ra s \<Longrightarrow> buffered s' = buffered s"
  by (simp add: buffered_def)

lemma rx_trans: "rx_rel E rx edge \<sigma> tr \<sigma>' \<Longrightarrow> rx_rel E rx edge \<sigma>' tr' \<sigma>'' \<Longrightarrow> rx_rel E rx edge \<sigma> (tr @ tr') \<sigma>''"
  by (auto simp: rx_rel_def intro: takes_trans)

text \<open>One \<^verbatim>\<open>recv\<close>, and what it leaves of the session's bookkeeping.\<close>

lemma vtls_recv_rx:
  assumes sock: "stream_socket (env_kernel E) (net_fd s) rx edge"
    and ret: "vtls_recv E want (s, w) = Some ((r, bs), s', w')"
  shows "takes rx edge (kst w) bs (kst w') \<and> length bs \<le> want \<and>
    (awake rx edge (s, w) \<longrightarrow> awake rx edge (s', w')) \<and>
    (r = MRet (length bs) \<or> (bs = [] \<and> (\<exists>e. r = MErr e))) \<and>
    net_fd s' = net_fd s \<and> ra_off s' = ra_off s \<and> ra_len s' = ra_len s \<and> ra s' = ra s \<and>
    (bio_want s' \<longrightarrow> bio_want s \<or> \<not> readable s') \<and> (readable s' \<longrightarrow> readable s) \<and>
    (\<forall>n. r = MRet n \<longrightarrow> bio_want s' = bio_want s) \<and>
    (r = MErr ERR_SSL_WANT_READ \<longrightarrow> \<not> readable s' \<and> (rx (kst w') = [] \<or> edge (kst w')))"
  using ret
proof (cases rule: vtls_recv_cases)
  case (Data k)
  with stream_socket_retry [OF sock Data(1)] takes_awake [of rx edge "kst w" bs k] show ?thesis
    by (auto simp: awake_def)
next
  case (Eof k)
  with stream_socket_retry [OF sock Eof(1)] takes_awake [of rx edge "kst w" "[]" k] show ?thesis
    by (auto simp: awake_def)
next
  case (Again k)
  with stream_socket_retry [OF sock Again(1)] show ?thesis
    by (auto simp: awake_def)
next
  case (Failed e k)
  with stream_socket_retry [OF sock Failed(1)] takes_awake [of rx edge "kst w" "[]" k] show ?thesis
    by (auto simp: awake_def)
qed

text \<open>Refilling an empty read-ahead moves bytes from the socket into it.\<close>

lemma ra_fill_rx:
  assumes sock: "stream_socket (env_kernel E) (net_fd s) rx edge" and wf: "session_wf s"
    and empty: "ra_len s \<le> ra_off s" and ret: "ra_fill E (s, w) = Some (r, s', w')"
  shows "net_fd s' = net_fd s \<and> session_wf s' \<and>
    takes (pending rx) (edge_in edge) (s, w) [] (s', w') \<and>
    (awake rx edge (s, w) \<longrightarrow> awake rx edge (s', w')) \<and>
    (bio_want s' \<longrightarrow> bio_want s \<or> \<not> readable s') \<and> (readable s' \<longrightarrow> readable s) \<and>
    (\<forall>n. r = MRet n \<longrightarrow> bio_want s' = bio_want s) \<and>
    ((\<exists>n. r = MRet (Suc n)) \<or> ra_len s' = 0) \<and>
    (r = MErr ERR_SSL_WANT_READ \<longrightarrow> \<not> readable s' \<and> pending rx (s', w') = rx (kst w') \<and>
       (rx (kst w') = [] \<or> edge (kst w')))"
proof -
  from ret obtain bs s1 where recv: "vtls_recv E VTLS_READAHEAD (s, w) = Some ((r, bs), s1, w')"
    and s': "s' = s1\<lparr>ra := memcpy_at (ra s1) 0 bs, ra_off := 0, ra_len := (case r of MRet n \<Rightarrow> n | MErr e \<Rightarrow> 0)\<rparr>"
    by (auto simp: ra_fill_def elim!: bind_SomeE)
  note rx = vtls_recv_rx [OF sock recv]
  then have len: "(case r of MRet n \<Rightarrow> n | MErr e \<Rightarrow> 0) = length bs"
    by (cases r) auto
  from wf rx have fits: "length bs \<le> length (ra s1)"
    by (simp add: session_wf_def)
  have "buffered s' = bs"
    by (simp add: s' len buffered_def segment_memcpy_at_0)
  moreover have "session_wf s'"
    using wf rx fits by (simp add: s' len session_wf_def)
  moreover have "(\<exists>n. r = MRet (Suc n)) \<or> ra_len s' = 0"
    by (cases r) (auto simp: s' dest: gr0_implies_Suc)
  moreover have "awake rx edge (s', w') = awake rx edge (s1, w')"
    by (simp add: awake_def s')
  ultimately show ?thesis
    using rx empty takes_stash [of rx edge w bs w' s s'] by (auto simp: s' pending_def)
qed

lemma ra_take_rx:
  assumes wf: "session_wf s" and "((r, bs), s', w') = ra_take len (s, w)"
  shows "net_fd s' = net_fd s \<and> session_wf s' \<and>
    takes (pending rx) (edge_in edge) (s, w) bs (s', w') \<and>
    (awake rx edge (s, w) \<longrightarrow> awake rx edge (s', w')) \<and> bio_want s' = bio_want s \<and>
    readable s' = readable s \<and> (ra_len s \<le> ra_off s \<longrightarrow> ra_len s' \<le> ra_off s')"
proof -
  define n where "n = (if ra_len s - ra_off s > len then len else ra_len s - ra_off s)"
  from assms(2) have eq: "bs = segment (ra_off s) (ra_off s + n) (ra s)" "s' = s\<lparr>ra_off := ra_off s + n\<rparr>" "w' = w"
    by (simp_all add: ra_take_def n_def Let_def)
  have n: "ra_off s + n \<le> ra_len s"
    using wf by (auto simp: n_def session_wf_def)
  then have "buffered s = bs @ buffered s'"
    using segment_split [of "ra_off s" "ra_off s + n" "ra_len s" "ra s"] by (simp add: eq buffered_def)
  then have "takes (pending rx) (edge_in edge) (s, w) bs (s', w')"
    by (simp add: takes_def pending_def edge_in_def eq(3))
  then show ?thesis
    using wf n by (auto simp: eq(2,3) session_wf_def awake_def)
qed

lemma vtls_bio_recv_rx:
  assumes ret: "vtls_bio_recv E n (s, w) = Some ((r, bs), s', w')"
    and sock: "stream_socket (env_kernel E) (net_fd s) rx edge" and wf: "session_wf s"
  shows "net_fd s' = net_fd s \<and> session_wf s' \<and> takes (pending rx) (edge_in edge) (s, w) bs (s', w') \<and>
    (awake rx edge (s, w) \<longrightarrow> awake rx edge (s', w')) \<and> (want_ok s \<longrightarrow> want_ok s')"
  using ret
proof (cases rule: vtls_bio_recv_cases)
  case Latched
  with wf show ?thesis by (simp add: takes_refl)
next
  case Want
  with wf show ?thesis
    by (simp add: takes_def pending_def edge_in_def buffered_def session_wf_def awake_def want_ok_def)
next
  case Direct
  note rx = vtls_recv_rx [OF sock Direct(3)]
  then have "takes (pending rx) (edge_in edge) (s, w) bs (s', w')"
    using Direct(1) by (intro takes_lift) (auto simp: buffered_def)
  with rx wf Direct(1,2) show ?thesis by (auto simp: session_wf_def want_ok_def)
next
  case (Refill m \<sigma>1)
  obtain s1 w1 where \<sigma>1: "\<sigma>1 = (s1, w1)" by (cases \<sigma>1)
  note fill = ra_fill_rx [OF sock wf Refill(1) Refill(3) [unfolded \<sigma>1]]
  from Refill(4) show ?thesis
  proof
    assume "bs = [] \<and> r = m \<and> (s', w') = \<sigma>1 \<and> (\<forall>i. m \<noteq> MRet (Suc i))"
    with fill Refill(2) show ?thesis by (auto simp: \<sigma>1 want_ok_def)
  next
    assume "(\<exists>i. m = MRet (Suc i)) \<and> ((r, bs), s', w') = ra_take n \<sigma>1"
    then obtain i where m: "m = MRet (Suc i)" and got: "((r, bs), s', w') = ra_take n (s1, w1)"
      by (auto simp: \<sigma>1)
    from fill have "session_wf s1" and f: "takes (pending rx) (edge_in edge) (s, w) [] (s1, w1)"
      by simp_all
    note part = ra_take_rx [OF \<open>session_wf s1\<close> got, of rx edge]
    then have p: "takes (pending rx) (edge_in edge) (s1, w1) bs (s', w')"
      by simp
    from takes_trans [OF f p] fill part m Refill(1,2) show ?thesis by (simp add: want_ok_def)
  qed
next
  case Buffered
  with ra_take_rx [OF wf Buffered(2), of rx edge] show ?thesis by (auto simp: want_ok_def)
qed

lemma vtls_bio_send_rx:
  assumes "vtls_bio_send E bs (s, w) = Some (r, s', w')"
    and sock: "stream_socket (env_kernel E) (net_fd s) rx edge"
  shows "takes (pending rx) (edge_in edge) (s, w) [] (s', w') \<and>
    (awake rx edge (s, w) \<longrightarrow> awake rx edge (s', w'))"
proof -
  from assms(1) have "takes rx edge (kst w) [] (kst w') \<and> buffered s' = buffered s \<and> readable s' = readable s"
  proof (cases rule: vtls_bio_send_cases)
    case (Sent n k)
    with stream_socket_send_retry [OF sock Sent(3)] show ?thesis by (auto simp: buffered_def)
  next
    case (Error e c k)
    with stream_socket_send_retry [OF sock Error(3)] show ?thesis by (auto simp: buffered_def)
  qed (simp add: takes_refl buffered_def)
  then show ?thesis
    using takes_awake [of rx edge "kst w" "[]" "kst w'"]
    by (auto simp: takes_def pending_def edge_in_def awake_def)
qed

interpretation rx: bio_contract "session_callbacks E" "rx_rel E rx edge"
  for E :: "('m, 'k) env" and rx edge
proof
  fix n \<sigma> r bs and \<sigma>' :: "('m, 'k) tls_state"
  assume "cb_recv (session_callbacks E) n \<sigma> = Some ((r, bs), \<sigma>')"
  then show "rx_rel E rx edge \<sigma> [Received n r bs] \<sigma>'"
    using vtls_bio_recv_rx [of E n "fst \<sigma>" "snd \<sigma>" r bs "fst \<sigma>'" "snd \<sigma>'" rx edge]
    by (simp add: rx_rel_def)
next
  fix bs \<sigma> r and \<sigma>' :: "('m, 'k) tls_state"
  assume send: "cb_send (session_callbacks E) bs \<sigma> = Some (r, \<sigma>')"
  have "net_fd (fst \<sigma>') = net_fd (fst \<sigma>) \<and> session_wf (fst \<sigma>') = session_wf (fst \<sigma>) \<and>
      want_ok (fst \<sigma>') = want_ok (fst \<sigma>)"
    using send by (cases \<sigma>) (auto elim!: vtls_bio_send_cases simp: session_wf_def want_ok_def split: if_splits)
  then show "rx_rel E rx edge \<sigma> [Sent bs r] \<sigma>'"
    using send vtls_bio_send_rx [of E bs "fst \<sigma>" "snd \<sigma>" r "fst \<sigma>'" "snd \<sigma>'" rx edge]
    by (simp add: rx_rel_def)
next
  fix ty sec and \<sigma> :: "('m, 'k) tls_state"
  show "rx_rel E rx edge \<sigma> [Exported ty sec] (cb_export (session_callbacks E) ty sec \<sigma>)"
    by (cases \<sigma>) (simp add: rx_rel_def takes_def pending_def edge_in_def buffered_def session_wf_def
        awake_def want_ok_def)
qed (erule (1) rx_trans | simp add: rx_rel_def takes_refl)+

text \<open>\<open>bio_want\<close> records exactly that the receive callback answered WANT_READ.\<close>

definition asked :: "bio_event list \<Rightarrow> bool" where
  "asked tr \<longleftrightarrow> (\<exists>n bs. Received n (MErr ERR_SSL_WANT_READ) bs \<in> set tr)"

lemma asked_simps [simp]:
  "\<not> asked []" "asked (tr @ tr') = (asked tr \<or> asked tr')" "asked [Received n r bs] = (r = MErr ERR_SSL_WANT_READ)"
  "\<not> asked [Sent bs r]" "\<not> asked [Exported ty sec]" "\<not> asked [Verified sans depth fl fl']"
  by (auto simp: asked_def)

definition want_rel :: "('m, 'k) tls_state \<Rightarrow> bio_event list \<Rightarrow> ('m, 'k) tls_state \<Rightarrow> bool" where
  "want_rel \<sigma> tr \<sigma>' \<longleftrightarrow> bio_want (fst \<sigma>') = (bio_want (fst \<sigma>) \<or> asked tr)"

lemma vtls_recv_want:
  assumes "vtls_recv E want (s, w) = Some ((r, bs), \<sigma>')"
  shows "bio_want (fst \<sigma>') = (bio_want s \<or> r = MErr ERR_SSL_WANT_READ)"
  using assms by (cases rule: vtls_recv_cases) auto

lemma vtls_bio_recv_want:
  assumes "vtls_bio_recv E n (s, w) = Some ((r, bs), \<sigma>')"
  shows "bio_want (fst \<sigma>') = (bio_want s \<or> r = MErr ERR_SSL_WANT_READ)"
  using assms
proof (cases rule: vtls_bio_recv_cases)
  case Direct
  then show ?thesis by (intro vtls_recv_want)
next
  case (Refill m \<sigma>1)
  then have "bio_want (fst \<sigma>1) = (bio_want s \<or> m = MErr ERR_SSL_WANT_READ)"
    by (auto simp: ra_fill_def elim!: bind_SomeE dest!: vtls_recv_want)
  with Refill(4) show ?thesis by (cases \<sigma>1) (auto simp: ra_take_def Let_def)
qed (auto simp: ra_take_def Let_def)

interpretation want: bio_contract "session_callbacks E" want_rel for E :: "('m, 'k) env"
proof
  fix n \<sigma> r bs and \<sigma>' :: "('m, 'k) tls_state"
  assume "cb_recv (session_callbacks E) n \<sigma> = Some ((r, bs), \<sigma>')"
  then show "want_rel \<sigma> [Received n r bs] \<sigma>'"
    using vtls_bio_recv_want [of E n "fst \<sigma>" "snd \<sigma>" r bs \<sigma>'] by (simp add: want_rel_def)
next
  fix bs \<sigma> r and \<sigma>' :: "('m, 'k) tls_state"
  assume "cb_send (session_callbacks E) bs \<sigma> = Some (r, \<sigma>')"
  then show "want_rel \<sigma> [Sent bs r] \<sigma>'"
    by (cases \<sigma>) (auto elim!: vtls_bio_send_cases simp: want_rel_def split: if_splits)
next
  fix ty sec and \<sigma> :: "('m, 'k) tls_state"
  show "want_rel \<sigma> [Exported ty sec] (cb_export (session_callbacks E) ty sec \<sigma>)"
    by (cases \<sigma>) (simp add: want_rel_def)
qed (auto simp: want_rel_def)

section \<open>The send side\<close>

text \<open>
  While sends are deferred every send is answered WANT_WRITE and noted in \<open>deferred\<close>; otherwise a send
  of all the pending output settles a record the session left pending.
\<close>

definition tx_rel :: "('m, 'k) tls_state \<Rightarrow> bio_event list \<Rightarrow> ('m, 'k) tls_state \<Rightarrow> bool" where
  "tx_rel \<sigma> tr \<sigma>' \<longleftrightarrow>
     defer_send (fst \<sigma>') = defer_send (fst \<sigma>) \<and>
     (if defer_send (fst \<sigma>)
      then wpend (fst \<sigma>') = wpend (fst \<sigma>) \<and>
        (\<forall>bs r. Sent bs r \<in> set tr \<longrightarrow> r = MErr ERR_SSL_WANT_WRITE) \<and>
        deferred (fst \<sigma>') = (deferred (fst \<sigma>) \<or> (\<exists>bs r. Sent bs r \<in> set tr))
      else deferred (fst \<sigma>') = deferred (fst \<sigma>) \<and>
        wpend (fst \<sigma>') = (if wpend (fst \<sigma>) = 1 \<and> (\<exists>bs. Sent bs (MRet (length bs)) \<in> set tr)
                          then 2 else wpend (fst \<sigma>)))"

lemma tx_trans: "tx_rel \<sigma> tr \<sigma>' \<Longrightarrow> tx_rel \<sigma>' tr' \<sigma>'' \<Longrightarrow> tx_rel \<sigma> (tr @ tr') \<sigma>''"
  by (auto simp: tx_rel_def split: if_splits)

definition wire_rel ::
  "('m, 'k) env \<Rightarrow> ('k \<Rightarrow> byte list) \<Rightarrow> ('m, 'k) tls_state \<Rightarrow> bio_event list \<Rightarrow> ('m, 'k) tls_state \<Rightarrow> bool" where
  "wire_rel E wire \<sigma> tr \<sigma>' \<longleftrightarrow>
     (send_socket (env_kernel E) (net_fd (fst \<sigma>)) wire \<longrightarrow>
      net_fd (fst \<sigma>') = net_fd (fst \<sigma>) \<and>
      wire (kst (snd \<sigma>')) = wire (kst (snd \<sigma>)) @ sent tr)"

lemma vtls_recv_fields:
  assumes "vtls_recv E n (s, w) = Some ((r, bs), s', w')"
  shows "defer_send s' = defer_send s" "deferred s' = deferred s" "wpend s' = wpend s"
    "\<exists>a. retry interrupted (k_recv (env_kernel E) (net_fd s) n []) (kst w) = Some (a, kst w')"
  using assms by (cases rule: vtls_recv_cases; auto)+

lemma vtls_bio_recv_fields:
  assumes "vtls_bio_recv E n (s, w) = Some ((r, bs), s', w')"
  shows "defer_send s' = defer_send s \<and> deferred s' = deferred s \<and> wpend s' = wpend s \<and>
    (kst w' = kst w \<or>
     (\<exists>m a. retry interrupted (k_recv (env_kernel E) (net_fd s) m []) (kst w) = Some (a, kst w')))"
  using assms
proof (cases rule: vtls_bio_recv_cases)
  case Direct
  then show ?thesis using vtls_recv_fields [OF Direct(3)] by blast
next
  case (Refill m \<sigma>1)
  then obtain x s1 w1 where "vtls_recv E VTLS_READAHEAD (s, w) = Some (x, s1, w1)"
    and "defer_send s' = defer_send s1" "deferred s' = deferred s1" "wpend s' = wpend s1" "kst w' = kst w1"
    by (auto simp: ra_fill_def ra_take_def Let_def elim!: bind_SomeE)
  then show ?thesis using vtls_recv_fields [of E VTLS_READAHEAD s w "fst x" "snd x" s1 w1] by auto
qed (simp_all add: ra_take_def Let_def)

interpretation tx: bio_contract "session_callbacks E" tx_rel for E :: "('m, 'k) env"
proof
  fix n \<sigma> r bs and \<sigma>' :: "('m, 'k) tls_state"
  assume "cb_recv (session_callbacks E) n \<sigma> = Some ((r, bs), \<sigma>')"
  then show "tx_rel \<sigma> [Received n r bs] \<sigma>'"
    using vtls_bio_recv_fields [of E n "fst \<sigma>" "snd \<sigma>" r bs "fst \<sigma>'" "snd \<sigma>'"] by (simp add: tx_rel_def)
next
  fix bs \<sigma> r and \<sigma>' :: "('m, 'k) tls_state"
  assume "cb_send (session_callbacks E) bs \<sigma> = Some (r, \<sigma>')"
  then show "tx_rel \<sigma> [Sent bs r] \<sigma>'"
    by (cases \<sigma>) (auto elim!: vtls_bio_send_cases simp: tx_rel_def split: if_splits)
next
  fix ty sec and \<sigma> :: "('m, 'k) tls_state"
  show "tx_rel \<sigma> [Exported ty sec] (cb_export (session_callbacks E) ty sec \<sigma>)"
    by (cases \<sigma>) (simp add: tx_rel_def)
qed (erule (1) tx_trans | simp add: tx_rel_def)+

interpretation wire: bio_contract "session_callbacks E" "wire_rel E wire" for E :: "('m, 'k) env" and wire
proof
  fix n \<sigma> r bs and \<sigma>' :: "('m, 'k) tls_state"
  assume recv: "cb_recv (session_callbacks E) n \<sigma> = Some ((r, bs), \<sigma>')"
  then have "net_fd (fst \<sigma>') = net_fd (fst \<sigma>)"
    using frame.on_recv [OF recv] by (auto simp: bio_frame_def dest: own_eqD)
  then show "wire_rel E wire \<sigma> [Received n r bs] \<sigma>'"
    using recv vtls_bio_recv_fields [of E n "fst \<sigma>" "snd \<sigma>" r bs "fst \<sigma>'" "snd \<sigma>'"]
      send_socket_recv_retry [of "env_kernel E" "net_fd (fst \<sigma>)" wire]
    by (auto simp: wire_rel_def)
next
  fix bs \<sigma> r and \<sigma>' :: "('m, 'k) tls_state"
  assume "cb_send (session_callbacks E) bs \<sigma> = Some (r, \<sigma>')"
  then have "vtls_bio_send E bs (fst \<sigma>, snd \<sigma>) = Some (r, \<sigma>')" by simp
  then show "wire_rel E wire \<sigma> [Sent bs r] \<sigma>'"
    using send_socket_retry [of "env_kernel E" "net_fd (fst \<sigma>)" wire bs "[MSG_NOSIGNAL]" "kst (snd \<sigma>)"]
    by (cases rule: vtls_bio_send_cases) (fastforce simp: wire_rel_def)+
next
  fix ty sec and \<sigma> :: "('m, 'k) tls_state"
  show "wire_rel E wire \<sigma> [Exported ty sec] (cb_export (session_callbacks E) ty sec \<sigma>)"
    by (cases \<sigma>) (simp add: wire_rel_def)
qed (auto simp: wire_rel_def)

section \<open>Callbacks return\<close>

lemma calls_settle_recv: "calls_settle K \<Longrightarrow> \<exists>r k'. retry interrupted (k_recv K fd n fl) k = Some (r, k')"
  by (simp add: calls_settle_def settles_retry)

lemma calls_settle_send: "calls_settle K \<Longrightarrow> \<exists>r k'. retry interrupted (k_send K fd bs fl) k = Some (r, k')"
  by (simp add: calls_settle_def settles_retry)

lemma not_None_pair: "x \<noteq> None \<Longrightarrow> \<exists>a b. x = Some (a, b)"
  by auto

lemma vtls_recv_returns:
  assumes "calls_settle (env_kernel E)"
  shows "vtls_recv E n \<sigma> \<noteq> None"
proof -
  obtain s w where \<sigma>: "\<sigma> = (s, w)" by (cases \<sigma>)
  obtain r k where "retry interrupted (k_recv (env_kernel E) (net_fd s) n []) (kst w) = Some (r, k)"
    using calls_settle_recv [OF assms] by blast
  then show ?thesis by (simp add: vtls_recv_def \<sigma> Let_def del: not_None_eq)
qed

lemma ra_fill_returns:
  assumes "calls_settle (env_kernel E)"
  shows "ra_fill E \<sigma> \<noteq> None"
  using vtls_recv_returns [OF assms, of VTLS_READAHEAD \<sigma>]
  by (cases "vtls_recv E VTLS_READAHEAD \<sigma>") (simp_all add: ra_fill_def case_prod_beta del: not_None_eq)

lemma vtls_bio_recv_returns:
  assumes "calls_settle (env_kernel E)"
  shows "vtls_bio_recv E n \<sigma> \<noteq> None"
  using vtls_recv_returns [OF assms, of n \<sigma>] ra_fill_returns [OF assms, of \<sigma>]
  by (cases \<sigma>; cases "ra_fill E \<sigma>") (simp_all add: vtls_bio_recv_def case_prod_beta del: not_None_eq)

lemma vtls_bio_send_returns:
  assumes "calls_settle (env_kernel E)"
  shows "vtls_bio_send E bs \<sigma> \<noteq> None"
proof -
  obtain s w where \<sigma>: "\<sigma> = (s, w)" by (cases \<sigma>)
  obtain r k where "retry interrupted (k_send (env_kernel E) (net_fd s) bs [MSG_NOSIGNAL]) (kst w) = Some (r, k)"
    using calls_settle_send [OF assms] by blast
  then show ?thesis by (simp add: vtls_bio_send_def \<sigma> Let_def del: not_None_eq)
qed

interpretation total: bio_total "session_callbacks E" "\<lambda>\<sigma>. calls_settle (env_kernel E)" for E :: "('m, 'k) env"
  by unfold_locales
    (simp_all add: not_None_pair [OF vtls_bio_recv_returns] not_None_pair [OF vtls_bio_send_returns]
      del: split_paired_Ex)

section \<open>Library calls on a session\<close>

definition ssl_trace ::
  "('m, 'k) env \<Rightarrow> ('m \<Rightarrow> 'm \<Rightarrow> ('a \<times> 'm \<times> 'm) lib) \<Rightarrow> ('m, 'k) tls_state \<Rightarrow> bio_event list" where
  "ssl_trace E f \<sigma> = lib_trace (session_callbacks E) (f (ssl (fst \<sigma>)) (psa (snd \<sigma>))) \<sigma>"

lemma call_ssl_run:
  assumes "call_ssl E f \<sigma> = Some (a, \<sigma>')"
  obtains m p s1 w1 where
    "run_lib (session_callbacks E) (f (ssl (fst \<sigma>)) (psa (snd \<sigma>))) \<sigma> = Some ((a, m, p), s1, w1)"
    "\<sigma>' = (s1\<lparr>ssl := m\<rparr>, w1\<lparr>psa := p\<rparr>)"
  using assms by (cases \<sigma>) (auto simp: call_ssl_def elim!: bind_SomeE)

lemma call_ssl_path:
  assumes "call_ssl E f \<sigma> = Some (a, \<sigma>')"
  shows "lib_path (f (ssl (fst \<sigma>)) (psa (snd \<sigma>))) (ssl_trace E f \<sigma>) (a, ssl (fst \<sigma>'), psa (snd \<sigma>'))"
proof (rule call_ssl_run [OF assms])
  fix m p s1 w1
  assume run: "run_lib (session_callbacks E) (f (ssl (fst \<sigma>)) (psa (snd \<sigma>))) \<sigma> = Some ((a, m, p), s1, w1)"
    and "\<sigma>' = (s1\<lparr>ssl := m\<rparr>, w1\<lparr>psa := p\<rparr>)"
  then show ?thesis using lib_trace_path [OF run] by (simp add: ssl_trace_def)
qed

lemma call_ssl_frame:
  assumes "call_ssl E f \<sigma> = Some (a, \<sigma>')"
  shows "own (fst \<sigma>') = (own (fst \<sigma>))\<lparr>ssl := ssl (fst \<sigma>')\<rparr>"
    and "world_rest (snd \<sigma>') = world_rest ((snd \<sigma>)\<lparr>psa := psa (snd \<sigma>')\<rparr>)"
proof -
  from assms obtain m p s1 w1 where
    run: "run_lib (session_callbacks E) (f (ssl (fst \<sigma>)) (psa (snd \<sigma>))) \<sigma> = Some ((a, m, p), s1, w1)"
    and \<sigma>': "\<sigma>' = (s1\<lparr>ssl := m\<rparr>, w1\<lparr>psa := p\<rparr>)"
    by (rule call_ssl_run)
  from frame.run_lib_contract [OF run] have fr: "own s1 = own (fst \<sigma>)" "world_rest w1 = world_rest (snd \<sigma>)"
    by (simp_all add: bio_frame_def)
  have "own (s1\<lparr>ssl := m\<rparr>) = (own s1)\<lparr>ssl := m\<rparr>"
    by (simp add: own_def)
  with fr(1) show "own (fst \<sigma>') = (own (fst \<sigma>))\<lparr>ssl := ssl (fst \<sigma>')\<rparr>"
    by (simp add: \<sigma>')
  from fr(2) show "world_rest (snd \<sigma>') = world_rest ((snd \<sigma>)\<lparr>psa := psa (snd \<sigma>')\<rparr>)"
    by (simp add: \<sigma>' world_rest_def)
qed

lemma call_ssl_rx:
  assumes "call_ssl E f \<sigma> = Some (a, \<sigma>')"
  shows "rx_rel E rx edge \<sigma> (ssl_trace E f \<sigma>) \<sigma>'"
proof (rule call_ssl_run [OF assms])
  fix m p s1 w1
  assume run: "run_lib (session_callbacks E) (f (ssl (fst \<sigma>)) (psa (snd \<sigma>))) \<sigma> = Some ((a, m, p), s1, w1)"
    and "\<sigma>' = (s1\<lparr>ssl := m\<rparr>, w1\<lparr>psa := p\<rparr>)"
  then show ?thesis using rx.run_lib_contract [OF run, of rx edge]
    by (simp add: ssl_trace_def rx_rel_def takes_def pending_def edge_in_def buffered_def session_wf_def
        awake_def want_ok_def)
qed

lemma call_ssl_want:
  assumes "call_ssl E f \<sigma> = Some (a, \<sigma>')"
  shows "want_rel \<sigma> (ssl_trace E f \<sigma>) \<sigma>'"
proof (rule call_ssl_run [OF assms])
  fix m p s1 w1
  assume run: "run_lib (session_callbacks E) (f (ssl (fst \<sigma>)) (psa (snd \<sigma>))) \<sigma> = Some ((a, m, p), s1, w1)"
    and "\<sigma>' = (s1\<lparr>ssl := m\<rparr>, w1\<lparr>psa := p\<rparr>)"
  then show ?thesis using want.run_lib_contract [OF run] by (simp add: ssl_trace_def want_rel_def)
qed

lemma call_ssl_tx:
  assumes "call_ssl E f \<sigma> = Some (a, \<sigma>')"
  shows "tx_rel \<sigma> (ssl_trace E f \<sigma>) \<sigma>'"
proof (rule call_ssl_run [OF assms])
  fix m p s1 w1
  assume run: "run_lib (session_callbacks E) (f (ssl (fst \<sigma>)) (psa (snd \<sigma>))) \<sigma> = Some ((a, m, p), s1, w1)"
    and "\<sigma>' = (s1\<lparr>ssl := m\<rparr>, w1\<lparr>psa := p\<rparr>)"
  moreover have "tx_rel \<sigma> tr (s1\<lparr>ssl := m\<rparr>, w1\<lparr>psa := p\<rparr>) = tx_rel \<sigma> tr (s1, w1)" for tr
    by (simp add: tx_rel_def)
  ultimately show ?thesis using tx.run_lib_contract [OF run] by (simp add: ssl_trace_def)
qed

lemma call_ssl_wire:
  assumes "call_ssl E f \<sigma> = Some (a, \<sigma>')"
  shows "wire_rel E wire \<sigma> (ssl_trace E f \<sigma>) \<sigma>'"
proof (rule call_ssl_run [OF assms])
  fix m p s1 w1
  assume run: "run_lib (session_callbacks E) (f (ssl (fst \<sigma>)) (psa (snd \<sigma>))) \<sigma> = Some ((a, m, p), s1, w1)"
    and "\<sigma>' = (s1\<lparr>ssl := m\<rparr>, w1\<lparr>psa := p\<rparr>)"
  then show ?thesis using wire.run_lib_contract [OF run, of wire] by (simp add: ssl_trace_def wire_rel_def)
qed

lemma call_ssl_returns:
  assumes "calls_settle (env_kernel E)"
  shows "\<exists>a \<sigma>'. call_ssl E f \<sigma> = Some (a, \<sigma>')"
proof -
  obtain x \<sigma>1 where "run_lib (session_callbacks E) (f (ssl (fst \<sigma>)) (psa (snd \<sigma>))) \<sigma> = Some (x, \<sigma>1)"
    using total.run_lib_returns [OF assms, of "f (ssl (fst \<sigma>)) (psa (snd \<sigma>))" \<sigma>] by blast
  then show ?thesis
    by (cases \<sigma>; cases x; cases \<sigma>1) (simp add: call_ssl_def)
qed

end
