(* ===== verification/Tls_Io.thy ===== *)
theory Tls_Io
  imports Tls_Session
begin

text \<open>
  Handshake, read and write of a TLS session as wholes: no byte of the stream is lost or reordered,
  no wake-up is lost, the crypto lock is always released, the operations return, and a record already
  on the wire is not encrypted again. The laws of the callbacks are lifted through library calls and
  the retry loops.
\<close>

section \<open>Locked library calls\<close>

lemma locked_call_run:
  assumes "locked_call E f (s, w) = Some (a, s', w')"
  obtains w1 w2 where "VTLS_LOCK E w = Some w1" "call_ssl E f (s, w1) = Some (a, s', w2)"
    "w' = VTLS_UNLOCK E w2"
  using assms by (auto simp: locked_call_def elim!: bind_SomeE)

text \<open>The lock is invisible to the socket; the world of a call that holds it differs in nothing else.\<close>

definition locked_trace ::
  "('m, 'k) env \<Rightarrow> ('m \<Rightarrow> 'm \<Rightarrow> ('a \<times> 'm \<times> 'm) lib) \<Rightarrow> ('m, 'k) tls_state \<Rightarrow> bio_event list" where
  "locked_trace E f \<sigma> = ssl_trace E f (fst \<sigma>, the (VTLS_LOCK E (snd \<sigma>)))"

lemma VTLS_LOCK_sel: "VTLS_LOCK E w = Some w1 \<Longrightarrow> kst w1 = kst w \<and> psa w1 = psa w"
  by (auto dest!: VTLS_LOCK_Some)

lemma locked_call_path:
  assumes "locked_call E f \<sigma> = Some (a, \<sigma>')"
  shows "lib_path (f (ssl (fst \<sigma>)) (psa (snd \<sigma>))) (locked_trace E f \<sigma>) (a, ssl (fst \<sigma>'), psa (snd \<sigma>'))"
proof -
  from assms have "locked_call E f (fst \<sigma>, snd \<sigma>) = Some (a, fst \<sigma>', snd \<sigma>')" by simp
  then show ?thesis
  proof (rule locked_call_run)
    fix w1 w2
    assume "VTLS_LOCK E (snd \<sigma>) = Some w1" and "call_ssl E f (fst \<sigma>, w1) = Some (a, fst \<sigma>', w2)"
      and "snd \<sigma>' = VTLS_UNLOCK E w2"
    then show ?thesis
      using call_ssl_path [of E f "(fst \<sigma>, w1)" a "(fst \<sigma>', w2)"] VTLS_LOCK_sel [of E "snd \<sigma>" w1]
      by (simp add: locked_trace_def)
  qed
qed

lemma locked_call_rx:
  assumes "locked_call E f (s, w) = Some (a, s', w')"
  shows "rx_rel E rx edge (s, w) (locked_trace E f (s, w)) (s', w')"
proof (rule locked_call_run [OF assms])
  fix w1 w2
  assume "VTLS_LOCK E w = Some w1" and "call_ssl E f (s, w1) = Some (a, s', w2)" and "w' = VTLS_UNLOCK E w2"
  moreover have "rx_rel E rx edge (s, w) tr (s', VTLS_UNLOCK E w2) = rx_rel E rx edge (s, w1) tr (s', w2)"
    if "kst w1 = kst w" for tr
    using that by (simp add: rx_rel_def takes_def pending_def edge_in_def awake_def)
  ultimately show ?thesis
    using call_ssl_rx [of E f "(s, w1)" a "(s', w2)" rx edge] VTLS_LOCK_sel [of E w w1]
    by (simp add: locked_trace_def)
qed

lemma locked_call_want:
  assumes "locked_call E f (s, w) = Some (a, s', w')"
  shows "bio_want s' = (bio_want s \<or> asked (locked_trace E f (s, w)))"
proof (rule locked_call_run [OF assms])
  fix w1 w2
  assume "VTLS_LOCK E w = Some w1" and "call_ssl E f (s, w1) = Some (a, s', w2)" and "w' = VTLS_UNLOCK E w2"
  then show ?thesis
    using call_ssl_want [of E f "(s, w1)" a "(s', w2)"] by (simp add: locked_trace_def want_rel_def)
qed

lemma locked_call_tx:
  assumes "locked_call E f (s, w) = Some (a, s', w')"
  shows "tx_rel (s, w) (locked_trace E f (s, w)) (s', w')"
proof (rule locked_call_run [OF assms])
  fix w1 w2
  assume "VTLS_LOCK E w = Some w1" and "call_ssl E f (s, w1) = Some (a, s', w2)" and "w' = VTLS_UNLOCK E w2"
  moreover have "tx_rel (s, w) tr (s', VTLS_UNLOCK E w2) = tx_rel (s, w1) tr (s', w2)" for tr
    by (simp only: tx_rel_def fst_conv)
  ultimately show ?thesis
    using call_ssl_tx [of E f "(s, w1)" a "(s', w2)"] by (simp add: locked_trace_def)
qed

lemma locked_call_wire:
  assumes "locked_call E f (s, w) = Some (a, s', w')"
  shows "wire_rel E wire (s, w) (locked_trace E f (s, w)) (s', w')"
proof (rule locked_call_run [OF assms])
  fix w1 w2
  assume "VTLS_LOCK E w = Some w1" and "call_ssl E f (s, w1) = Some (a, s', w2)" and "w' = VTLS_UNLOCK E w2"
  then show ?thesis
    using call_ssl_wire [of E f "(s, w1)" a "(s', w2)" wire] VTLS_LOCK_sel [of E w w1]
    by (simp add: locked_trace_def wire_rel_def)
qed

lemma locked_call_frame:
  assumes "locked_call E f (s, w) = Some (a, s', w')"
  shows "own s' = (own s)\<lparr>ssl := ssl s'\<rparr>" and "vtls_lock w' = (threading_c E \<and> vtls_lock w)"
    and "stderr w' = stderr w"
proof -
  from assms obtain w1 w2 where lock: "VTLS_LOCK E w = Some w1" and
    call: "call_ssl E f (s, w1) = Some (a, s', w2)" and w': "w' = VTLS_UNLOCK E w2"
    by (rule locked_call_run)
  from call_ssl_frame [OF call] show "own s' = (own s)\<lparr>ssl := ssl s'\<rparr>" by simp
  from call_ssl_frame [OF call] have "vtls_lock w2 = vtls_lock w1" "stderr w2 = stderr w1"
    by (simp_all add: world_rest_def)
  then show "vtls_lock w' = (threading_c E \<and> vtls_lock w)" and "stderr w' = stderr w"
    using VTLS_LOCK_Some [OF lock] by (auto simp: w')
qed

lemma locked_call_own:
  assumes "locked_call E f (s, w) = Some (a, s', w')"
  shows "net_fd s' = net_fd s" "readahead s' = readahead s" "defer_send s' = defer_send s"
    "parked s' = parked s" "ktls s' = ktls s" "peer_closed s' = peer_closed s"
    "close_notify s' = close_notify s" "last_err s' = last_err s" "vrfy s' = vrfy s"
    "peer_ip s' = peer_ip s" "peer_ip_len s' = peer_ip_len s"
proof -
  have "(own s)\<lparr>ssl := m\<rparr> = own (s\<lparr>ssl := m\<rparr>)" for m
    by (simp add: own_def)
  with locked_call_frame(1) [OF assms] have "own s' = own (s\<lparr>ssl := ssl s'\<rparr>)" by simp
  from own_eqD [OF this] show "net_fd s' = net_fd s" "readahead s' = readahead s"
    "defer_send s' = defer_send s" "parked s' = parked s" "ktls s' = ktls s"
    "peer_closed s' = peer_closed s" "close_notify s' = close_notify s" "last_err s' = last_err s"
    "vrfy s' = vrfy s" "peer_ip s' = peer_ip s" "peer_ip_len s' = peer_ip_len s"
    by simp_all
qed

lemma locked_call_returns:
  assumes "calls_settle (env_kernel E)" and "threading_c E \<or> \<not> vtls_lock w"
  shows "\<exists>a s' w'. locked_call E f (s, w) = Some (a, s', w')"
proof -
  from assms(2) obtain w1 where "VTLS_LOCK E w = Some w1"
    by (cases "threading_c E") (auto simp: VTLS_LOCK_def)
  moreover obtain a \<sigma>' where "call_ssl E f (s, w1) = Some (a, \<sigma>')"
    using call_ssl_returns [OF assms(1), of f "(s, w1)"] by blast
  ultimately show ?thesis by (cases \<sigma>') (simp add: locked_call_def)
qed

section \<open>The receive side of an operation\<close>

text \<open>
  What every operation keeps of the receive side: the bytes taken are taken from the front of the
  stream, the session stays well-formed, and bytes in the socket stay announced.
\<close>

definition rx_keeps ::
  "('m, 'k) env \<Rightarrow> ('k \<Rightarrow> byte list) \<Rightarrow> ('k \<Rightarrow> bool) \<Rightarrow> ('m, 'k) tls_state \<Rightarrow> ('m, 'k) tls_state \<Rightarrow> bool" where
  "rx_keeps E rx edge \<sigma> \<sigma>' \<longleftrightarrow>
     (stream_socket (env_kernel E) (net_fd (fst \<sigma>)) rx edge \<and> session_wf (fst \<sigma>) \<longrightarrow>
      net_fd (fst \<sigma>') = net_fd (fst \<sigma>) \<and> session_wf (fst \<sigma>') \<and>
      (\<exists>got. takes (pending rx) (edge_in edge) \<sigma> got \<sigma>') \<and>
      (awake rx edge \<sigma> \<longrightarrow> awake rx edge \<sigma>'))"

lemma rx_keepsI: "rx_rel E rx edge \<sigma> tr \<sigma>' \<Longrightarrow> rx_keeps E rx edge \<sigma> \<sigma>'"
  by (auto simp: rx_rel_def rx_keeps_def)

lemma rx_keeps_trans:
  "rx_keeps E rx edge \<sigma> \<sigma>' \<Longrightarrow> rx_keeps E rx edge \<sigma>' \<sigma>'' \<Longrightarrow> rx_keeps E rx edge \<sigma> \<sigma>''"
  unfolding rx_keeps_def using takes_trans by metis

text \<open>Two states that agree on what the receive side looks at.\<close>

definition rx_same :: "('m, 'k) tls_state \<Rightarrow> ('m, 'k) tls_state \<Rightarrow> bool" where
  "rx_same \<sigma> \<sigma>' \<longleftrightarrow> net_fd (fst \<sigma>') = net_fd (fst \<sigma>) \<and> readable (fst \<sigma>') = readable (fst \<sigma>) \<and>
     ra_off (fst \<sigma>') = ra_off (fst \<sigma>) \<and> ra_len (fst \<sigma>') = ra_len (fst \<sigma>) \<and> ra (fst \<sigma>') = ra (fst \<sigma>) \<and>
     kst (snd \<sigma>') = kst (snd \<sigma>)"

lemma rx_same_keeps:
  assumes "rx_same \<sigma> \<sigma>'"
  shows "rx_keeps E rx edge \<sigma> \<sigma>'"
proof -
  from assms have "takes (pending rx) (edge_in edge) \<sigma> [] \<sigma>'"
    by (simp add: rx_same_def takes_def pending_def edge_in_def buffered_def)
  with assms show ?thesis
    by (auto simp: rx_same_def rx_keeps_def session_wf_def awake_def)
qed

lemma rx_same_after:
  "rx_keeps E rx edge \<sigma> \<sigma>' \<Longrightarrow> rx_same \<sigma>' \<sigma>'' \<Longrightarrow> rx_keeps E rx edge \<sigma> \<sigma>''"
  by (rule rx_keeps_trans [OF _ rx_same_keeps])

lemma rx_same_before:
  "rx_same \<sigma> \<sigma>' \<Longrightarrow> rx_keeps E rx edge \<sigma>' \<sigma>'' \<Longrightarrow> rx_keeps E rx edge \<sigma> \<sigma>''"
  by (rule rx_keeps_trans [OF rx_same_keeps])

text \<open>The read-ahead is empty and the session knows of no byte in the socket.\<close>

definition drained :: "'m vtls_session \<Rightarrow> bool" where
  "drained s \<longleftrightarrow> \<not> readable s \<and> ra_len s \<le> ra_off s"

lemma drained_pending: "drained s \<Longrightarrow> awake rx edge (s, w) \<Longrightarrow> pending rx (s, w) = [] \<or> edge_in edge (s, w)"
  by (auto simp: drained_def awake_def pending_def edge_in_def)

text \<open>A library call started with \<open>bio_want\<close> clear.\<close>

lemma locked_call_keeps:
  assumes "locked_call E f (s\<lparr>bio_want := False\<rparr>, w) = Some (a, s', w')"
  shows "rx_keeps E rx edge (s, w) (s', w')"
    and "stream_socket (env_kernel E) (net_fd s) rx edge \<Longrightarrow> session_wf s \<Longrightarrow> bio_want s' \<Longrightarrow> drained s'"
proof -
  note rel = locked_call_rx [OF assms, of rx edge]
  have "rx_same (s, w) (s\<lparr>bio_want := False\<rparr>, w)"
    by (simp add: rx_same_def)
  from rx_same_before [OF this rx_keepsI [OF rel]] show "rx_keeps E rx edge (s, w) (s', w')" .
  assume "stream_socket (env_kernel E) (net_fd s) rx edge" and "session_wf s" and "bio_want s'"
  with rel show "drained s'"
    by (simp add: rx_rel_def want_ok_def drained_def session_wf_def)
qed

text \<open>Whatever one locked library call keeps, the handshake loop keeps.\<close>

lemma handshake_loop_rule:
  assumes "handshake_loop E n \<sigma> = Some (ret, \<sigma>')"
    and call: "\<And>s w a s' w'. locked_call E (ssl_handshake (env_lib E)) (s\<lparr>bio_want := False\<rparr>, w) = Some (a, s', w') \<Longrightarrow>
      R (s, w) (s', w')"
    and trans: "\<And>x y z. R x y \<Longrightarrow> R y z \<Longrightarrow> R x z"
  shows "R \<sigma> \<sigma>'"
  using assms(1,2)
proof (induction E n \<sigma> rule: handshake_loop.induct)
  case (1 E n s w)
  from 1(2) obtain r s2 w2 where
    call: "locked_call E (ssl_handshake (env_lib E)) (s\<lparr>bio_want := False\<rparr>, w) = Some (r, s2, w2)"
    by (auto simp: handshake_loop.simps elim!: bind_SomeE)
  note keep = 1(3) [OF call]
  show ?case
  proof (cases "vtls_retry s2 r \<and> n + 1 < VTLS_RETRIES")
    case True
    with 1(2) call have "handshake_loop E (n + 1) (s2, w2) = Some (ret, \<sigma>')"
      by (simp add: handshake_loop.simps [of E n])
    from 1(1) [OF call refl refl True this 1(3)] show ?thesis
      by (rule trans [OF keep])
  next
    case False
    with 1(2) call have "\<sigma>' = (s2, w2)" by (auto simp: handshake_loop.simps [of E n])
    with keep show ?thesis by simp
  qed
qed

lemma read_prefetch_keeps:
  assumes "read_prefetch E (s, w) = Some (want, s', w')"
  shows "rx_keeps E rx edge (s, w) (s', w')"
    and "stream_socket (env_kernel E) (net_fd s) rx edge \<Longrightarrow> session_wf s \<Longrightarrow> want \<Longrightarrow> drained s'"
proof -
  have same: "rx_keeps E rx edge (s, w) (s, w)"
    by (rule rx_same_keeps) (simp add: rx_same_def)
  have *: "rx_keeps E rx edge (s, w) (s', w') \<and>
    (stream_socket (env_kernel E) (net_fd s) rx edge \<and> session_wf s \<and> want \<longrightarrow> drained s')"
  proof (cases "ra_off s \<ge> ra_len s \<and> closed s = 0 \<and> ssl_get_bytes_avail (env_lib E) (ssl s) = 0 \<and>
      \<not> ssl_check_pending (env_lib E) (ssl s) \<and> readable s \<and> readahead s")
    case True
    with assms obtain r where fill: "ra_fill E (s, w) = Some (r, s', w')" and "want = (r = MErr ERR_SSL_WANT_READ)"
      by (auto simp: read_prefetch_def split: if_splits elim!: bind_SomeE)
    with True show ?thesis
      using ra_fill_rx [of E s rx edge w r s' w'] by (auto simp: rx_keeps_def drained_def)
  next
    case False
    with assms same show ?thesis
      by (auto simp: read_prefetch_def drained_def split: if_splits elim!: bind_SomeE)
  qed
  then show "rx_keeps E rx edge (s, w) (s', w')"
    and "stream_socket (env_kernel E) (net_fd s) rx edge \<Longrightarrow> session_wf s \<Longrightarrow> want \<Longrightarrow> drained s'"
    by auto
qed

text \<open>
  Whatever the refill and one locked library call keep, the read loop keeps up to its last step, which
  is a refill that found nothing, or the library call whose answer it returns.
\<close>

definition read_last ::
  "('m, 'k) env \<Rightarrow> nat \<Rightarrow> (('m, 'k) tls_state \<Rightarrow> bool) \<Rightarrow> read_end \<Rightarrow> ('m, 'k) tls_state \<Rightarrow> bool" where
  "read_last E len P e \<sigma>' \<longleftrightarrow>
     e = ReadWant \<and> (\<exists>x. P x \<and> read_prefetch E x = Some (True, \<sigma>')) \<or>
     (\<exists>r bs s w. e = ReadRet r bs \<and> P (s, w) \<and>
        locked_call E (ssl_read (env_lib E) len) (s\<lparr>bio_want := False\<rparr>, w) = Some ((r, bs), \<sigma>'))"

lemma read_last_mono: "read_last E len P e \<sigma>' \<Longrightarrow> (\<And>x. P x \<Longrightarrow> Q x) \<Longrightarrow> read_last E len Q e \<sigma>'"
  unfolding read_last_def by blast

lemma read_loop_rule:
  assumes "read_loop E len n \<sigma> = Some (e, \<sigma>')"
    and pre: "\<And>s w want s' w'. read_prefetch E (s, w) = Some (want, s', w') \<Longrightarrow> R (s, w) (s', w')"
    and call: "\<And>s w a s' w'. locked_call E (ssl_read (env_lib E) len) (s\<lparr>bio_want := False\<rparr>, w) = Some (a, s', w') \<Longrightarrow>
      R (s, w) (s', w')"
    and same: "\<And>x. R x x" and trans: "\<And>x y z. R x y \<Longrightarrow> R y z \<Longrightarrow> R x z"
  shows "R \<sigma> \<sigma>' \<and> read_last E len (R \<sigma>) e \<sigma>'"
  using assms(1)
proof (induction "VTLS_RETRIES - n" arbitrary: n \<sigma> rule: less_induct)
  case less
  from less(2) obtain want s1 w1 where p: "read_prefetch E \<sigma> = Some (want, s1, w1)"
    by (subst (asm) read_loop.simps) (auto elim!: bind_SomeE)
  then have keep1: "R \<sigma> (s1, w1)"
    using pre [of "fst \<sigma>" "snd \<sigma>"] by simp
  show ?case
  proof (cases want)
    case True
    with less(2) p have "e = ReadWant" and "\<sigma>' = (s1, w1)"
      by (auto simp: read_loop.simps [of E len n])
    with p keep1 same [of \<sigma>] True show ?thesis
      unfolding read_last_def by (intro conjI disjI1 exI [of _ \<sigma>]) simp_all
  next
    case False
    with less(2) p obtain r bs s2 w2 where
      c: "locked_call E (ssl_read (env_lib E) len) (s1\<lparr>bio_want := False\<rparr>, w1) = Some ((r, bs), s2, w2)"
      by (auto simp: read_loop.simps [of E len n] elim!: bind_SomeE)
    note keep2 = trans [OF keep1 call [OF c]]
    show ?thesis
    proof (cases "vtls_retry s2 r \<and> n + 1 < VTLS_RETRIES")
      case True
      with less(2) p c False have "read_loop E len (n + 1) (s2, w2) = Some (e, \<sigma>')"
        by (simp add: read_loop.simps [of E len n])
      moreover from True have "VTLS_RETRIES - (n + 1) < VTLS_RETRIES - n" by linarith
      ultimately have "R (s2, w2) \<sigma>' \<and> read_last E len (R (s2, w2)) e \<sigma>'"
        by (intro less(1))
      then show ?thesis
        using trans [OF keep2] read_last_mono [of E len "R (s2, w2)" e \<sigma>' "R \<sigma>"] by blast
    next
      case stop: False
      with less(2) p c False have "e = ReadRet r bs" and "\<sigma>' = (s2, w2)"
        by (auto simp: read_loop.simps [of E len n])
      with keep1 keep2 c show ?thesis unfolding read_last_def by blast
    qed
  qed
qed

lemma read_loop_keeps:
  assumes ret: "read_loop E len n \<sigma> = Some (e, \<sigma>')"
  shows "rx_keeps E rx edge \<sigma> \<sigma>'"
    and "stream_socket (env_kernel E) (net_fd (fst \<sigma>)) rx edge \<Longrightarrow> session_wf (fst \<sigma>) \<Longrightarrow>
      e = ReadWant \<or> bio_want (fst \<sigma>') \<Longrightarrow> drained (fst \<sigma>')"
proof -
  have "rx_keeps E rx edge x x" for x
    by (rule rx_same_keeps) (simp add: rx_same_def)
  then have rule: "rx_keeps E rx edge \<sigma> \<sigma>' \<and> read_last E len (rx_keeps E rx edge \<sigma>) e \<sigma>'"
    by (rule read_loop_rule [OF ret, where R = "rx_keeps E rx edge", rotated 2])
      (blast intro: read_prefetch_keeps(1) locked_call_keeps(1) rx_keeps_trans)+
  then show "rx_keeps E rx edge \<sigma> \<sigma>'" by blast
  assume sock: "stream_socket (env_kernel E) (net_fd (fst \<sigma>)) rx edge" and wf: "session_wf (fst \<sigma>)"
    and "e = ReadWant \<or> bio_want (fst \<sigma>')"
  with rule show "drained (fst \<sigma>')"
    using read_prefetch_keeps(2) [of E _ _ True "fst \<sigma>'" "snd \<sigma>'" rx edge]
      locked_call_keeps(2) [of E "ssl_read (env_lib E) len" _ _ _ "fst \<sigma>'" "snd \<sigma>'" rx edge]
    by (fastforce simp: rx_keeps_def read_last_def)
qed

text \<open>
  Mbed TLS skips messages that carry no data for the caller: it reports a session ticket, or answers
  WANT_READ without having been told so by the receive callback. \<open>skipping E len n \<sigma>\<close>: from \<open>\<sigma>\<close> on, \<open>n\<close> reads of
  the library in a row each do nothing but skip a message.
\<close>

primrec skipping :: "('m, 'k) env \<Rightarrow> nat \<Rightarrow> nat \<Rightarrow> ('m, 'k) tls_state \<Rightarrow> bool" where
  "skipping E len 0 \<sigma> = True"
| "skipping E len (Suc n) \<sigma> =
     (\<exists>s1 w1 r bs \<sigma>2. read_prefetch E \<sigma> = Some (False, s1, w1) \<and>
        locked_call E (ssl_read (env_lib E) len) (s1\<lparr>bio_want := False\<rparr>, w1) = Some ((r, bs), \<sigma>2) \<and>
        (r = MErr ERR_SSL_RECEIVED_NEW_SESSION_TICKET \<or> (r = MErr ERR_SSL_WANT_READ \<and> \<not> bio_want (fst \<sigma>2))) \<and>
        skipping E len n \<sigma>2)"

text \<open>Unless all rounds left skip a message, the loop ends with an answer for the caller.\<close>

lemma read_loop_answers:
  assumes "read_loop E len n \<sigma> = Some (e, \<sigma>')" and "\<not> skipping E len (VTLS_RETRIES - n) \<sigma>"
  shows "e = ReadWant \<or> (\<exists>r bs. e = ReadRet r bs \<and> r \<noteq> MErr ERR_SSL_RECEIVED_NEW_SESSION_TICKET \<and>
    (r = MErr ERR_SSL_WANT_READ \<longrightarrow> bio_want (fst \<sigma>')))"
  using assms
proof (induction "VTLS_RETRIES - n" arbitrary: n \<sigma>)
  case (Suc m)
  from Suc(3) obtain want s1 w1 where p: "read_prefetch E \<sigma> = Some (want, s1, w1)"
    by (subst (asm) read_loop.simps) (auto elim!: bind_SomeE)
  show ?case
  proof (cases want)
    case True
    with Suc(3) p show ?thesis by (auto simp: read_loop.simps [of E len n])
  next
    case False
    let ?f = "ssl_read (env_lib E) len" and ?s = "s1\<lparr>bio_want := False\<rparr>"
    from False Suc(3) p obtain r bs s2 w2 where c: "locked_call E ?f (?s, w1) = Some ((r, bs), s2, w2)"
      by (auto simp: read_loop.simps [of E len n] elim!: bind_SomeE)
    show ?thesis
    proof (cases "r = MErr ERR_SSL_RECEIVED_NEW_SESSION_TICKET \<or> (r = MErr ERR_SSL_WANT_READ \<and> \<not> bio_want s2)")
      case True
      have "\<not> skipping E len (Suc m) \<sigma>" using Suc(2,4) by simp
      then have skip: "\<not> skipping E len m (s2, w2)" using True p c False by auto
      moreover have m: "m = VTLS_RETRIES - (n + 1)" using Suc(2) by simp
      moreover have "n + 1 < VTLS_RETRIES" using skip m by (cases m) auto
      ultimately show ?thesis
        using Suc(1) [of "n + 1" "(s2, w2)"] True Suc(3) p c False
        by (simp add: read_loop.simps [of E len n] vtls_retry_def)
    next
      case stop: False
      with Suc(3) p c False show ?thesis by (auto simp: read_loop.simps [of E len n] vtls_retry_def)
    qed
  qed
qed simp

text \<open>A library of which \<open>skips m\<close> bounds the messages it has still to skip in the state \<open>m\<close> does not skip more.\<close>

definition skips_bounded :: "'m mbedtls \<Rightarrow> ('m \<Rightarrow> nat) \<Rightarrow> bool" where
  "skips_bounded L skips \<longleftrightarrow>
     (\<forall>len m p tr r bs m' p'. lib_path (ssl_read L len m p) tr ((r, bs), m', p') \<and>
        (r = MErr ERR_SSL_RECEIVED_NEW_SESSION_TICKET \<or> (r = MErr ERR_SSL_WANT_READ \<and> \<not> asked tr)) \<longrightarrow>
        skips m' < skips m)"

lemma read_prefetch_ssl:
  assumes "read_prefetch E \<sigma> = Some (want, \<sigma>')"
  shows "ssl (fst \<sigma>') = ssl (fst \<sigma>)"
  using assms ra_fill_frame [of E \<sigma> _ \<sigma>' "[]"]
  by (cases \<sigma>) (auto simp: read_prefetch_def bio_frame_def split: if_splits elim!: bind_SomeE dest: own_eqD(1))

lemma skipping_bounded:
  assumes law: "skips_bounded (env_lib E) skips" and "skips (ssl (fst \<sigma>)) < n"
  shows "\<not> skipping E len n \<sigma>"
  using assms(2)
proof (induction n arbitrary: \<sigma>)
  case (Suc n)
  let ?f = "ssl_read (env_lib E) len"
  have "\<not> skipping E len n (s2, w2)"
    if p: "read_prefetch E \<sigma> = Some (False, s1, w1)" and c: "locked_call E ?f (s1\<lparr>bio_want := False\<rparr>, w1) = Some ((r, bs), s2, w2)"
      and skip: "r = MErr ERR_SSL_RECEIVED_NEW_SESSION_TICKET \<or> (r = MErr ERR_SSL_WANT_READ \<and> \<not> bio_want s2)"
    for s1 w1 r bs s2 w2
  proof (rule Suc.IH)
    have "bio_want s2 = asked (locked_trace E ?f (s1\<lparr>bio_want := False\<rparr>, w1))" using locked_call_want [OF c] by simp
    then have "skips (ssl s2) < skips (ssl s1)"
      using law locked_call_path [OF c] skip unfolding skips_bounded_def by fastforce
    then show "skips (ssl (fst (s2, w2))) < n" using Suc.prems read_prefetch_ssl [OF p] by simp
  qed
  then show ?case unfolding skipping.simps by (metis prod.collapse fst_conv)
qed simp

section \<open>The lock and the send side of an operation\<close>

definition tx_idle :: "'m vtls_session \<Rightarrow> bool" where
  "tx_idle s \<longleftrightarrow> \<not> defer_send s \<and> \<not> deferred s"

text \<open>What every operation keeps: the lock is given back, no send stays deferred, the session's mode and whom it trusts.\<close>

definition op_keeps :: "('m, 'k) tls_state \<Rightarrow> ('m, 'k) tls_state \<Rightarrow> bool" where
  "op_keeps \<sigma> \<sigma>' \<longleftrightarrow>
     (\<not> vtls_lock (snd \<sigma>) \<longrightarrow> \<not> vtls_lock (snd \<sigma>')) \<and> (tx_idle (fst \<sigma>) \<longrightarrow> tx_idle (fst \<sigma>')) \<and>
     net_fd (fst \<sigma>') = net_fd (fst \<sigma>) \<and> ktls (fst \<sigma>') = ktls (fst \<sigma>) \<and>
     readahead (fst \<sigma>') = readahead (fst \<sigma>) \<and> vrfy (fst \<sigma>') = vrfy (fst \<sigma>) \<and>
     peer_ip (fst \<sigma>') = peer_ip (fst \<sigma>) \<and> peer_ip_len (fst \<sigma>') = peer_ip_len (fst \<sigma>)"

lemma op_keeps_trans: "op_keeps \<sigma> \<sigma>' \<Longrightarrow> op_keeps \<sigma>' \<sigma>'' \<Longrightarrow> op_keeps \<sigma> \<sigma>''"
  by (simp add: op_keeps_def)

lemma locked_call_op_keeps:
  assumes "locked_call E f (s\<lparr>bio_want := False\<rparr>, w) = Some (a, s', w')"
  shows "op_keeps (s, w) (s', w')"
  using locked_call_own [OF assms] locked_call_frame(2) [OF assms] locked_call_tx [OF assms]
  by (auto simp: op_keeps_def tx_idle_def tx_rel_def)

lemma ra_fill_op_keeps:
  assumes "ra_fill E (s, w) = Some (r, s', w')"
  shows "op_keeps (s, w) (s', w')"
proof -
  have fr: "own s' = own s" "world_rest w' = world_rest w"
    using ra_fill_frame [OF assms, of "[]"] by (simp_all add: bio_frame_def)
  moreover have "deferred s' = deferred s"
    using assms by (auto simp: ra_fill_def elim!: bind_SomeE dest: vtls_recv_fields)
  ultimately show ?thesis
    using own_eqD [OF fr(1)] by (simp add: op_keeps_def tx_idle_def world_rest_def)
qed

lemma read_prefetch_op_keeps:
  assumes "read_prefetch E (s, w) = Some (want, s', w')"
  shows "op_keeps (s, w) (s', w')"
  using assms ra_fill_op_keeps [of E s w _ s' w']
  by (auto simp: read_prefetch_def op_keeps_def split: if_splits elim!: bind_SomeE)

lemma read_loop_op_keeps:
  assumes "read_loop E len n \<sigma> = Some (e, \<sigma>')"
  shows "op_keeps \<sigma> \<sigma>'"
proof -
  have "op_keeps x x" for x
    by (simp add: op_keeps_def)
  then have "op_keeps \<sigma> \<sigma>' \<and> read_last E len (op_keeps \<sigma>) e \<sigma>'"
    by (rule read_loop_rule [OF assms, where R = op_keeps, rotated 2])
      (blast intro: read_prefetch_op_keeps locked_call_op_keeps op_keeps_trans)+
  then show ?thesis ..
qed

section \<open>Operations return\<close>

lemma read_prefetch_returns:
  assumes "calls_settle (env_kernel E)"
  shows "\<exists>want s' w'. read_prefetch E (s, w) = Some (want, s', w')"
  using not_None_pair [OF ra_fill_returns [OF assms, of "(s, w)"]] by (auto simp: read_prefetch_def)

lemma handshake_loop_returns:
  assumes "calls_settle (env_kernel E)" and "\<not> vtls_lock (snd \<sigma>)"
  shows "\<exists>ret \<sigma>'. handshake_loop E n \<sigma> = Some (ret, \<sigma>')"
  using assms
proof (induction E n \<sigma> rule: handshake_loop.induct)
  case (1 E n s w)
  from 1(3) obtain r s2 w2 where
    call: "locked_call E (ssl_handshake (env_lib E)) (s\<lparr>bio_want := False\<rparr>, w) = Some (r, s2, w2)"
    using locked_call_returns [OF 1(2)] by fastforce
  then have "\<not> vtls_lock w2"
    using locked_call_op_keeps [OF call] 1(3) by (simp add: op_keeps_def)
  with 1 call show ?case
    by (cases "vtls_retry s2 r \<and> n + 1 < VTLS_RETRIES") (auto simp: handshake_loop.simps [of E n])
qed

lemma read_loop_returns:
  assumes "calls_settle (env_kernel E)" and "\<not> vtls_lock (snd \<sigma>)"
  shows "\<exists>e \<sigma>'. read_loop E len n \<sigma> = Some (e, \<sigma>')"
  using assms
proof (induction E len n \<sigma> rule: read_loop.induct)
  case (1 E len n \<sigma>)
  obtain want s1 w1 where pre: "read_prefetch E \<sigma> = Some (want, s1, w1)"
    using read_prefetch_returns [OF 1(2), of "fst \<sigma>" "snd \<sigma>"] by auto
  then have free1: "\<not> vtls_lock w1"
    using read_prefetch_op_keeps [of E "fst \<sigma>" "snd \<sigma>"] 1(3) by (simp add: op_keeps_def)
  then obtain r bs s2 w2 where
    call: "locked_call E (ssl_read (env_lib E) len) (s1\<lparr>bio_want := False\<rparr>, w1) = Some ((r, bs), s2, w2)"
    using locked_call_returns [OF 1(2), of w1 "ssl_read (env_lib E) len" "s1\<lparr>bio_want := False\<rparr>"] by auto
  then have "\<not> vtls_lock w2"
    using locked_call_op_keeps [OF call] free1 by (simp add: op_keeps_def)
  with 1(1) [OF pre refl refl _ call refl refl _ 1(2)] pre call show ?case
    by (cases want; cases "vtls_retry s2 r \<and> n + 1 < VTLS_RETRIES")
      (simp_all add: read_loop.simps [of E len n])
qed

section \<open>The write loop\<close>

abbreviation (input) write_call where
  "write_call E buf s w \<equiv> locked_call E (ssl_write (env_lib E) buf)
     (s\<lparr>defer_send := (VTLS_SERIALIZED E \<and> \<not> parked s)\<rparr>, w)"

lemma write_loop_rule [consumes 1, case_names Settled Stop Again]:
  fixes E :: "('m, 'k) env"
  assumes ret: "write_loop E buf \<sigma> = Some (e, \<sigma>')"
    and settled: "\<And>s w. wpend s = 2 \<Longrightarrow> P (s, w) (WriteDone (settled_count E buf s)) (s\<lparr>wpend := 0\<rparr>, w)"
    and stop: "\<And>s w r s1 w1. wpend s \<noteq> 2 \<Longrightarrow> write_call E buf s w = Some (r, s1, w1) \<Longrightarrow>
      r \<noteq> MErr ERR_SSL_RECEIVED_NEW_SESSION_TICKET \<Longrightarrow> P (s, w) (WriteRet r) (s1\<lparr>defer_send := False\<rparr>, w1)"
    and again: "\<And>s w s1 w1 e \<sigma>'. wpend s \<noteq> 2 \<Longrightarrow>
      write_call E buf s w = Some (MErr ERR_SSL_RECEIVED_NEW_SESSION_TICKET, s1, w1) \<Longrightarrow>
      P (s1\<lparr>defer_send := False, parked := False\<rparr>, w1) e \<sigma>' \<Longrightarrow> P (s, w) e \<sigma>'"
  shows "P \<sigma> e \<sigma>'"
proof -
  have "E = E \<and> buf = buf \<longrightarrow> P \<sigma> (fst (e, \<sigma>')) (snd (e, \<sigma>'))"
  proof (rule write_loop.raw_induct [where P = "\<lambda>E' buf' \<sigma> y. E' = E \<and> buf' = buf \<longrightarrow> P \<sigma> (fst y) (snd y)", OF _ ret])
    fix f :: "('m, 'k) env \<Rightarrow> byte list \<Rightarrow> ('m, 'k) tls_state \<Rightarrow> (write_end \<times> ('m, 'k) tls_state) option"
      and E' :: "('m, 'k) env" and buf' and \<sigma> :: "('m, 'k) tls_state" and y
    assume IH: "\<And>E' buf' \<sigma> y. f E' buf' \<sigma> = Some y \<Longrightarrow> E' = E \<and> buf' = buf \<longrightarrow> P \<sigma> (fst y) (snd y)"
      and body: "(if wpend (fst \<sigma>) = 2 then
          Some (WriteDone (settled_count E' buf' (fst \<sigma>)), (fst \<sigma>)\<lparr>wpend := 0\<rparr>, snd \<sigma>)
        else do {
          (ret, s1, w1) \<leftarrow> locked_call E' (ssl_write (env_lib E') buf')
            ((fst \<sigma>)\<lparr>defer_send := (VTLS_SERIALIZED E' \<and> \<not> parked (fst \<sigma>))\<rparr>, snd \<sigma>);
          (if ret \<noteq> MErr ERR_SSL_RECEIVED_NEW_SESSION_TICKET
           then Some (WriteRet ret, s1\<lparr>defer_send := False\<rparr>, w1)
           else f E' buf' (s1\<lparr>defer_send := False, parked := False\<rparr>, w1))
        }) = Some y"
    show "E' = E \<and> buf' = buf \<longrightarrow> P \<sigma> (fst y) (snd y)"
    proof (intro impI, elim conjE)
      assume eq: "E' = E" "buf' = buf"
      obtain s w where \<sigma>: "\<sigma> = (s, w)" by (cases \<sigma>)
      show "P \<sigma> (fst y) (snd y)"
      proof (cases "wpend s = 2")
        case True
        with body settled [OF True, of w] show ?thesis by (auto simp: \<sigma> eq)
      next
        case False
        with body [unfolded eq \<sigma> fst_conv snd_conv] obtain r s1 w1 where call: "write_call E buf s w = Some (r, s1, w1)"
          and rest: "(if r \<noteq> MErr ERR_SSL_RECEIVED_NEW_SESSION_TICKET
             then Some (WriteRet r, s1\<lparr>defer_send := False\<rparr>, w1)
             else f E buf (s1\<lparr>defer_send := False, parked := False\<rparr>, w1)) = Some y"
          by (auto elim!: bind_SomeE)
        show ?thesis
        proof (cases "r = MErr ERR_SSL_RECEIVED_NEW_SESSION_TICKET")
          case True
          with rest IH [of E buf "(s1\<lparr>defer_send := False, parked := False\<rparr>, w1)" y] again [OF False] call
          show ?thesis by (simp add: \<sigma>)
        next
          case stopped: False
          with rest stop [OF False call] show ?thesis by (auto simp: \<sigma>)
        qed
      qed
    qed
  qed
  then show ?thesis by simp
qed

text \<open>
  Mbed TLS stops at a send that would block: a write that was told so does not go on to report a
  session ticket.
\<close>

definition write_blocks :: "'m mbedtls \<Rightarrow> bool" where
  "write_blocks L \<longleftrightarrow>
     (\<forall>buf m p tr r m' p' bs. lib_path (ssl_write L buf m p) tr (r, m', p') \<and>
        Sent bs (MErr ERR_SSL_WANT_WRITE) \<in> set tr \<longrightarrow> r \<noteq> MErr ERR_SSL_RECEIVED_NEW_SESSION_TICKET)"

lemma write_call_rx:
  assumes "write_call E buf s w = Some (r, s1, w1)"
  shows "rx_keeps E rx edge (s, w) (s1, w1)"
proof -
  have "rx_same (s, w) (s\<lparr>defer_send := (VTLS_SERIALIZED E \<and> \<not> parked s)\<rparr>, w)"
    by (simp add: rx_same_def)
  then show ?thesis
    by (rule rx_same_before) (rule rx_keepsI [OF locked_call_rx [OF assms]])
qed

lemma write_call_deferred:
  assumes call: "write_call E buf s w = Some (MErr ERR_SSL_RECEIVED_NEW_SESSION_TICKET, s1, w1)"
    and law: "write_blocks (env_lib E)"
  shows "deferred s1 = deferred s"
proof -
  let ?s = "s\<lparr>defer_send := (VTLS_SERIALIZED E \<and> \<not> parked s)\<rparr>"
  let ?tr = "locked_trace E (ssl_write (env_lib E) buf) (?s, w)"
  have "Sent bs (MErr ERR_SSL_WANT_WRITE) \<notin> set ?tr" for bs
    using locked_call_path [OF call] law unfolding write_blocks_def by fastforce
  then show ?thesis
    using locked_call_tx [OF call] by (auto simp: tx_rel_def split: if_splits)
qed

text \<open>The write loop keeps the receive side; it leaves \<open>defer_send\<close> clear and the lock free.\<close>

lemma write_loop_keeps:
  assumes "write_loop E buf \<sigma> = Some (e, \<sigma>')"
  shows "rx_keeps E rx edge \<sigma> \<sigma>'"
  using assms
proof (induction rule: write_loop_rule)
  case (Settled s w)
  then show ?case by (auto intro: rx_same_keeps simp: rx_same_def)
next
  case (Stop s w r s1 w1)
  from write_call_rx [OF Stop(2)] show ?case
    by (rule rx_same_after) (simp add: rx_same_def)
next
  case (Again s w s1 w1 e \<sigma>')
  from write_call_rx [OF Again(2)] have "rx_keeps E rx edge (s, w) (s1\<lparr>defer_send := False, parked := False\<rparr>, w1)"
    by (rule rx_same_after) (simp add: rx_same_def)
  from this Again(3) show ?case by (rule rx_keeps_trans)
qed

lemma write_loop_op_keeps:
  assumes "write_loop E buf \<sigma> = Some (e, \<sigma>')" and law: "write_blocks (env_lib E)"
  shows "op_keeps \<sigma> ((fst \<sigma>')\<lparr>deferred := (deferred (fst \<sigma>') \<and> (\<exists>r. e = WriteDone r))\<rparr>, snd \<sigma>')"
  using assms(1)
proof (induction rule: write_loop_rule)
  case (Settled s w)
  then show ?case by (simp add: op_keeps_def tx_idle_def)
next
  case (Stop s w r s1 w1)
  then show ?case
    using locked_call_own [OF Stop(2)] locked_call_frame(2) [OF Stop(2)] by (simp add: op_keeps_def tx_idle_def)
next
  case (Again s w s1 w1 e \<sigma>')
  have "op_keeps (s, w) (s1\<lparr>defer_send := False, parked := False\<rparr>, w1)"
    using locked_call_own [OF Again(2)] locked_call_frame(2) [OF Again(2)] write_call_deferred [OF Again(2) law]
    by (simp add: op_keeps_def tx_idle_def)
  from this Again(3) show ?case by (rule op_keeps_trans)
qed

text \<open>Mbed TLS answers a write WANT_WRITE because a send was answered so.\<close>

definition want_write_asks :: "'m mbedtls \<Rightarrow> bool" where
  "want_write_asks L \<longleftrightarrow>
     (\<forall>buf m p tr m' p'. lib_path (ssl_write L buf m p) tr (MErr ERR_SSL_WANT_WRITE, m', p') \<longrightarrow>
        (\<exists>bs. Sent bs (MErr ERR_SSL_WANT_WRITE) \<in> set tr))"

lemma sent_errors: "(\<And>bs r. Sent bs r \<in> set tr \<Longrightarrow> r = MErr ERR_SSL_WANT_WRITE) \<Longrightarrow> sent tr = []"
  by (induction tr rule: sent.induct) fastforce+

text \<open>The locked call of a write that defers its sends; one that does not leaves \<open>deferred\<close> alone.\<close>

lemma write_call_quiet:
  assumes call: "write_call E buf s w = Some (r, s1, w1)" and "VTLS_SERIALIZED E" and "\<not> parked s"
  shows "send_socket (env_kernel E) (net_fd s) wire \<Longrightarrow> wire (kst w1) = wire (kst w)"
    and "want_write_asks (env_lib E) \<Longrightarrow> r = MErr ERR_SSL_WANT_WRITE \<Longrightarrow> deferred s1"
proof -
  let ?s = "s\<lparr>defer_send := (VTLS_SERIALIZED E \<and> \<not> parked s)\<rparr>"
  let ?tr = "locked_trace E (ssl_write (env_lib E) buf) (?s, w)"
  have tx: "\<And>bs q. Sent bs q \<in> set ?tr \<Longrightarrow> q = MErr ERR_SSL_WANT_WRITE"
    and noted: "(\<exists>bs q. Sent bs q \<in> set ?tr) \<longrightarrow> deferred s1"
    using locked_call_tx [OF call] assms(2,3) by (auto simp: tx_rel_def)
  show "send_socket (env_kernel E) (net_fd s) wire \<Longrightarrow> wire (kst w1) = wire (kst w)"
    using locked_call_wire [OF call, of wire] sent_errors [OF tx] by (simp add: wire_rel_def)
  show "want_write_asks (env_lib E) \<Longrightarrow> r = MErr ERR_SSL_WANT_WRITE \<Longrightarrow> deferred s1"
    using locked_call_path [OF call] noted unfolding want_write_asks_def by fastforce
qed

lemma write_call_not_deferring:
  assumes "write_call E buf s w = Some (r, s1, w1)" and "\<not> deferred s" and "deferred s1"
  shows "VTLS_SERIALIZED E \<and> \<not> parked s"
  using locked_call_tx [OF assms(1)] assms(2,3) by (auto simp: tx_rel_def split: if_splits)

text \<open>The locked part of a write as a whole.\<close>

definition loop_quiet ::
  "('m, 'k) env \<Rightarrow> ('k \<Rightarrow> byte list) \<Rightarrow> ('m, 'k) tls_state \<Rightarrow> write_end \<Rightarrow> ('m, 'k) tls_state \<Rightarrow> bool" where
  "loop_quiet E wire \<sigma> e \<sigma>' \<longleftrightarrow>
     (VTLS_SERIALIZED E \<and> \<not> parked (fst \<sigma>) \<longrightarrow>
        wire (kst (snd \<sigma>')) = wire (kst (snd \<sigma>)) \<and> (e = WriteRet (MErr ERR_SSL_WANT_WRITE) \<longrightarrow> deferred (fst \<sigma>'))) \<and>
     (deferred (fst \<sigma>') \<longrightarrow> VTLS_SERIALIZED E \<and> \<not> parked (fst \<sigma>') \<and> (\<exists>r. e = WriteRet r))"

lemma write_loop_quiet:
  assumes "write_loop E buf \<sigma> = Some (e, \<sigma>')"
    and blocks: "write_blocks (env_lib E)" and asks: "want_write_asks (env_lib E)"
    and "send_socket (env_kernel E) (net_fd (fst \<sigma>)) wire" and "\<not> deferred (fst \<sigma>)"
  shows "loop_quiet E wire \<sigma> e \<sigma>'"
proof -
  have "send_socket (env_kernel E) (net_fd (fst \<sigma>)) wire \<and> \<not> deferred (fst \<sigma>) \<longrightarrow> loop_quiet E wire \<sigma> e \<sigma>'"
    using assms(1)
  proof (induction rule: write_loop_rule)
    case (Settled s w)
    then show ?case by (simp add: loop_quiet_def)
  next
    case (Stop s w r s1 w1)
    note own = locked_call_own(4) [OF Stop(2)]
    from write_call_quiet(1) [OF Stop(2), of wire] write_call_quiet(2) [OF Stop(2)] asks write_call_not_deferring [OF Stop(2)] own show ?case
      by (auto simp: loop_quiet_def)
  next
    case (Again s w s1 w1 e \<sigma>')
    note own = locked_call_own(1,4) [OF Again(2)]
    from write_call_deferred [OF Again(2) blocks] Again(3) own write_call_quiet(1) [OF Again(2), of wire] show ?case
      by (auto simp: loop_quiet_def)
  qed
  with assms(4,5) show ?thesis by blast
qed

text \<open>\<^verbatim>\<open>vtls_write\<close> is its loop, possibly the unlocked flush, and the bookkeeping of the result.\<close>

lemma vtls_write_cases [consumes 1, case_names Done Locked Flush]:
  assumes "vtls_write E buf \<sigma> = Some (r, \<sigma>')"
  obtains
    (Done) "write_loop E buf \<sigma> = Some (WriteDone r, \<sigma>')"
  | (Locked) ret s w s' where "write_loop E buf \<sigma> = Some (WriteRet ret, s, w)" "\<not> deferred s"
      "write_finish ret s = (r, s')" "\<sigma>' = (s', w)"
  | (Flush) ret s w ret2 s2 w2 s' where "write_loop E buf \<sigma> = Some (WriteRet ret, s, w)" "deferred s"
      "call_ssl E (ssl_write (env_lib E) buf) (s\<lparr>deferred := False\<rparr>, w) = Some (ret2, s2, w2)"
      "write_finish ret2 s2 = (r, s')" "\<sigma>' = (s', w2)"
proof -
  from assms obtain e s w where loop: "write_loop E buf \<sigma> = Some (e, s, w)"
    by (auto simp: vtls_write_def elim!: bind_SomeE)
  show thesis
  proof (cases e)
    case (WriteDone i)
    with assms loop show thesis by (intro Done) (simp add: vtls_write_def)
  next
    case (WriteRet ret)
    with assms loop show thesis
      by (cases "deferred s") (auto simp: vtls_write_def intro: Locked Flush elim!: bind_SomeE split: prod.splits)
  qed
qed

lemma write_finish_same:
  assumes "write_finish ret s = (r, s')"
  shows "rx_same (s, w) (s', w)" and "op_keeps (s, w) (s', w)"
  using assms by (auto simp: write_finish_def rx_same_def op_keeps_def tx_idle_def split: mret.splits if_splits)

lemma vtls_write_keeps:
  assumes "vtls_write E buf \<sigma> = Some (r, \<sigma>')"
  shows "rx_keeps E rx edge \<sigma> \<sigma>'"
  using assms
proof (cases rule: vtls_write_cases)
  case Done
  then show ?thesis by (rule write_loop_keeps)
next
  case (Locked ret s w s')
  from write_loop_keeps [OF Locked(1)] show ?thesis
    unfolding Locked(4) by (rule rx_same_after) (rule write_finish_same(1) [OF Locked(3)])
next
  case (Flush ret s w ret2 s2 w2 s')
  from write_loop_keeps [OF Flush(1)] have "rx_keeps E rx edge \<sigma> (s\<lparr>deferred := False\<rparr>, w)"
    by (rule rx_same_after) (simp add: rx_same_def)
  from rx_keeps_trans [OF this rx_keepsI [OF call_ssl_rx [OF Flush(3)]]] show ?thesis
    unfolding Flush(5) by (rule rx_same_after) (rule write_finish_same(1) [OF Flush(4)])
qed

lemma call_ssl_op_keeps:
  assumes "call_ssl E f (s, w) = Some (a, s', w')" and "tx_idle s"
  shows "op_keeps (s, w) (s', w')"
proof -
  have "(own s)\<lparr>ssl := m\<rparr> = own (s\<lparr>ssl := m\<rparr>)" for m
    by (simp add: own_def)
  with call_ssl_frame(1) [OF assms(1)] have "own s' = own (s\<lparr>ssl := ssl s'\<rparr>)" by simp
  note own = own_eqD [OF this]
  have "vtls_lock w' = vtls_lock w"
    using call_ssl_frame(2) [OF assms(1)] by (simp add: world_rest_def)
  then show ?thesis
    using own call_ssl_tx [OF assms(1)] assms(2) by (simp add: op_keeps_def tx_idle_def tx_rel_def)
qed

lemma vtls_write_op_keeps:
  assumes "vtls_write E buf \<sigma> = Some (r, \<sigma>')" and law: "write_blocks (env_lib E)" and idle: "tx_idle (fst \<sigma>)"
  shows "op_keeps \<sigma> \<sigma>'"
  using assms(1)
proof (cases rule: vtls_write_cases)
  case Done
  from write_loop_op_keeps [OF Done law] show ?thesis by simp
next
  case (Locked ret s w s')
  have "op_keeps \<sigma> (s, w)"
    using write_loop_op_keeps [OF Locked(1) law] Locked(2) by (simp add: op_keeps_def tx_idle_def)
  from op_keeps_trans [OF this write_finish_same(2) [OF Locked(3)]] show ?thesis
    by (simp add: Locked(4))
next
  case (Flush ret s w ret2 s2 w2 s')
  have "op_keeps \<sigma> (s\<lparr>deferred := False\<rparr>, w)"
    using write_loop_op_keeps [OF Flush(1) law] by simp
  moreover from this idle have "tx_idle (s\<lparr>deferred := False\<rparr>)"
    by (simp add: op_keeps_def)
  ultimately have "op_keeps \<sigma> (s2, w2)"
    using call_ssl_op_keeps [OF Flush(3)] op_keeps_trans by blast
  from op_keeps_trans [OF this write_finish_same(2) [OF Flush(4)]] show ?thesis
    by (simp add: Flush(5))
qed

text \<open>The other two operations: the loop, then bookkeeping the receive and send sides do not see.\<close>

lemma vtls_handshake_loop:
  assumes "vtls_handshake E \<sigma> = Some (r, \<sigma>')"
  obtains ret s w where "handshake_loop E 0 \<sigma> = Some (ret, s, w)"
    "r = (if ret = MRet 0 then VTLS_OK else map_ret ret)"
    "\<sigma>' = (if r = VTLS_ERROR then s\<lparr>last_err := ret\<rparr> else s, w)"
  using assms by (auto simp: vtls_handshake_def Let_def split: if_splits elim!: bind_SomeE)

lemma vtls_handshake_keeps:
  assumes "vtls_handshake E \<sigma> = Some (r, \<sigma>')"
  shows "rx_keeps E rx edge \<sigma> \<sigma>'" and "op_keeps \<sigma> \<sigma>'"
proof -
  from assms obtain ret s w where loop: "handshake_loop E 0 \<sigma> = Some (ret, s, w)"
    and \<sigma>': "\<sigma>' = (if r = VTLS_ERROR then s\<lparr>last_err := ret\<rparr> else s, w)"
    by (rule vtls_handshake_loop)
  from loop have "rx_keeps E rx edge \<sigma> (s, w)"
    by (rule handshake_loop_rule) (erule locked_call_keeps, erule (1) rx_keeps_trans)
  then show "rx_keeps E rx edge \<sigma> \<sigma>'"
    by (rule rx_same_after) (simp add: \<sigma>' rx_same_def)
  from loop have "op_keeps \<sigma> (s, w)"
    by (rule handshake_loop_rule) (erule locked_call_op_keeps, erule (1) op_keeps_trans)
  then show "op_keeps \<sigma> \<sigma>'"
    by (simp add: \<sigma>' op_keeps_def tx_idle_def)
qed

lemma vtls_read_loop:
  assumes "vtls_read E len \<sigma> = Some (x, \<sigma>')"
  obtains e s w where "read_loop E len 0 \<sigma> = Some (e, s, w)"
    "(x, \<sigma>') = (case e of ReadWant \<Rightarrow> ((VTLS_WANT, []), s, w)
       | ReadRet ret bs \<Rightarrow> (let (r, s') = read_finish ret bs s in (r, s', w)))"
  using assms by (auto simp: vtls_read_def elim!: bind_SomeE)

lemma read_finish_same:
  assumes "read_finish ret bs s = (x, s')"
  shows "rx_same (s, w) (s', w)" and "op_keeps (s, w) (s', w)" and "bio_want s' = bio_want s"
  using assms by (auto simp: read_finish_def Let_def rx_same_def op_keeps_def tx_idle_def split: mret.splits if_splits)

lemma vtls_read_state:
  assumes "vtls_read E len \<sigma> = Some (x, \<sigma>')"
  obtains e \<sigma>1 where "read_loop E len 0 \<sigma> = Some (e, \<sigma>1)" "rx_same \<sigma>1 \<sigma>'" "op_keeps \<sigma>1 \<sigma>'"
    "bio_want (fst \<sigma>') = bio_want (fst \<sigma>1)"
    "fst x = VTLS_WANT \<Longrightarrow> e = ReadWant \<or> (\<exists>bs. e = ReadRet (MErr ERR_SSL_WANT_READ) bs)"
proof -
  from assms obtain e s w where loop: "read_loop E len 0 \<sigma> = Some (e, s, w)" and
    res: "(x, \<sigma>') = (case e of ReadWant \<Rightarrow> ((VTLS_WANT, []), s, w)
       | ReadRet ret bs \<Rightarrow> (let (r, s') = read_finish ret bs s in (r, s', w)))"
    by (rule vtls_read_loop)
  show thesis
  proof (cases e)
    case ReadWant
    with res loop show thesis by (intro that [of e "(s, w)"]) (simp_all add: rx_same_def op_keeps_def)
  next
    case (ReadRet ret bs)
    obtain s' where fin: "read_finish ret bs s = (x, s')" and \<sigma>': "\<sigma>' = (s', w)"
      using res ReadRet by (auto split: prod.splits)
    have "fst x = VTLS_WANT \<Longrightarrow> ret = MErr ERR_SSL_WANT_READ"
      using fin by (auto simp: read_finish_def map_ret_def Let_def split: mret.splits if_splits)
    with loop ReadRet read_finish_same [OF fin] show thesis
      by (intro that [of e "(s, w)"]) (simp_all add: \<sigma>')
  qed
qed

lemma vtls_read_keeps:
  assumes "vtls_read E len \<sigma> = Some (x, \<sigma>')"
  shows "rx_keeps E rx edge \<sigma> \<sigma>'" and "op_keeps \<sigma> \<sigma>'"
proof -
  from assms obtain e \<sigma>1 where loop: "read_loop E len 0 \<sigma> = Some (e, \<sigma>1)" and same: "rx_same \<sigma>1 \<sigma>'" "op_keeps \<sigma>1 \<sigma>'"
    by (rule vtls_read_state)
  from read_loop_keeps(1) [OF loop] same(1) show "rx_keeps E rx edge \<sigma> \<sigma>'"
    by (rule rx_same_after)
  from read_loop_op_keeps [OF loop] same(2) show "op_keeps \<sigma> \<sigma>'"
    by (rule op_keeps_trans)
qed

end
