(* ===== verification/Tls_Conn.thy ===== *)
theory Tls_Conn
  imports Tls_Io
begin

text \<open>
  The properties of a TLS connection: what the library receives is the peer's byte stream, a
  connection driven by edge-triggered events never sleeps on unread bytes, a record already sent is
  not encrypted again, nothing is sent while the crypto lock is held for a write, and the operations
  return with the lock released.
\<close>

section \<open>A connection under its event loop\<close>

text \<open>
  Between two calls bytes may arrive; the event loop takes a pending edge and tells the session
  (\<^verbatim>\<open>vtls_mark_readable\<close>); the worker calls handshake, read and write in any order.
\<close>

inductive conn_step ::
  "('m, 'k) env \<Rightarrow> ('k \<Rightarrow> byte list) \<Rightarrow> ('k \<Rightarrow> bool) \<Rightarrow> ('m, 'k) tls_state \<Rightarrow> ('m, 'k) tls_state \<Rightarrow> bool"
  for E rx edge where
  arrive: "takes rx edge (kst w) [] k \<Longrightarrow> conn_step E rx edge (s, w) (s, w\<lparr>kst := k\<rparr>)"
| readable_edge: "rx k = rx (kst w) \<Longrightarrow> conn_step E rx edge (s, w) (vtls_mark_readable s, w\<lparr>kst := k\<rparr>)"
| handshake: "vtls_handshake E \<sigma> = Some (r, \<sigma>') \<Longrightarrow> conn_step E rx edge \<sigma> \<sigma>'"
| read: "vtls_read E len \<sigma> = Some (x, \<sigma>') \<Longrightarrow> conn_step E rx edge \<sigma> \<sigma>'"
| writing: "vtls_write E buf \<sigma> = Some (r, \<sigma>') \<Longrightarrow> conn_step E rx edge \<sigma> \<sigma>'"

definition conn_ok ::
  "('k \<Rightarrow> byte list) \<Rightarrow> ('k \<Rightarrow> bool) \<Rightarrow> int \<Rightarrow> ('m, 'k) tls_state \<Rightarrow> bool" where
  "conn_ok rx edge fd \<sigma> \<longleftrightarrow>
     net_fd (fst \<sigma>) = fd \<and> session_wf (fst \<sigma>) \<and> awake rx edge \<sigma> \<and> tx_idle (fst \<sigma>) \<and> \<not> vtls_lock (snd \<sigma>)"

lemma keeps_conn_ok:
  assumes "rx_keeps E rx edge \<sigma> \<sigma>'" and "op_keeps \<sigma> \<sigma>'"
    and "stream_socket (env_kernel E) fd rx edge" and "conn_ok rx edge fd \<sigma>"
  shows "conn_ok rx edge fd \<sigma>'"
  using assms by (simp add: rx_keeps_def op_keeps_def conn_ok_def)

lemma conn_step_ok:
  assumes "conn_step E rx edge \<sigma> \<sigma>'"
    and "stream_socket (env_kernel E) fd rx edge" and "write_blocks (env_lib E)" and "conn_ok rx edge fd \<sigma>"
  shows "conn_ok rx edge fd \<sigma>'"
  using assms
proof (cases rule: conn_step.cases)
  case (arrive w k s)
  with assms(4) takes_awake [OF arrive(3)] show ?thesis
    by (auto simp: conn_ok_def awake_def)
next
  case (readable_edge k w s)
  with assms(4) show ?thesis
    by (simp add: conn_ok_def awake_def vtls_mark_readable_def session_wf_def tx_idle_def)
next
  case (handshake r)
  from vtls_handshake_keeps [OF handshake] assms(2,4) show ?thesis by (rule keeps_conn_ok)
next
  case (read len x)
  from vtls_read_keeps [OF read] assms(2,4) show ?thesis by (rule keeps_conn_ok)
next
  case (writing buf r)
  from assms(4) have "tx_idle (fst \<sigma>)" by (simp add: conn_ok_def)
  from vtls_write_keeps [OF writing] vtls_write_op_keeps [OF writing assms(3) this] assms(2,4) show ?thesis
    by (rule keeps_conn_ok)
qed

section \<open>A library in the clear\<close>

text \<open>A concrete library for the witnesses: its records are the plaintext itself.\<close>

definition clear_lib :: "unit mbedtls" where
  "clear_lib = (null_lib ())\<lparr>
     ssl_read := (\<lambda>len m p. BioRecv len (\<lambda>x. Ret (x, m, p))),
     ssl_write := (\<lambda>buf m p. BioSend buf (\<lambda>r. 
       Ret (if r = MErr ERR_SSL_RECEIVED_NEW_SESSION_TICKET then MErr ERR_NET_SEND_FAILED else r, m, p)))\<rparr>"

abbreviation clear_env :: "(unit, byte list \<times> byte list) env" where
  "clear_env \<equiv> plain_env clear_lib queue_kernel"

definition clear_session :: "unit vtls_session" where
  "clear_session = (zero_session ())\<lparr>net_fd := 7, readable := True, readahead := True\<rparr>"

lemma clear_session_facts:
  "session_wf clear_session" "awake rx edge (clear_session, w)" "tx_idle clear_session" "net_fd clear_session = 7"
  by (simp_all add: clear_session_def zero_session_def session_wf_def awake_def tx_idle_def)

lemma clear_env_sel [simp]: "env_kernel clear_env = queue_kernel" "env_lib clear_env = clear_lib"
  by (simp_all add: plain_env_def)

lemma clear_lib_sel [simp]: "ssl_read clear_lib len m p = BioRecv len (\<lambda>x. Ret (x, m, p))"
  by (simp add: clear_lib_def)

lemma plain_world_sel [simp]: "kst (plain_world p k) = k" "\<not> vtls_lock (plain_world p k)"
  by (simp_all add: plain_world_def)

lemma clear_lib_write_blocks: "write_blocks clear_lib"
  by (auto simp: write_blocks_def clear_lib_def lib_path_simps split: if_splits)

section \<open>Properties\<close>

text \<open>
  C1. Stream fidelity of the read-ahead: during any call of Mbed TLS on a session, whatever the library
  does with its callbacks, the bytes it receives are exactly the next bytes of the peer's stream, in
  order: nothing is lost, duplicated or reordered between socket, read-ahead and library. What arrives
  meanwhile is appended at the end.
\<close>

theorem library_receives_stream:
  assumes "call_ssl E f (s, w) = Some (a, s', w')"
    and "stream_socket (env_kernel E) (net_fd s) rx edge" and "session_wf s"
  shows "lib_path (f (ssl s) (psa w)) (ssl_trace E f (s, w)) (a, ssl s', psa w') \<and>
    (\<exists>arrived. received (ssl_trace E f (s, w)) @ pending rx (s', w') = pending rx (s, w) @ arrived) \<and>
    session_wf s'"
  using call_ssl_path [OF assms(1)] call_ssl_rx [OF assms(1), of rx edge] assms(2,3)
  by (auto simp: rx_rel_def takes_def)

theorem library_receives_stream_witness:
  "\<exists>a s' w'. call_ssl clear_env (ssl_read clear_lib 3) (clear_session, plain_world () ([1, 2, 3, 4, 5], []))
      = Some (a, s', w') \<and>
    (\<exists>arrived. received (ssl_trace clear_env (ssl_read clear_lib 3) (clear_session, plain_world () ([1, 2, 3, 4, 5], [])))
       @ pending fst (s', w') = [1, 2, 3, 4, 5] @ arrived)"
proof -
  let ?w = "plain_world () ([1, 2, 3, 4, 5], []) :: (unit, byte list \<times> byte list) world"
  obtain a \<sigma>' where call: "call_ssl clear_env (ssl_read clear_lib 3) (clear_session, ?w) = Some (a, \<sigma>')"
    using call_ssl_returns [of clear_env "ssl_read clear_lib 3" "(clear_session, ?w)"] queue_kernel_settles by auto
  have "pending fst (clear_session, ?w) = [1, 2, 3, 4, 5]"
    by (simp add: pending_def buffered_def clear_session_def zero_session_def plain_world_def)
  with library_receives_stream [of clear_env "ssl_read clear_lib 3" clear_session ?w a "fst \<sigma>'" "snd \<sigma>'" fst "\<lambda>k. False"]
    call clear_session_facts(1) queue_kernel_stream
  show ?thesis by (intro exI [of _ a] exI [of _ "fst \<sigma>'"] exI [of _ "snd \<sigma>'"]) simp
qed


lemma clear_read_drained:
  "vtls_read clear_env 3 (clear_session, plain_world () ([], []))
     = Some ((VTLS_WANT, []), clear_session\<lparr>readable := False, bio_want := True\<rparr>, plain_world () ([], []))"
proof -
  have "retry interrupted (k_recv queue_kernel 7 VTLS_READAHEAD []) ([], [])
      = Some (k_recv queue_kernel 7 VTLS_READAHEAD [] ([], []))"
    by (rule retry_stop) (simp add: queue_kernel_def VTLS_READAHEAD_def)
  then have recv: "retry interrupted (k_recv queue_kernel 7 VTLS_READAHEAD []) ([], []) = Some (SysErr EAGAIN, [], [])"
    by (simp add: queue_kernel_def VTLS_READAHEAD_def)
  have fill: "ra_fill clear_env (clear_session, plain_world () ([], []))
      = Some (MErr ERR_SSL_WANT_READ, clear_session\<lparr>readable := False, bio_want := True\<rparr>, plain_world () ([], []))"
    using recv by (simp add: ra_fill_def vtls_recv_def clear_session_def zero_session_def plain_world_def memcpy_at_def)
  have "read_prefetch clear_env (clear_session, plain_world () ([], []))
      = Some (True, clear_session\<lparr>readable := False, bio_want := True\<rparr>, plain_world () ([], []))"
    by (simp add: read_prefetch_def fill)
      (simp add: clear_session_def zero_session_def clear_lib_def null_lib_def)
  then show ?thesis
    by (simp add: vtls_read_def read_loop.simps)
qed







text \<open>
  C3. The connection invariant: over every sequence of arrivals, readable edges, handshakes, reads and
  writes, the read-ahead stays within its buffer, bytes in the socket stay announced (known to the
  session or with an edge pending), no send is left deferred, and the crypto lock is free between
  calls.
\<close>

theorem connection_invariant:
  assumes "(conn_step E rx edge)\<^sup>*\<^sup>* \<sigma> \<sigma>'"
    and "stream_socket (env_kernel E) fd rx edge" and "write_blocks (env_lib E)" and "conn_ok rx edge fd \<sigma>"
  shows "conn_ok rx edge fd \<sigma>'"
  using assms by (induction rule: rtranclp_induct) (auto intro: conn_step_ok)

theorem connection_invariant_witness:
  "\<exists>\<sigma>'. (conn_step clear_env fst (\<lambda>k. False))\<^sup>*\<^sup>* (clear_session, plain_world () ([], [])) \<sigma>' \<and>
     conn_ok fst (\<lambda>k. False) 7 \<sigma>' \<and> \<not> readable (fst \<sigma>')"
proof -
  let ?\<sigma> = "(clear_session, plain_world () ([], []) :: (unit, byte list \<times> byte list) world)"
  let ?\<sigma>' = "(clear_session\<lparr>readable := False, bio_want := True\<rparr>, plain_world () ([], []) :: (unit, byte list \<times> byte list) world)"
  have "(conn_step clear_env fst (\<lambda>k. False))\<^sup>*\<^sup>* ?\<sigma> ?\<sigma>'"
    by (rule r_into_rtranclp) (rule conn_step.read [OF clear_read_drained])
  moreover have "conn_ok fst (\<lambda>k. False) 7 ?\<sigma>"
    using clear_session_facts by (simp add: conn_ok_def plain_world_def)
  ultimately show ?thesis
    using connection_invariant [of clear_env fst "\<lambda>k. False" ?\<sigma> ?\<sigma>' 7] queue_kernel_stream clear_lib_write_blocks
    by (intro exI [of _ ?\<sigma>']) simp
qed

text \<open>
  C4. A record already on the wire is not encrypted again: when \<^verbatim>\<open>vtls_write\<close> left a record pending and any
  other call of Mbed TLS on the session sends the rest of it, the retry of the write reports it sent
  without entering the library, taking the lock or touching the socket.
\<close>

theorem settled_record_not_resent:
  assumes "wpend s = 1" and "\<not> defer_send s"
    and "call_ssl E f (s, w) = Some (a, s', w')"
    and "Sent bs (MRet (length bs)) \<in> set (ssl_trace E f (s, w))"
  shows "vtls_write E buf (s', w') = Some (settled_count E buf s', s'\<lparr>wpend := 0\<rparr>, w')"
proof -
  from call_ssl_tx [OF assms(3)] assms(1,2,4) have "wpend s' = 2"
    by (auto simp: tx_rel_def)
  then show ?thesis by (simp add: vtls_write_def write_loop.simps)
qed

lemma clear_send:
  assumes "\<not> defer_send s"
  shows "call_ssl clear_env (ssl_write clear_lib buf) (s, plain_world () (q, out))
    = Some (MRet (length buf), if wpend s = 1 then s\<lparr>wpend := 2\<rparr> else s, plain_world () (q, out @ buf))"
    and "ssl_trace clear_env (ssl_write clear_lib buf) (s, plain_world () (q, out)) = [Sent buf (MRet (length buf))]"
proof -
  have "retry interrupted (k_send queue_kernel (net_fd s) buf [MSG_NOSIGNAL]) (q, out)
      = Some (k_send queue_kernel (net_fd s) buf [MSG_NOSIGNAL] (q, out))"
    by (rule retry_stop) (simp add: queue_kernel_def)
  also have "\<dots> = Some (SysOk (length buf), q, out @ buf)"
    by (simp add: queue_kernel_def)
  finally have send: "vtls_bio_send clear_env buf (s, plain_world () (q, out))
      = Some (MRet (length buf), if wpend s = 1 then s\<lparr>wpend := 2\<rparr> else s, plain_world () (q, out @ buf))"
    using assms by (simp add: vtls_bio_send_def plain_world_def)
  then show "call_ssl clear_env (ssl_write clear_lib buf) (s, plain_world () (q, out))
    = Some (MRet (length buf), if wpend s = 1 then s\<lparr>wpend := 2\<rparr> else s, plain_world () (q, out @ buf))"
    by (simp add: call_ssl_def clear_lib_def plain_world_def)
  from send show "ssl_trace clear_env (ssl_write clear_lib buf) (s, plain_world () (q, out)) = [Sent buf (MRet (length buf))]"
    by (simp add: ssl_trace_def clear_lib_def)
qed

theorem settled_record_not_resent_witness:
  "vtls_write clear_env [9, 9] (clear_session\<lparr>wpend := 2\<rparr>, plain_world () ([], [1, 2]))
     = Some (2, clear_session\<lparr>wpend := 0\<rparr>, plain_world () ([], [1, 2]))"
proof -
  have count: "settled_count clear_env [9, 9] s = 2" for s
    by (simp add: settled_count_def) (simp add: clear_lib_def null_lib_def int_of_size_def)
  have "\<not> defer_send (clear_session\<lparr>wpend := 1\<rparr>)"
    by (simp add: clear_session_def zero_session_def)
  from settled_record_not_resent [OF _ this clear_send(1) [OF this, of "[1, 2]" "[]" "[]"], of "[1, 2]" "[9, 9]"]
    clear_send(2) [OF this, of "[1, 2]" "[]" "[]"]
  show ?thesis by (simp add: count)
qed

text \<open>
  C10. What the library believes sent is what went out: during any call of Mbed TLS on a session the
  bytes the kernel accepted are the accepted parts of the library's sends, in order, and nothing else.
\<close>

theorem library_sends_wire:
  assumes "call_ssl E f (s, w) = Some (a, s', w')" and "send_socket (env_kernel E) (net_fd s) wire"
  shows "wire (kst w') = wire (kst w) @ sent (ssl_trace E f (s, w))"
  using call_ssl_wire [OF assms(1), of wire] assms(2) by (simp add: wire_rel_def)

theorem library_sends_wire_witness:
  "snd (kst (snd (snd (the (call_ssl clear_env (ssl_write clear_lib [1, 2]) (clear_session, plain_world () ([], [7])))))))
     = [7] @ sent (ssl_trace clear_env (ssl_write clear_lib [1, 2]) (clear_session, plain_world () ([], [7])))"
proof -
  have "\<not> defer_send clear_session"
    by (simp add: clear_session_def zero_session_def)
  note call = clear_send(1) [OF this, of "[1, 2]" "[]" "[7]"]
  from library_sends_wire [OF call, of snd] queue_kernel_send show ?thesis
    by (simp add: call)
qed

text \<open>A library that reports only finitely many tickets from writes: \<open>left\<close> bounds how many are to come.\<close>

definition tickets_finite :: "'m mbedtls \<Rightarrow> ('m \<Rightarrow> nat) \<Rightarrow> bool" where
  "tickets_finite L left \<longleftrightarrow>
     (\<forall>buf m p tr m' p'. lib_path (ssl_write L buf m p) tr (MErr ERR_SSL_RECEIVED_NEW_SESSION_TICKET, m', p') \<longrightarrow>
        left m' < left m)"

lemma write_loop_returns:
  assumes "calls_settle (env_kernel E)" and fin: "tickets_finite (env_lib E) left" and "\<not> vtls_lock w"
  shows "\<exists>e s' w'. write_loop E buf (s, w) = Some (e, s', w') \<and> \<not> vtls_lock w'"
  using assms(3)
proof (induction "left (ssl s)" arbitrary: s w rule: less_induct)
  case less
  show ?case
  proof (cases "wpend s = 2")
    case True
    with less(2) show ?thesis by (simp add: write_loop.simps)
  next
    case False
    let ?s = "s\<lparr>defer_send := (VTLS_SERIALIZED E \<and> \<not> parked s)\<rparr>"
    obtain r s1 w1 where call: "locked_call E (ssl_write (env_lib E) buf) (?s, w) = Some (r, s1, w1)"
      using locked_call_returns [OF assms(1), of w "ssl_write (env_lib E) buf" ?s] less(2) by auto
    have free: "\<not> vtls_lock w1"
      using locked_call_frame(2) [OF call] less(2) by simp
    show ?thesis
    proof (cases "r = MErr ERR_SSL_RECEIVED_NEW_SESSION_TICKET")
      case True
      with locked_call_path [OF call] fin have "left (ssl s1) < left (ssl s)"
        unfolding tickets_finite_def by fastforce
      with less(1) [of "s1\<lparr>defer_send := False, parked := False\<rparr>" w1] free
      obtain e s' w' where "write_loop E buf (s1\<lparr>defer_send := False, parked := False\<rparr>, w1) = Some (e, s', w')"
        and "\<not> vtls_lock w'"
        by auto
      with False call True show ?thesis by (subst write_loop.simps) simp
    next
      case stop: False
      with False call free show ?thesis by (subst write_loop.simps) simp
    qed
  qed
qed

lemma vtls_write_returns:
  assumes "calls_settle (env_kernel E)" and "tickets_finite (env_lib E) left" and "\<not> vtls_lock w"
  shows "\<exists>r s' w'. vtls_write E buf (s, w) = Some (r, s', w') \<and> \<not> vtls_lock w'"
proof -
  obtain e s1 w1 where loop: "write_loop E buf (s, w) = Some (e, s1, w1)" and free: "\<not> vtls_lock w1"
    using write_loop_returns [OF assms] by blast
  obtain ret2 s2 w2 where flush: "call_ssl E (ssl_write (env_lib E) buf) (s1\<lparr>deferred := False\<rparr>, w1) = Some (ret2, s2, w2)"
    using call_ssl_returns [OF assms(1), of "ssl_write (env_lib E) buf" "(s1\<lparr>deferred := False\<rparr>, w1)"] by auto
  have "\<not> vtls_lock w2"
    using call_ssl_frame(2) [OF flush] free by (simp add: world_rest_def)
  with loop flush free show ?thesis
    by (cases e; cases "deferred s1") (simp_all add: vtls_write_def case_prod_beta)
qed




text \<open>
  C12. Handshake and read return: on a system where no call is interrupted for ever, and with the crypto
  lock free, both return within their 64 library calls, and give the lock back.
\<close>

theorem handshake_and_read_return:
  assumes "calls_settle (env_kernel E)" and "\<not> vtls_lock w"
  shows "(\<exists>r s' w'. vtls_handshake E (s, w) = Some (r, s', w') \<and> \<not> vtls_lock w') \<and>
    (\<exists>x s' w'. vtls_read E len (s, w) = Some (x, s', w') \<and> \<not> vtls_lock w')"
proof
  obtain ret \<sigma>1 where "handshake_loop E 0 (s, w) = Some (ret, \<sigma>1)"
    using handshake_loop_returns [OF assms(1), of "(s, w)" 0] assms(2) by auto
  then have "vtls_handshake E (s, w) \<noteq> None"
    by (cases \<sigma>1) (simp add: vtls_handshake_def Let_def del: not_None_eq)
  then obtain r s' w' where hs: "vtls_handshake E (s, w) = Some (r, s', w')"
    by auto
  with vtls_handshake_keeps(2) [OF hs] assms(2)
  show "\<exists>r s' w'. vtls_handshake E (s, w) = Some (r, s', w') \<and> \<not> vtls_lock w'"
    by (auto simp: op_keeps_def)
  obtain e \<sigma>2 where loop: "read_loop E len 0 (s, w) = Some (e, \<sigma>2)"
    using read_loop_returns [OF assms(1), of "(s, w)" len 0] assms(2) by auto
  then have "vtls_read E len (s, w) \<noteq> None"
    by (cases \<sigma>2) (simp add: vtls_read_def del: not_None_eq)
  then obtain x s' w' where rd: "vtls_read E len (s, w) = Some (x, s', w')"
    by auto
  with vtls_read_keeps(2) [OF rd] assms(2)
  show "\<exists>x s' w'. vtls_read E len (s, w) = Some (x, s', w') \<and> \<not> vtls_lock w'"
    by (auto simp: op_keeps_def)
qed

theorem handshake_and_read_return_witness:
  "\<exists>x s' w'. vtls_read clear_env 9 (clear_session, plain_world () ([5, 6], [])) = Some (x, s', w') \<and> \<not> vtls_lock w'"
  using handshake_and_read_return [of clear_env "plain_world () ([5, 6], [])" clear_session 9] queue_kernel_settles
  by simp

text \<open>
  C13. Writing returns: on such a system, with a library that reports finitely many session tickets,
  \<^verbatim>\<open>vtls_write\<close> leaves its unbounded loop and returns with the lock free.
\<close>

theorem write_returns:
  assumes "calls_settle (env_kernel E)" and "tickets_finite (env_lib E) left" and "\<not> vtls_lock w"
  shows "\<exists>r s' w'. vtls_write E buf (s, w) = Some (r, s', w') \<and> \<not> vtls_lock w'"
  by (rule vtls_write_returns [OF assms])

theorem write_returns_witness:
  "\<exists>r s' w'. vtls_write clear_env [1, 2, 3] (clear_session, plain_world () ([], [])) = Some (r, s', w') \<and> \<not> vtls_lock w'"
proof -
  have "tickets_finite clear_lib (\<lambda>m. 0)"
    by (simp add: tickets_finite_def clear_lib_def lib_path_simps split: if_splits)
  with write_returns [of clear_env "\<lambda>m. 0" "plain_world () ([], [])" "[1, 2, 3]" clear_session] queue_kernel_settles
  show ?thesis by simp
qed

section \<open>The end of the stream\<close>

lemma read_loop_closed:
  assumes "read_loop E len n \<sigma> = Some (e, \<sigma>')"
  shows "peer_closed (fst \<sigma>') = peer_closed (fst \<sigma>) \<and> close_notify (fst \<sigma>') = close_notify (fst \<sigma>)"
proof -
  let ?R = "\<lambda>\<sigma> \<sigma>' :: ('a, 'b) tls_state. peer_closed (fst \<sigma>') = peer_closed (fst \<sigma>) \<and> close_notify (fst \<sigma>') = close_notify (fst \<sigma>)"
  have pre: "?R (s, w) (s', w')" if "read_prefetch E (s, w) = Some (want, s', w')" for s w want s' w'
    using that ra_fill_frame [of E "(s, w)" _ "(s', w')" "[]"]
    by (auto simp: read_prefetch_def bio_frame_def split: if_splits elim!: bind_SomeE dest: own_eqD(10,11))
  have call: "?R (s, w) (s', w')"
    if "locked_call E (ssl_read (env_lib E) len) (s\<lparr>bio_want := False\<rparr>, w) = Some (a, s', w')" for s w a s' w'
    using locked_call_own(6,7) [OF that] by simp
  have "?R \<sigma> \<sigma>' \<and> read_last E len (?R \<sigma>) e \<sigma>'"
    by (rule read_loop_rule [OF assms, where R = ?R]) (erule pre, erule call, simp_all)
  then show ?thesis by (rule conjunct1)
qed

text \<open>
  C21. Truncation is told from a clean close: after a read whose library call answered \<open>ret\<close>, the session
  reports the peer closed exactly when it did before or \<open>ret\<close> is an end of file or a close_notify
  alert, and a close_notify only when the alert was received; data is returned only with a positive
  count.
\<close>

theorem read_tells_truncation:
  assumes "read_loop E len 0 (s, w) = Some (ReadRet ret bs, s1, w1)"
  shows "\<exists>r d s'. vtls_read E len (s, w) = Some ((r, d), s', w1) \<and>
    vtls_peer_closed s' = (peer_closed s \<or> ret = MRet 0 \<or> ret = MErr ERR_SSL_PEER_CLOSE_NOTIFY) \<and>
    vtls_peer_close_notify s' = (close_notify s \<or> ret = MErr ERR_SSL_PEER_CLOSE_NOTIFY) \<and>
    ((\<exists>n > 0. ret = MRet n \<and> r = int n \<and> d = bs) \<or> (r < 0 \<and> d = []))"
proof -
  obtain r d s' where fin: "read_finish ret bs s1 = ((r, d), s')"
    by (metis surj_pair)
  then have "vtls_read E len (s, w) = Some ((r, d), s', w1)"
    by (simp add: vtls_read_def assms)
  with fin read_loop_closed [OF assms] show ?thesis
    by (auto simp: read_finish_def map_ret_def vtls_peer_closed_def vtls_peer_close_notify_def Let_def
        split: mret.splits if_splits)
qed

theorem read_tells_truncation_witness:
  "\<exists>r d s' w'. vtls_read clear_env 9 (clear_session\<lparr>closed := 1\<rparr>, plain_world () ([], [])) = Some ((r, d), s', w') \<and>
     vtls_peer_closed s' \<and> \<not> vtls_peer_close_notify s'"
proof -
  let ?s = "clear_session\<lparr>closed := 1\<rparr>" and ?w = "plain_world () ([], []) :: (unit, byte list \<times> byte list) world"
  have recv: "vtls_bio_recv clear_env 9 (?s\<lparr>bio_want := False\<rparr>, w) = Some ((MRet 0, []), ?s\<lparr>bio_want := False\<rparr>, w)" for w
    by (simp add: vtls_bio_recv_def clear_session_def zero_session_def)
  obtain w1 where "VTLS_LOCK clear_env ?w = Some w1"
    using VTLS_LOCK_free [OF plain_world_sel(2), of clear_env "()" "([], [])"] by blast
  then obtain s2 w2 where
    "locked_call clear_env (ssl_read clear_lib 9) (?s\<lparr>bio_want := False\<rparr>, ?w) = Some ((MRet 0, []), s2, w2)"
    using recv [of w1] by (simp add: locked_call_def call_ssl_def)
  moreover have "read_prefetch clear_env (?s, ?w) = Some (False, ?s, ?w)"
    by (simp add: read_prefetch_def clear_session_def zero_session_def)
  ultimately have loop: "read_loop clear_env 9 0 (?s, ?w)
      = Some (ReadRet (MRet 0) [], s2, w2)"
    by (simp add: read_loop.simps vtls_retry_def)
  from read_tells_truncation [OF loop] show ?thesis
    by (auto simp: clear_session_def zero_session_def)
qed

end
