(* ===== verification/Tls_Client.thy ===== *)
theory Tls_Client
  imports Tls_Conn
begin

text \<open>
  The client side of \<^verbatim>\<open>src/tls/vanilla_tls.c\<close>: reading a host as an IP address, creating and
  re-arming a client session, how it checks the server's certificate, and its error texts.
\<close>

section \<open>Arming a session\<close>

definition client_rearm :: "'m vtls_session \<Rightarrow> int \<Rightarrow> 'm vtls_session" where
  "client_rearm s fd = s\<lparr>net_fd := fd, readable := True, readahead := True, closed := 0,
     peer_closed := False, close_notify := False, last_err := MRet 0, defer_send := False,
     deferred := False, wpend := 0, parked := False, ra_off := 0, ra_len := 0\<rparr>"

definition INET6_ADDRSTRLEN :: nat where "INET6_ADDRSTRLEN = 46"

text \<open>
  The result is the length, 0 for a DNS name, and the array it was read into. A host with a zone is cut at
  its first \<^verbatim>\<open>%\<close>; else \<^verbatim>\<open>getaddrinfo\<close> parses it with \<^verbatim>\<open>AI_NUMERICHOST\<close>.
\<close>

definition ip_host :: "'k kernel \<Rightarrow> string \<Rightarrow> byte list \<Rightarrow> 'k \<Rightarrow> (nat \<times> byte list) \<times> 'k" where
  "ip_host K host ip k =
     (if CHR ''%'' \<in> set host then
        (let a = takeWhile (\<lambda>c. c \<noteq> CHR ''%'') host in
         if length a \<ge> INET6_ADDRSTRLEN then ((0, ip), k)
         else (case c_inet_pton K AF_INET6 a of
                 Some b \<Rightarrow> ((16, memcpy_at ip 0 (take 16 b)), k)
               | None \<Rightarrow> ((0, ip), k)))
      else
        (case c_getaddrinfo K True host None k of
           (SysErr e, k') \<Rightarrow> ((0, ip), k')
         | (SysOk [], k') \<Rightarrow> ((0, ip), k')
         | (SysOk ((family, addr) # res), k') \<Rightarrow>
             if family = AF_INET then ((4, memcpy_at ip 0 (take 4 addr)), k')
             else if family = AF_INET6 then ((16, memcpy_at ip 0 (take 16 addr)), k')
             else ((0, ip), k')))"

text \<open>
  \<^verbatim>\<open>mbedtls_ssl_setup\<close> ties the session to its configuration, whose certificate callback Mbed TLS calls unless the
  session is given one of its own by \<^verbatim>\<open>mbedtls_ssl_set_verify\<close>.
\<close>

definition vtls_client_session_new ::
  "('m, 'k) env \<Rightarrow> 'm vtls_ctx \<Rightarrow> int \<Rightarrow> string \<Rightarrow> ('m, 'k) world \<Rightarrow>
   ('m vtls_session option \<times> ('m, 'k) world) option" where
  "vtls_client_session_new E c fd host w0 =
     (let (ok, k) = env_calloc E (kst w0); L = env_lib E in
      if \<not> ok then Some (None, w0\<lparr>kst := k\<rparr>)
      else do {
        let s0 = zero_session (ssl_init L);
        let ((ip_len, ip), k1) = ip_host (env_kernel E) host (peer_ip s0) k;
        w1 \<leftarrow> VTLS_LOCK E (w0\<lparr>kst := k1\<rparr>);
        let (ret, m, p) = ssl_setup L (ssl s0) (conf c) (psa w1);
        let (ret, m) = (if ret = MRet 0
                        then ssl_set_hostname L (if ip_len > 0 then None else Some host) m
                        else (ret, m));
        let p = (if ret \<noteq> MRet 0 then ssl_free L m p else p);
        let w2 = VTLS_UNLOCK E (w1\<lparr>psa := p\<rparr>);
        let s = client_rearm (s0\<lparr>ssl := m, vrfy := conf_vrfy c, peer_ip := ip, peer_ip_len := ip_len\<rparr>) fd;
        Some (if ret \<noteq> MRet 0 then (None, w2)
              else (Some (if ip_len > 0 \<and> verify c = VTLS_VERIFY_FULL then s\<lparr>vrfy := VrfyIpSan\<rparr> else s), w2))
      })"

definition vtls_session_reset ::
  "('m, 'k) env \<Rightarrow> int \<Rightarrow> ('m, 'k) tls_state \<Rightarrow> (mret \<times> ('m, 'k) tls_state) option" where
  "vtls_session_reset E fd = (\<lambda>(s, w). do {
     w1 \<leftarrow> VTLS_LOCK E w;
     let (ret, m, p) = ssl_session_reset (env_lib E) (ssl s) (psa w1);
     Some (ret, client_rearm (s\<lparr>ssl := m\<rparr>) fd, VTLS_UNLOCK E (w1\<lparr>psa := p\<rparr>))
   })"

section \<open>Error texts\<close>

definition vtls_verify_failed :: "'m vtls_session \<Rightarrow> bool" where
  "vtls_verify_failed s \<longleftrightarrow> last_err s = MErr ERR_X509_CERT_VERIFY_FAILED"

text \<open>\<^verbatim>\<open>snprintf\<close> of a text into the first \<open>len\<close> characters of a buffer, and a C string's text.\<close>

definition snprintf_to :: "string \<Rightarrow> nat \<Rightarrow> string \<Rightarrow> string" where
  "snprintf_to buf len text =
     (if len = 0 then buf else memcpy_at buf 0 (take (len - 1) text @ [CHR 0x00]))"

definition c_text :: "string \<Rightarrow> string" where
  "c_text s = takeWhile (\<lambda>c. c \<noteq> CHR 0x00) s"

text \<open>\<^verbatim>\<open>%04x\<close>.\<close>

definition hex_digit :: "nat \<Rightarrow> char" where
  "hex_digit d = ''0123456789abcdef'' ! d"

fun hex_of :: "nat \<Rightarrow> string" where
  "hex_of n = (if n < 16 then [hex_digit n] else hex_of (n div 16) @ [hex_digit (n mod 16)])"

declare hex_of.simps [simp del]

definition hex4 :: "nat \<Rightarrow> string" where
  "hex4 n = (let h = hex_of n in replicate (4 - length h) CHR ''0'' @ h)"

definition neg_code :: "'m mbedtls \<Rightarrow> mret \<Rightarrow> u32" where
  "neg_code L err = (case err of MRet n \<Rightarrow> - of_nat n | MErr e \<Rightarrow> of_nat (merr_code L e))"

definition vtls_error_string :: "'m mbedtls \<Rightarrow> mret \<Rightarrow> string \<Rightarrow> nat \<Rightarrow> string" where
  "vtls_error_string L err buf len =
     (let text = c_text (take 159 (mbedtls_strerror L err)) in
      snprintf_to buf len (text @ '' (Mbed TLS -0x'' @ hex4 (unat (neg_code L err)) @ '')''))"

text \<open>The loop over \<^verbatim>\<open>info\<close>: a line break becomes a semicolon, the last character's the terminator.\<close>

definition join_info :: "string \<Rightarrow> string" where
  "join_info info = c_text (map (\<lambda>i. if info ! i = CHR 0x0A
     then (if i + 1 < length info then CHR '';'' else CHR 0x00) else info ! i) [0..<length info])"

definition verify_info :: "'m mbedtls \<Rightarrow> 'm vtls_session \<Rightarrow> u32 \<Rightarrow> string" where
  "verify_info L s flags =
     (let (info, flags') =
        (if peer_ip_len s > 0 \<and> flags AND BADCERT_CN_MISMATCH \<noteq> 0
         then (''the address is in none of its iPAddress SANs (IP:)'' @ [CHR 0x0A],
               flags AND NOT BADCERT_CN_MISMATCH)
         else ([], flags));
        more = (if flags' \<noteq> 0 then x509_crt_verify_info L (512 - length info) flags' else Some [])
      in info @ (case more of Some t \<Rightarrow> t | None \<Rightarrow> []))"

definition verify_what :: "u32 \<Rightarrow> string" where
  "verify_what flags =
     (if flags AND BADCERT_NOT_TRUSTED \<noteq> 0
      then ''the server certificate is not trusted (it does not chain to a trusted root certificate)''
      else if flags AND BADCERT_CN_MISMATCH \<noteq> 0
      then ''the server certificate does not match the host name''
      else ''the server certificate failed verification'')"

definition vtls_handshake_error :: "'m mbedtls \<Rightarrow> 'm vtls_session \<Rightarrow> string \<Rightarrow> nat \<Rightarrow> string" where
  "vtls_handshake_error L s buf0 len =
     (if len = 0 then buf0
      else
        (let buf = buf0[0 := CHR 0x00]; flags = ssl_get_verify_result L (ssl s) in
         if last_err s = MErr ERR_X509_CERT_VERIFY_FAILED \<and> flags \<noteq> 0 \<and> flags \<noteq> - 1
         then snprintf_to buf len (verify_what flags @ '': '' @ join_info (verify_info L s flags))
         else if closed s = 1 \<or> last_err s = MErr ERR_SSL_CONN_EOF
         then snprintf_to buf len ''the server closed the connection during the TLS handshake''
         else vtls_error_string L (last_err s) buf len))"

section \<open>Lemmas\<close>

lemma ip_host_sizes:
  assumes "ip_host K host ip k = ((n, ip'), k')" and "length ip = 16"
  shows "length ip' = 16" and "n \<le> 16"
  using assms by (auto simp: ip_host_def Let_def split: if_splits option.splits prod.splits sysret.splits list.splits)

lemma ip_san_listed_iff:
  assumes "n \<le> length ip"
  shows "ip_san_listed n ip sans \<longleftrightarrow>
    (\<exists>san \<in> set sans. san_tag san AND ASN1_TAG_VALUE_MASK = X509_SAN_IP_ADDRESS \<and> san_p san = take n ip)"
  using assms by (induction sans) auto

lemma client_session_new_fields:
  assumes "vtls_client_session_new E c fd host w = Some (Some s, w')"
    and "ip_host (env_kernel E) host (replicate 16 0) (snd (env_calloc E (kst w))) = ((n, ip), k1)"
  shows "peer_ip s = ip" and "peer_ip_len s = n"
    and "vrfy s = (if n > 0 \<and> verify c = VTLS_VERIFY_FULL then VrfyIpSan else conf_vrfy c)"
    and "ssl s = snd (ssl_set_hostname (env_lib E) (if n > 0 then None else Some host)
      (fst (snd (ssl_setup (env_lib E) (ssl_init (env_lib E)) (conf c) (psa w)))))"
    and "s = (zero_session (ssl s))\<lparr>net_fd := fd, readable := True, readahead := True, peer_ip := ip, peer_ip_len := n,
      vrfy := vrfy s\<rparr>"
  using assms
  by (auto simp: vtls_client_session_new_def Let_def client_rearm_def zero_session_def case_prod_beta split: if_splits elim!: bind_SomeE dest!: VTLS_LOCK_sel)

text \<open>A client connection over its life: the steps of its event loop, and re-dials on new sockets.\<close>

inductive client_step ::
  "('m, 'k) env \<Rightarrow> ('k \<Rightarrow> byte list) \<Rightarrow> ('k \<Rightarrow> bool) \<Rightarrow> ('m, 'k) tls_state \<Rightarrow> ('m, 'k) tls_state \<Rightarrow> bool"
  for E rx edge where
  conn: "conn_step E rx edge \<sigma> \<sigma>' \<Longrightarrow> client_step E rx edge \<sigma> \<sigma>'"
| redial: "vtls_session_reset E fd \<sigma> = Some (r, \<sigma>') \<Longrightarrow> client_step E rx edge \<sigma> \<sigma>'"

text \<open>Whom a session trusts, and all it keeps for its life.\<close>

definition trust :: "'m vtls_session \<Rightarrow> vrfy_cb \<times> byte list \<times> nat" where
  "trust s = (vrfy s, peer_ip s, peer_ip_len s)"

definition identity :: "'m vtls_session \<Rightarrow> (vrfy_cb \<times> byte list \<times> nat) \<times> bool \<times> bool \<times> bool \<times> bool \<times> bool \<times> bool" where
  "identity s = (trust s, ktls s, ktls_failed s, ktls_off s, tickets s, ktls_rx_no_pad s, export_cb s)"

lemma client_rearm_sel [simp]:
  "vrfy (client_rearm s fd) = vrfy s" "peer_ip (client_rearm s fd) = peer_ip s"
  "peer_ip_len (client_rearm s fd) = peer_ip_len s" "\<not> defer_send (client_rearm s fd)"
  "\<not> deferred (client_rearm s fd)" "net_fd (client_rearm s fd) = fd" "ktls (client_rearm s fd) = ktls s"
  by (simp_all add: client_rearm_def)

lemma session_reset_fields:
  assumes "vtls_session_reset E fd (s, w) = Some (r, s', w')"
  obtains m where "s' = client_rearm (s\<lparr>ssl := m\<rparr>) fd" "kst w' = kst w" "\<not> vtls_lock w \<Longrightarrow> \<not> vtls_lock w'"
proof -
  from assms obtain w1 where lock: "VTLS_LOCK E w = Some w1" and
    res: "s' = client_rearm (s\<lparr>ssl := fst (snd (ssl_session_reset (env_lib E) (ssl s) (psa w1)))\<rparr>) fd"
      "w' = VTLS_UNLOCK E (w1\<lparr>psa := snd (snd (ssl_session_reset (env_lib E) (ssl s) (psa w1)))\<rparr>)"
    by (auto simp: vtls_session_reset_def case_prod_beta elim!: bind_SomeE)
  from lock have "kst w1 = kst w" "\<not> vtls_lock w \<Longrightarrow> threading_c E \<Longrightarrow> \<not> vtls_lock w1"
    by (auto simp: VTLS_LOCK_def split: if_splits)
  with res show thesis by (intro that) simp_all
qed

lemma own_identity: "own s' = (own s)\<lparr>ssl := m\<rparr> \<Longrightarrow> identity s' = identity s"
  using own_eqD [of s' "s\<lparr>ssl := m\<rparr>"] by (simp add: own_def identity_def trust_def)

lemma read_prefetch_identity:
  assumes "read_prefetch E \<sigma> = Some (want, \<sigma>')"
  shows "identity (fst \<sigma>') = identity (fst \<sigma>)"
proof -
  have "own (fst \<sigma>') = own (fst \<sigma>)"
    using assms ra_fill_frame [of E \<sigma> _ \<sigma>' "[]"]
    by (cases \<sigma>) (auto simp: read_prefetch_def bio_frame_def split: if_splits elim!: bind_SomeE)
  from own_eqD [OF this] show ?thesis by (simp add: identity_def trust_def)
qed

lemma locked_call_identity:
  assumes "locked_call E f (s, w) = Some (a, s', w')"
  shows "identity s' = identity s"
  by (rule own_identity [OF locked_call_frame(1) [OF assms]])

lemma bookkeeping_identity [simp]:
  "identity (s\<lparr>bio_want := b\<rparr>) = identity s" "identity (s\<lparr>last_err := e\<rparr>) = identity s"
  "identity (s\<lparr>readable := b\<rparr>) = identity s" "identity (s\<lparr>defer_send := b\<rparr>) = identity s"
  "identity (s\<lparr>deferred := b\<rparr>) = identity s" "identity (s\<lparr>parked := b\<rparr>) = identity s"
  "identity (s\<lparr>wpend := n\<rparr>) = identity s" "identity (s\<lparr>ssl := m\<rparr>) = identity s"
  "identity (client_rearm s fd) = identity s"
  by (simp_all add: identity_def trust_def client_rearm_def)

lemma vtls_handshake_identity:
  assumes "vtls_handshake E \<sigma> = Some (r, \<sigma>')"
  shows "identity (fst \<sigma>') = identity (fst \<sigma>)"
proof -
  from assms obtain ret s w where loop: "handshake_loop E 0 \<sigma> = Some (ret, s, w)"
    and \<sigma>': "\<sigma>' = (if r = VTLS_ERROR then s\<lparr>last_err := ret\<rparr> else s, w)"
    by (rule vtls_handshake_loop)
  from loop have "identity (fst (s, w)) = identity (fst \<sigma>)"
    by (rule handshake_loop_rule [where R = "\<lambda>x y. identity (fst y) = identity (fst x)"])
      (auto dest: locked_call_identity)
  then show ?thesis by (simp add: \<sigma>')
qed

lemma vtls_read_identity:
  assumes "vtls_read E len \<sigma> = Some (x, \<sigma>')"
  shows "identity (fst \<sigma>') = identity (fst \<sigma>)"
proof -
  let ?R = "\<lambda>x y. identity (fst y) = identity (fst x)"
  from assms obtain e s w where loop: "read_loop E len 0 \<sigma> = Some (e, s, w)" and
    res: "(x, \<sigma>') = (case e of ReadWant \<Rightarrow> ((VTLS_WANT, []), s, w)
       | ReadRet ret bs \<Rightarrow> (let (r, s') = read_finish ret bs s in (r, s', w)))"
    by (rule vtls_read_loop)
  have "?R \<sigma> (s, w) \<and> read_last E len (?R \<sigma>) e (s, w)"
    by (rule read_loop_rule [OF loop, where R = ?R])
      (auto dest: locked_call_identity read_prefetch_identity)
  moreover have "identity (snd (read_finish ret bs s)) = identity s" for ret bs
    by (simp add: read_finish_def Let_def identity_def trust_def split: mret.splits)
  ultimately show ?thesis using res by (auto split: read_end.splits prod.splits) (metis snd_conv)
qed

lemma vtls_write_identity:
  assumes "vtls_write E buf \<sigma> = Some (r, \<sigma>')"
  shows "identity (fst \<sigma>') = identity (fst \<sigma>)"
proof -
  have loop: "identity (fst \<sigma>1) = identity (fst \<sigma>)" if "write_loop E buf \<sigma> = Some (e, \<sigma>1)" for e \<sigma> \<sigma>1
    using that by (induction rule: write_loop_rule) (auto dest: locked_call_identity)
  have finish: "identity s' = identity s" if "write_finish ret s = (r, s')" for ret s r s'
    using that by (auto simp: write_finish_def identity_def trust_def split: mret.splits if_splits)
  from assms show ?thesis
  proof (cases rule: vtls_write_cases)
    case Done
    then show ?thesis by (rule loop)
  next
    case (Locked ret s w s')
    from loop [OF Locked(1)] finish [OF Locked(3)] Locked(4) show ?thesis by simp
  next
    case (Flush ret s w ret2 s2 w2 s')
    have "identity s2 = identity s" using own_identity [OF call_ssl_frame(1) [OF Flush(3), simplified]]
      by (simp add: identity_def trust_def)
    with loop [OF Flush(1)] finish [OF Flush(4)] Flush(5) show ?thesis by simp
  qed
qed

lemma client_steps_identity:
  assumes "(client_step E rx edge)\<^sup>*\<^sup>* \<sigma> \<sigma>'"
  shows "identity (fst \<sigma>') = identity (fst \<sigma>)"
  using assms
proof (induction rule: rtranclp_induct)
  case (step \<sigma>1 \<sigma>2)
  from step(2) have "identity (fst \<sigma>2) = identity (fst \<sigma>1)"
  proof (cases rule: client_step.cases)
    case conn
    then show ?thesis
      by (cases rule: conn_step.cases)
        (auto simp: vtls_mark_readable_def dest: vtls_handshake_identity vtls_read_identity vtls_write_identity)
  next
    case (redial fd r)
    then have "vtls_session_reset E fd (fst \<sigma>1, snd \<sigma>1) = Some (r, fst \<sigma>2, snd \<sigma>2)" by simp
    then show ?thesis by (rule session_reset_fields) simp
  qed
  with step(3) show ?case by simp
qed simp

lemma client_steps_trust: "(client_step E rx edge)\<^sup>*\<^sup>* (s, w) (s', w') \<Longrightarrow> trust s' = trust s"
  by (drule client_steps_identity) (simp add: identity_def)

section \<open>Properties\<close>

text \<open>
  C6. An IP address is verified as one, for the session's whole life: a client session to a host that is
  an IP address, under \<^verbatim>\<open>VTLS_VERIFY_FULL\<close>, gives the library no host name, and after any number of
  handshakes, reads, writes and re-dials its callback accepts the server's own certificate as it is
  exactly when one of its iPAddress names is that address; else it adds the mismatch finding.
\<close>

theorem ip_host_checked_against_sans:
  assumes new: "vtls_client_session_new E c fd host w = Some (Some s, w')" and full: "verify c = VTLS_VERIFY_FULL"
    and ip: "ip_host (env_kernel E) host (replicate 16 0) (snd (env_calloc E (kst w))) = ((n, ip), k1)" and "n > 0"
    and steps: "(client_step E rx edge)\<^sup>*\<^sup>* (s, w') (s2, w2)"
  shows "(\<exists>m. ssl s = snd (ssl_set_hostname (env_lib E) None m)) \<and>
    cb_verify (session_callbacks E) sans 0 flags (s2, w2) =
      (if \<exists>san \<in> set sans. san_tag san AND ASN1_TAG_VALUE_MASK = X509_SAN_IP_ADDRESS \<and> san_p san = take n ip
       then flags else flags OR BADCERT_CN_MISMATCH)"
proof -
  note new = client_session_new_fields [OF new ip]
  have "trust s2 = trust s" by (rule client_steps_trust [OF steps])
  then have s2: "vrfy s2 = VrfyIpSan" "peer_ip s2 = ip" "peer_ip_len s2 = n"
    using new(1-3) full \<open>n > 0\<close> by (simp_all add: trust_def)
  have "n \<le> length ip"
    using ip_host_sizes [OF ip] by simp
  then show ?thesis
    using new(4) \<open>n > 0\<close> by (auto simp: session_callbacks_def s2 verify_ip_san_def ip_san_listed_iff)
qed

definition ip_env :: "(unit, unit) env" where
  "ip_env = plain_env clear_lib (no_kernel\<lparr>c_getaddrinfo :=
     (\<lambda>numeric host service k. (SysOk [(AF_INET, [10, 0, 0, 5])], k))\<rparr>)"

abbreviation (input) ip_ctx :: "int \<Rightarrow> unit vtls_ctx" where
  "ip_ctx v \<equiv> (plain_ctx ())\<lparr>verify := v\<rparr>"

lemma ip_env_facts:
  "ip_host (env_kernel ip_env) ''10.0.0.5'' (replicate 16 0) (snd (env_calloc ip_env (kst (plain_world () ()))))
     = ((4, [10, 0, 0, 5] @ replicate 12 0), ())"
  by (simp add: ip_env_def plain_env_def ip_host_def memcpy_at_def numeral_eq_Suc)

lemma ip_session_new:
  obtains s w' where "vtls_client_session_new ip_env c fd host (plain_world () ()) = Some (Some s, w')" "\<not> vtls_lock w'"
  by (simp add: vtls_client_session_new_def ip_env_def plain_env_def clear_lib_def null_lib_def VTLS_LOCK_def
      Let_def case_prod_beta plain_world_def)

theorem ip_host_checked_against_sans_witness:
  "\<exists>s w'. vtls_client_session_new ip_env (ip_ctx VTLS_VERIFY_FULL) 3 ''10.0.0.5'' (plain_world () ()) = Some (Some s, w') \<and>
     cb_verify (session_callbacks ip_env) [\<lparr>san_tag = 0x87, san_p = [10, 0, 0, 5]\<rparr>] 0 0 (s, w') = 0 \<and>
     cb_verify (session_callbacks ip_env) [\<lparr>san_tag = 0x87, san_p = [10, 0, 0, 6]\<rparr>] 0 0 (s, w') = 4"
proof (rule ip_session_new [of "ip_ctx VTLS_VERIFY_FULL" 3 "''10.0.0.5''"])
  fix s w'
  assume new: "vtls_client_session_new ip_env (ip_ctx VTLS_VERIFY_FULL) 3 ''10.0.0.5'' (plain_world () ()) = Some (Some s, w')"
  note check = ip_host_checked_against_sans [OF new _ ip_env_facts _ rtranclp.rtrancl_refl, where flags = 0]
  from check [of "[\<lparr>san_tag = 0x87, san_p = [10, 0, 0, 5]\<rparr>]"] check [of "[\<lparr>san_tag = 0x87, san_p = [10, 0, 0, 6]\<rparr>]"] new
  show ?thesis by simp
qed

lemma client_setup_level:
  assumes "client_setup E ca_file level c p = (MRet 0, c', p')"
  shows "verify c' = level" and "conf_vrfy c' = (if level = VTLS_VERIFY_CA then VrfyChainOnly else conf_vrfy c)"
    and "level \<noteq> VTLS_VERIFY_NONE \<Longrightarrow> \<exists>m. conf c' =
      (let required = snd (conf_call (env_lib E) ConfAuthRequired m)
       in if level = VTLS_VERIFY_CA then snd (conf_call (env_lib E) ConfVerifyChainOnly required) else required)"
  using assms
  by (auto simp: client_setup_def conf_void_def conf_checked_def Let_def case_prod_beta split: if_splits mret.splits)

lemma bit_mismatch: "bit (BADCERT_CN_MISMATCH :: u32) i \<longleftrightarrow> i = 2"
proof -
  have "(4 :: u32) = push_bit 2 1" by simp
  then show ?thesis by (auto simp only: bit_push_bit_iff bit_1_iff) auto
qed

text \<open>
  C17. A session checks certificates as its context was set up to, for its whole life, handshakes, reads, writes
  and re-dials included. After \<^verbatim>\<open>vtls_client_setup\<close> with \<^verbatim>\<open>VTLS_VERIFY_CA\<close> the callback Mbed TLS calls clears one
  finding, the name mismatch of the server's own certificate, and keeps every other finding of every
  certificate. After \<^verbatim>\<open>VTLS_VERIFY_FULL\<close> no finding is ever cleared, and none is added but to the server's own
  certificate of an IP host. Under both, the configuration requires a verified certificate.
\<close>

theorem verify_level_enforced:
  assumes ctx: "vtls_ctx_new E w0 = (Some c0, w1)"
    and conf: "vtls_client_setup E ca_file level c0 w2 = Some (MRet 0, c, w3)"
    and new: "vtls_client_session_new E c fd host w4 = Some (Some s, w5)"
    and ip: "ip_host (env_kernel E) host (replicate 16 0) (snd (env_calloc E (kst w4))) = ((n, ip), k1)"
    and steps: "(client_step E rx edge)\<^sup>*\<^sup>* (s, w5) (s', w')"
  shows "(level = VTLS_VERIFY_CA \<longrightarrow>
      bit (cb_verify (session_callbacks E) sans depth flags (s', w')) i = (bit flags i \<and> \<not> (depth = 0 \<and> i = 2))) \<and>
    (level = VTLS_VERIFY_FULL \<longrightarrow>
      (bit flags i \<longrightarrow> bit (cb_verify (session_callbacks E) sans depth flags (s', w')) i) \<and>
      (n = 0 \<or> depth \<noteq> 0 \<longrightarrow> cb_verify (session_callbacks E) sans depth flags (s', w') = flags)) \<and>
    (level \<noteq> VTLS_VERIFY_NONE \<longrightarrow> (\<exists>m. conf c =
      (let required = snd (conf_call (env_lib E) ConfAuthRequired m)
       in if level = VTLS_VERIFY_CA then snd (conf_call (env_lib E) ConfVerifyChainOnly required) else required)))"
proof -
  from conf obtain p p' where cs: "client_setup E ca_file level c0 p = (MRet 0, c, p')"
    by (auto simp: vtls_client_setup_def elim!: bind_SomeE split: prod.splits)
  note level = client_setup_level [OF cs]
  have "conf_vrfy c0 = NoVrfy" using ctx by (auto simp: vtls_ctx_new_def Let_def split: prod.splits if_splits)
  with level(1,2) client_session_new_fields(3) [OF new ip] client_steps_trust [OF steps]
  have cb: "vrfy s' = (if level = VTLS_VERIFY_CA then VrfyChainOnly
      else if n > 0 \<and> level = VTLS_VERIFY_FULL then VrfyIpSan else NoVrfy)"
    by (simp add: trust_def)
  have "bit flags i \<Longrightarrow> i < 32" using bit_imp_le_length [of flags i] by simp
  then have "bit (flags AND NOT BADCERT_CN_MISMATCH) i = (bit flags i \<and> i \<noteq> 2)"
    by (auto simp only: bit_and_iff bit_not_iff bit_mismatch) auto
  with level(3) show ?thesis
    by (auto simp: session_callbacks_def cb verify_chain_only_def verify_ip_san_def bit_or_iff simp del: bit_numeral_simps)
qed

definition ca_env :: "(unit, unit) env" where
  "ca_env = plain_env (clear_lib\<lparr>x509_crt_version := (\<lambda>m. 3)\<rparr>) no_kernel"

lemma ca_env_run:
  obtains c0 w1 c w3 s w5 where "vtls_ctx_new ca_env (plain_world () ()) = (Some c0, w1)"
    "vtls_client_setup ca_env ''ca.pem'' VTLS_VERIFY_CA c0 w1 = Some (MRet 0, c, w3)"
    "vtls_client_session_new ca_env c 3 ''db'' w3 = Some (Some s, w5)"
  by (simp add: vtls_ctx_new_def vtls_client_setup_def client_setup_def conf_checked_def conf_void_def
      vtls_client_session_new_def ca_env_def plain_env_def clear_lib_def null_lib_def VTLS_LOCK_def VTLS_UNLOCK_def
      Let_def case_prod_beta plain_world_def)

theorem verify_level_enforced_witness:
  "\<exists>c0 c s w1 w3 w5. vtls_ctx_new ca_env (plain_world () ()) = (Some c0, w1) \<and>
     vtls_client_setup ca_env ''ca.pem'' VTLS_VERIFY_CA c0 w1 = Some (MRet 0, c, w3) \<and>
     vtls_client_session_new ca_env c 3 ''db'' w3 = Some (Some s, w5) \<and>
     \<not> bit (cb_verify (session_callbacks ca_env) [] 0 (BADCERT_NOT_TRUSTED OR BADCERT_CN_MISMATCH) (s, w5)) 2 \<and>
     bit (cb_verify (session_callbacks ca_env) [] 0 (BADCERT_NOT_TRUSTED OR BADCERT_CN_MISMATCH) (s, w5)) 3"
proof (rule ca_env_run)
  fix c0 w1 c w3 s w5
  assume run: "vtls_ctx_new ca_env (plain_world () ()) = (Some c0, w1)"
    "vtls_client_setup ca_env ''ca.pem'' VTLS_VERIFY_CA c0 w1 = Some (MRet 0, c, w3)"
    "vtls_client_session_new ca_env c 3 ''db'' w3 = Some (Some s, w5)"
  obtain n ip k1 where "ip_host (env_kernel ca_env) ''db'' (replicate 16 0) (snd (env_calloc ca_env (kst w3))) = ((n, ip), k1)"
    by (metis surj_pair)
  note check = verify_level_enforced [OF run this rtranclp.rtrancl_refl, of "[]" 0 "BADCERT_NOT_TRUSTED OR BADCERT_CN_MISMATCH"]
  from check [of 2] check [of 3] have
    "\<not> bit (cb_verify (session_callbacks ca_env) [] 0 (BADCERT_NOT_TRUSTED OR BADCERT_CN_MISMATCH) (s, w5)) 2"
    "bit (cb_verify (session_callbacks ca_env) [] 0 (BADCERT_NOT_TRUSTED OR BADCERT_CN_MISMATCH) (s, w5)) 3"
    by simp_all
  with run show ?thesis by blast
qed

text \<open>What a reset leaves, from any state of the session.\<close>

lemma session_reset_state:
  assumes "vtls_session_reset E fd (s, w) = Some (r, s', w')" and "length (ra s) = VTLS_READAHEAD" and "\<not> vtls_lock w"
  shows "conn_ok rx edge fd (s', w')" and "pending rx (s', w') = rx (kst w)"
    and "closed s' = 0" and "\<not> parked s'" and "wpend s' = 0" and "last_err s' = MRet 0"
    and "\<not> vtls_peer_closed s'" and "\<not> vtls_peer_close_notify s'"
proof -
  from assms(1) obtain m where s': "s' = client_rearm (s\<lparr>ssl := m\<rparr>) fd" and w': "kst w' = kst w" "\<not> vtls_lock w'"
    using assms(3) session_reset_fields by blast
  show "conn_ok rx edge fd (s', w')" "pending rx (s', w') = rx (kst w)"
    using assms(2) w' unfolding s' client_rearm_def
    by (simp_all add: conn_ok_def session_wf_def awake_def tx_idle_def pending_def buffered_def segment_def)
  show "closed s' = 0" "\<not> parked s'" "wpend s' = 0" "last_err s' = MRet 0"
    "\<not> vtls_peer_closed s'" "\<not> vtls_peer_close_notify s'"
    by (simp_all add: s' client_rearm_def vtls_peer_closed_def vtls_peer_close_notify_def)
qed

text \<open>
  C14. A re-dial starts afresh: whatever happened on the old connections of a client session (bytes read ahead,
  an end of file or error latched, a ticket parked, a record pending, a failed handshake), after
  \<^verbatim>\<open>vtls_session_reset\<close> it is the session \<^verbatim>\<open>vtls_client_session_new\<close> made, on the new socket: every field is as it
  was then but the library's context, which Mbed TLS resets, the bytes of the (empty) read-ahead buffer, the
  per-call flag \<^verbatim>\<open>bio_want\<close>, and the key store no client fills. So it satisfies the connection invariant, its next
  bytes are the new stream's, and no latched end, parked ticket, pending record or error is left.
\<close>

theorem session_reset_fresh:
  assumes new: "vtls_client_session_new E c fd0 host w0 = Some (Some s0, w1)"
    and steps: "(client_step E rx0 edge0)\<^sup>*\<^sup>* (s0, w1) (s, w)"
    and reset: "vtls_session_reset E fd (s, w) = Some (r, s', w')"
    and "length (ra s) = VTLS_READAHEAD" and "\<not> vtls_lock w"
  shows "s' = s0\<lparr>net_fd := fd, ssl := ssl s', ra := ra s', bio_want := bio_want s', keys := keys s'\<rparr> \<and>
    closed s' = 0 \<and> \<not> parked s' \<and> wpend s' = 0 \<and> last_err s' = MRet 0 \<and>
    \<not> vtls_peer_closed s' \<and> \<not> vtls_peer_close_notify s' \<and>
    conn_ok rx edge fd (s', w') \<and> pending rx (s', w') = rx (kst w)"
proof -
  obtain n ip k1 where ip: "ip_host (env_kernel E) host (replicate 16 0) (snd (env_calloc E (kst w0))) = ((n, ip), k1)"
    by (metis surj_pair)
  note s0 = client_session_new_fields(5) [OF new ip]
  obtain m where s': "s' = client_rearm (s\<lparr>ssl := m\<rparr>) fd" using reset by (rule session_reset_fields)
  have id: "identity s = identity s0" using client_steps_identity [OF steps] by simp
  have "s' = s0\<lparr>net_fd := fd, ssl := ssl s', ra := ra s', bio_want := bio_want s', keys := keys s'\<rparr>"
    using id by (subst (asm) s0, subst s0)
      (simp add: s' client_rearm_def identity_def trust_def zero_session_def)
  with session_reset_state [OF reset assms(4,5)] show ?thesis by simp
qed

lemma session_reset_returns:
  assumes "\<not> vtls_lock w"
  obtains r s' w' where "vtls_session_reset E fd (s, w) = Some (r, s', w')"
proof -
  obtain w1 where "VTLS_LOCK E w = Some w1" using VTLS_LOCK_free [OF assms] by blast
  then show thesis by (intro that) (simp add: vtls_session_reset_def case_prod_beta)
qed

text \<open>A client session in the clear, after a read of its first connection.\<close>

lemma clear_client_read:
  obtains s0 w1 x s w where
    "vtls_client_session_new clear_env (plain_ctx ()) 7 ''db'' (plain_world () ([1, 2], [])) = Some (Some s0, w1)"
    "vtls_read clear_env 9 (s0, w1) = Some (x, s, w)" "length (ra s) = VTLS_READAHEAD" "\<not> vtls_lock w"
proof -
  obtain s0 w1 where new: "vtls_client_session_new clear_env (plain_ctx ()) 7 ''db'' (plain_world () ([1, 2], [])) = Some (Some s0, w1)"
      and free: "\<not> vtls_lock w1"
    by (simp add: vtls_client_session_new_def plain_env_def clear_lib_def null_lib_def VTLS_LOCK_def Let_def
        case_prod_beta plain_world_def)
  obtain n ip k1 where "ip_host (env_kernel clear_env) ''db'' (replicate 16 0)
      (snd (env_calloc clear_env (kst (plain_world () ([1, 2], []))))) = ((n, ip), k1)"
    by (metis surj_pair)
  note s0' = client_session_new_fields(5) [OF new this]
  have s0: "session_wf s0" "net_fd s0 = 7"
    by (subst s0', simp add: zero_session_def session_wf_def)+
  obtain e \<sigma>1 where "read_loop clear_env 9 0 (s0, w1) = Some (e, \<sigma>1)"
    using read_loop_returns [of clear_env "(s0, w1)" 9 0] queue_kernel_settles free by auto
  then have "vtls_read clear_env 9 (s0, w1) \<noteq> None"
    by (cases \<sigma>1) (simp add: vtls_read_def del: not_None_eq)
  then obtain x s w where rd: "vtls_read clear_env 9 (s0, w1) = Some (x, s, w)" by auto
  have "session_wf s" "\<not> vtls_lock w"
    using vtls_read_keeps(1) [OF rd, of fst "\<lambda>k. False"] vtls_read_keeps(2) [OF rd] queue_kernel_stream s0 free
    by (simp_all add: rx_keeps_def op_keeps_def)
  then show thesis by (intro that [OF new rd]) (simp_all add: session_wf_def)
qed

theorem session_reset_fresh_witness:
  "\<exists>s0 w1 x s w r s' w'.
     vtls_client_session_new clear_env (plain_ctx ()) 7 ''db'' (plain_world () ([1, 2], [])) = Some (Some s0, w1) \<and>
     vtls_read clear_env 9 (s0, w1) = Some (x, s, w) \<and> vtls_session_reset clear_env 8 (s, w) = Some (r, s', w') \<and>
     closed s' = 0 \<and> \<not> parked s' \<and> conn_ok fst (\<lambda>k. False) 8 (s', w')"
proof (rule clear_client_read)
  fix s0 w1 x s w
  assume new: "vtls_client_session_new clear_env (plain_ctx ()) 7 ''db'' (plain_world () ([1, 2], [])) = Some (Some s0, w1)"
    and rd: "vtls_read clear_env 9 (s0, w1) = Some (x, s, w)" and wf: "length (ra s) = VTLS_READAHEAD" "\<not> vtls_lock w"
  have steps: "(client_step clear_env fst (\<lambda>k. False))\<^sup>*\<^sup>* (s0, w1) (s, w)"
    by (intro r_into_rtranclp client_step.conn conn_step.read [OF rd])
  obtain r s' w' where reset: "vtls_session_reset clear_env 8 (s, w) = Some (r, s', w')"
    using wf(2) by (rule session_reset_returns)
  from session_reset_fresh [OF new steps reset wf, of fst "\<lambda>k. False"] new rd reset show ?thesis by blast
qed

text \<open>
  C22. A session that must not write its socket is freed in silence: on a kTLS session, and on one detached
  from its socket by a reset to a negative descriptor, \<^verbatim>\<open>vtls_session_free\<close> returns without a system call
  (no close_notify in a wrong frame or on a closed descriptor) and gives the lock back.
\<close>

theorem session_free_silent:
  assumes "\<not> vtls_lock w" and "ktls s \<or> (\<exists>fd r s0 w0. fd < 0 \<and> vtls_session_reset E fd (s0, w0) = Some (r, s, w))"
  shows "\<exists>w'. vtls_session_free E (Some s) w = Some w' \<and> kst w' = kst w \<and> \<not> vtls_lock w'"
proof -
  have quiet: "ktls s \<or> net_fd s < 0"
    using assms(2) by (auto elim: session_reset_fields)
  obtain w1 where lock: "VTLS_LOCK E w = Some w1"
    using VTLS_LOCK_free [OF assms(1)] by blast
  then have "kst w1 = kst w" "threading_c E \<Longrightarrow> \<not> vtls_lock w1"
    using assms(1) by (auto simp: VTLS_LOCK_def split: if_splits)
  with lock quiet show ?thesis
    by (auto simp: vtls_session_free_def)
qed

theorem session_free_silent_witness:
  "\<exists>w'. vtls_session_free clear_env (Some (clear_session\<lparr>ktls := True\<rparr>)) (plain_world () ([1], [2])) = Some w' \<and>
     kst w' = ([1], [2])"
  using session_free_silent [of "plain_world () ([1], [2])" "clear_session\<lparr>ktls := True\<rparr>" clear_env] by auto

lemma memcpy_at_within:
  assumes "length src \<le> len"
  shows "drop len (memcpy_at dst 0 src) = drop len dst" and "set src \<subseteq> set (take len (memcpy_at dst 0 src))"
  using assms by (simp_all add: memcpy_at_def)

lemma snprintf_to_bounds:
  assumes "0 < len" and "len \<le> length buf"
  shows "length (snprintf_to buf len text) = length buf" and "drop len (snprintf_to buf len text) = drop len buf"
    and "CHR 0x00 \<in> set (take len (snprintf_to buf len text))"
proof -
  let ?src = "take (len - 1) text @ [CHR 0x00]"
  have "length ?src \<le> len" "snprintf_to buf len text = memcpy_at buf 0 ?src"
    using assms(1) by (auto simp: snprintf_to_def)
  then show "length (snprintf_to buf len text) = length buf" "drop len (snprintf_to buf len text) = drop len buf"
    "CHR 0x00 \<in> set (take len (snprintf_to buf len text))"
    using memcpy_at_within [of ?src len buf] assms(2) by auto
qed

lemma c_text_snprintf_to:
  assumes "0 < len"
  shows "set (c_text (snprintf_to buf len text)) \<subseteq> set text"
proof -
  have "c_text (snprintf_to buf len text) = c_text (take (len - 1) text)"
    using assms by (simp add: c_text_def snprintf_to_def memcpy_at_def takeWhile_tail)
  then show ?thesis
    by (auto simp: c_text_def dest!: set_takeWhileD in_set_takeD)
qed

lemma join_info_no_newline: "CHR 0x0A \<notin> set (join_info info)"
  by (auto simp: join_info_def c_text_def dest!: set_takeWhileD)

text \<open>
  C23. Error texts stay in their buffer: whatever went wrong, \<^verbatim>\<open>vtls_handshake_error\<close> writes a terminated
  string within the first \<open>len\<close> characters and nothing past them, and a certificate's findings are
  joined on one line.
\<close>

theorem handshake_error_bounded:
  assumes "len \<le> length buf" and "0 < len"
  shows "length (vtls_handshake_error L s buf len) = length buf \<and>
    drop len (vtls_handshake_error L s buf len) = drop len buf \<and>
    CHR 0x00 \<in> set (take len (vtls_handshake_error L s buf len)) \<and>
    (vtls_verify_failed s \<and> ssl_get_verify_result L (ssl s) \<notin> {0, - 1} \<longrightarrow>
       CHR 0x0A \<notin> set (c_text (vtls_handshake_error L s buf len)))"
proof -
  have "drop len (buf[0 := CHR 0x00]) = drop len buf"
    using assms(2) by (cases buf; cases len) simp_all
  then have out: "\<exists>text. vtls_handshake_error L s buf len = snprintf_to (buf[0 := CHR 0x00]) len text"
    using assms(2) by (auto simp: vtls_handshake_error_def vtls_error_string_def Let_def)
  have "CHR 0x0A \<notin> set (c_text (vtls_handshake_error L s buf len))"
    if "vtls_verify_failed s" "ssl_get_verify_result L (ssl s) \<notin> {0, - 1}"
  proof -
    let ?flags = "ssl_get_verify_result L (ssl s)"
    let ?text = "verify_what ?flags @ '': '' @ join_info (verify_info L s ?flags)"
    have "vtls_handshake_error L s buf len = snprintf_to (buf[0 := CHR 0x00]) len ?text"
      using that assms(2) by (simp add: vtls_handshake_error_def vtls_verify_failed_def Let_def)
    moreover have "CHR 0x0A \<notin> set ?text"
      using join_info_no_newline by (simp add: verify_what_def)
    ultimately show ?thesis
      using c_text_snprintf_to [OF assms(2), of "buf[0 := CHR 0x00]" ?text] by auto
  qed
  with out snprintf_to_bounds [of len "buf[0 := CHR 0x00]"] assms \<open>drop len (buf[0 := CHR 0x00]) = drop len buf\<close>
  show ?thesis by auto
qed

theorem handshake_error_bounded_witness:
  "CHR 0x00 \<in> set (take 8 (vtls_handshake_error (null_lib ()) (zero_session ()) (replicate 10 CHR ''x'') 8)) \<and>
   drop 8 (vtls_handshake_error (null_lib ()) (zero_session ()) (replicate 10 CHR ''x'') 8) = ''xx''"
  using handshake_error_bounded [of 8 "replicate 10 CHR ''x''" "null_lib ()" "zero_session ()"] by (simp add: numeral_eq_Suc)

end
