(* ===== verification/Bytes.thy ===== *)
theory Bytes
  imports Prelude
begin

text \<open>
  Big-endian integers on the wire, shared by the codecs: a word cut into bytes and read back. The codecs
  write their shifts and masks out as the source does; the lemmas here connect them to this one form.
\<close>

definition ascii :: "string \<Rightarrow> byte list" where
  "ascii s = map (\<lambda>c. of_nat (of_char c)) s"

definition be_bytes :: "nat \<Rightarrow> 'a::len word \<Rightarrow> byte list" where
  "be_bytes n w = map (\<lambda>i. ucast (drop_bit (8 * (n - 1 - i)) w)) [0..<n]"

definition be_word :: "byte list \<Rightarrow> 'a::len word" where
  "be_word bs = foldl (\<lambda>acc b. push_bit 8 acc OR ucast b) 0 bs"

lemma length_be_bytes [simp]: "length (be_bytes n w) = n"
  by (simp add: be_bytes_def)

lemma be_bytes_Suc: "be_bytes (Suc n) w = be_bytes n (drop_bit 8 w) @ [ucast w]"
proof -
  have "be_bytes n (drop_bit 8 w) ! i = be_bytes (Suc n) w ! i" if "i < n" for i
  proof -
    have "8 * (n - Suc i) + 8 = 8 * (n - i)" using that by simp
    then show ?thesis using that by (simp add: be_bytes_def nth_append)
  qed
  then show ?thesis
    by (intro nth_equalityI) (auto simp: nth_append less_Suc_eq be_bytes_def)
qed

lemma be_word_snoc: "be_word (bs @ [b]) = push_bit 8 (be_word bs) OR ucast b"
  by (simp add: be_word_def)

lemma be_word_bytes: "be_word (be_bytes n w) = take_bit (8 * n) (w :: 'a::len word)"
proof (induction n arbitrary: w)
  case (Suc n)
  have "push_bit 8 (take_bit (8 * n) (drop_bit 8 w)) OR ucast (ucast w :: byte) = take_bit (8 * n + 8) w"
    by (rule bit_word_eqI) (auto simp: bit_simps)
  with Suc show ?case by (simp add: be_bytes_Suc be_word_snoc add.commute)
qed (simp add: be_bytes_def be_word_def)

lemma take_bit_unat: "unat w < 2 ^ n \<Longrightarrow> take_bit n w = w"
  by (metis take_bit_nat_eq_self unsigned_take_bit_eq word_unat_eq_iff)

lemma bit_less: "unat (w :: 'a::len word) < 2 ^ n \<Longrightarrow> bit w j \<Longrightarrow> j < n"
  by (metis bit_take_bit_iff take_bit_nat_eq_self_iff unsigned_take_bit_eq word_unat_eq_iff)

lemma decr_mask: "push_bit n 1 - 1 = (mask n :: 'a::len word)"
  by (simp add: mask_eq_decr_exp push_bit_eq_mult)

lemma unat_mask: "n \<le> LENGTH('a::len) \<Longrightarrow> unat (mask n :: 'a word) = 2 ^ n - 1"
proof -
  assume n: "n \<le> LENGTH('a)"
  have "unat (of_nat (mask n) :: 'a word) = take_bit LENGTH('a) (mask n)" by (simp only: unsigned_of_nat) simp
  also have "\<dots> = mask n" using n by (simp add: take_bit_of_mask min_def)
  finally have "unat (mask n :: 'a word) = mask n" by (simp only: of_nat_mask_eq)
  then show ?thesis by (simp only: mask_nat_def)
qed

lemma be_word_bytes_id: "unat w < 2 ^ (8 * n) \<Longrightarrow> be_word (be_bytes n w) = w"
  by (simp add: be_word_bytes take_bit_unat)

lemma be_word_bit: "bit (be_word bs :: 'a::len word) n \<Longrightarrow> n < 8 * length bs"
proof (induction bs arbitrary: n rule: rev_induct)
  case (snoc b bs)
  then consider "8 \<le> n" "bit (be_word bs :: 'a word) (n - 8)" | "bit b n"
    by (auto simp: be_word_snoc bit_simps)
  then show ?case
  proof cases
    case 1
    with snoc.IH [of "n - 8"] show ?thesis by simp
  next
    case 2
    then show ?thesis using bit_imp_le_length [of b n] by simp
  qed
qed (simp add: be_word_def)

lemma be_word_less: "unat (be_word bs :: 'a::len word) < 2 ^ (8 * length bs)"
proof -
  have "take_bit (8 * length bs) (be_word bs :: 'a word) = be_word bs"
    using be_word_bit [of bs, where 'a = 'a] by (auto simp: bit_simps intro!: bit_word_eqI)
  then have "unat (be_word bs :: 'a word) = take_bit (8 * length bs) (unat (be_word bs :: 'a word))"
    by (metis unsigned_take_bit_eq)
  also have "\<dots> < 2 ^ (8 * length bs)"
    by (rule take_bit_nat_less_exp)
  finally show ?thesis .
qed

text \<open>The forms the sources write: shifts joined by \<^verbatim>\<open>|\<close>, and each byte shifted and masked.\<close>

lemma be_word_4:
  "(push_bit 24 (ucast a) OR push_bit 16 (ucast b) OR push_bit 8 (ucast c) OR ucast d :: 'a::len word) = be_word [a, b, c, d]"
  by (rule bit_word_eqI) (auto simp: be_word_def bit_simps)

lemma be_word_3:
  "(push_bit 16 (ucast a) OR push_bit 8 (ucast b) OR ucast c :: 'a::len word) = be_word [a, b, c]"
  by (rule bit_word_eqI) (auto simp: be_word_def bit_simps)

lemma be_word_2: "(push_bit 8 (ucast a) OR ucast b :: 'a::len word) = be_word [a, b]"
  by (rule bit_word_eqI) (auto simp: be_word_def bit_simps)

lemma ucast_mask_byte [simp]: "(ucast ((w :: 'a::len word) AND 0xff) :: byte) = ucast w"
proof -
  have "(0xff :: 'a word) = mask 8" by (simp add: mask_eq_exp_minus_1)
  show ?thesis
    unfolding \<open>0xff = mask 8\<close> by (intro bit_word_eqI) (auto simp: bit_simps dest: bit_imp_le_length)
qed

lemma and_255: "(n :: nat) AND 0xff = n mod 256"
proof -
  have "(0xff :: nat) = mask 8" by (simp add: mask_nat_def)
  then show ?thesis by (simp only: flip: take_bit_eq_mask) (simp add: take_bit_eq_mod)
qed

lemma be_bytes_4: "be_bytes 4 w = [ucast (drop_bit 24 w), ucast (drop_bit 16 w), ucast (drop_bit 8 w), ucast w]"
  by (simp add: be_bytes_def upt_rec)

lemma be_bytes_3: "be_bytes 3 w = [ucast (drop_bit 16 w), ucast (drop_bit 8 w), ucast w]"
  by (simp add: be_bytes_def upt_rec)

lemma be_bytes_2: "be_bytes 2 w = [ucast (drop_bit 8 w), ucast w]"
  by (simp add: be_bytes_def upt_rec)

end
