(* ===== verification/Ktls.thy ===== *)
theory Ktls
  imports Tls_Io Bytes
begin

text \<open>
  The kTLS handoff of \<^verbatim>\<open>src/tls/vanilla_tls.c\<close>: deriving the record keys from the captured traffic
  secrets (HKDF-Expand-Label, RFC 8446 section 7.1), installing them in the kernel, falling back
  cleanly, and the one-time log lines.
\<close>

section \<open>Key derivation\<close>

text \<open>The info array of 26 bytes and its used part; \<open>None\<close> when the label does not fit.\<close>

definition hkdf_label :: "byte list \<Rightarrow> nat \<Rightarrow> byte list option" where
  "hkdf_label label out_len =
     (let full_len = 6 + length label in
      if full_len > 255 \<or> 3 + full_len + 1 > 2 + 1 + 6 + 16 + 1 then None
      else Some ([of_nat (out_len div 256), of_nat (out_len mod 256), of_nat full_len] @
                 ascii ''tls13 '' @ label @ [0]))"

definition hkdf_expand_label ::
  "'m mbedtls \<Rightarrow> byte list \<Rightarrow> byte list \<Rightarrow> nat \<Rightarrow> 'm \<Rightarrow> byte list option \<times> 'm" where
  "hkdf_expand_label L secret label out_len p =
     (case hkdf_label label out_len of
        None \<Rightarrow> (None, p)
      | Some info \<Rightarrow>
          (let (ok1, p1) = kd_setup L p in
           if \<not> ok1 then (None, kd_abort L p1)
           else
             (let (ok2, p2) = kd_input_secret L secret p1 in
              if \<not> ok2 then (None, kd_abort L p2)
              else
                (let (ok3, p3) = kd_input_info L info p2 in
                 if \<not> ok3 then (None, kd_abort L p3)
                 else (let (out, p4) = kd_output L out_len p3 in (out, kd_abort L p4))))))"

definition zero_crypto_info :: crypto_info where
  "zero_crypto_info = \<lparr>ci_version = 0, ci_cipher_type = 0, ci_iv = replicate 8 0,
     ci_key = replicate 16 0, ci_salt = replicate 4 0, ci_rec_seq = replicate 8 0\<rparr>"

definition fill_crypto_info :: "'m mbedtls \<Rightarrow> byte list \<Rightarrow> 'm \<Rightarrow> crypto_info option \<times> 'm" where
  "fill_crypto_info L secret p =
     (case hkdf_expand_label L secret (ascii ''key'') 16 p of
        (None, p1) \<Rightarrow> (None, p1)
      | (Some key, p1) \<Rightarrow>
          (case hkdf_expand_label L secret (ascii ''iv'') 12 p1 of
             (None, p2) \<Rightarrow> (None, p2)
           | (Some iv12, p2) \<Rightarrow>
               (Some (zero_crypto_info\<lparr>ci_version := 0x0304, ci_cipher_type := 51,
                  ci_key := take 16 key, ci_salt := take 4 iv12, ci_iv := take 8 (drop 4 iv12)\<rparr>), p2)))"

section \<open>One-time log lines\<close>

text \<open>\<^verbatim>\<open>ktls_first\<close> over each of the four flags: the line is printed by the call that claims the flag.\<close>

definition ktls_first :: "bool \<Rightarrow> bool \<times> bool" where
  "ktls_first flag = (if flag then (False, flag) else (\<not> flag, True))"

definition log_tickets :: "('m, 'k) world \<Rightarrow> ('m, 'k) world" where
  "log_tickets w = (let (first, flag) = ktls_first (ktls_logged_tickets w) in
     w\<lparr>ktls_logged_tickets := flag, stderr := stderr w @ (if first then [LogTickets] else [])\<rparr>)"

definition log_off :: "('m, 'k) world \<Rightarrow> ('m, 'k) world" where
  "log_off w = (let (first, flag) = ktls_first (ktls_logged_off w) in
     w\<lparr>ktls_logged_off := flag, stderr := stderr w @ (if first then [LogOptOut] else [])\<rparr>)"

definition log_fb :: "log_line \<Rightarrow> ('m, 'k) world \<Rightarrow> ('m, 'k) world" where
  "log_fb line w = (let (first, flag) = ktls_first (ktls_logged_fb w) in
     w\<lparr>ktls_logged_fb := flag, stderr := stderr w @ (if first then [line] else [])\<rparr>)"

definition ktls_log_fb :: "string \<Rightarrow> ('m, 'k) world \<Rightarrow> ('m, 'k) world" where
  "ktls_log_fb why = log_fb (LogFallback why)"

definition log_ok :: "bool \<Rightarrow> ('m, 'k) world \<Rightarrow> ('m, 'k) world" where
  "log_ok rx_no_pad w = (let (first, flag) = ktls_first (ktls_logged_ok w) in
     w\<lparr>ktls_logged_ok := flag, stderr := stderr w @ (if first then [LogEngaged rx_no_pad] else [])\<rparr>)"

section \<open>The handoff\<close>

text \<open>The code after the label \<^verbatim>\<open>done\<close>.\<close>

definition ktls_done :: "'m vtls_session \<Rightarrow> ('m, 'k) world \<Rightarrow> int \<times> 'm vtls_session \<times> ('m, 'k) world" where
  "ktls_done s w = (if ktls s then 1 else 0, s\<lparr>keys := zero_keys, readahead := \<not> ktls s\<rparr>, w)"

text \<open>Past the attach of the ULP: installing the keys.\<close>

definition ktls_install ::
  "('m, 'k) env \<Rightarrow> crypto_info \<Rightarrow> crypto_info \<Rightarrow> int \<Rightarrow> 'm vtls_session \<Rightarrow> ('m, 'k) world \<Rightarrow>
   int \<times> 'm vtls_session \<times> ('m, 'k) world" where
  "ktls_install E tx rx fd s w =
     (case k_setsockopt (env_kernel E) fd (TLS_TX tx) (kst w) of
        (SysErr e, k1) \<Rightarrow> ktls_done (s\<lparr>ktls_failed := True\<rparr>) (w\<lparr>kst := k1\<rparr>)
      | (SysOk u, k1) \<Rightarrow>
          (case k_setsockopt (env_kernel E) fd (TLS_RX rx) k1 of
             (SysErr e, k2) \<Rightarrow> ktls_done (s\<lparr>ktls_failed := True\<rparr>) (w\<lparr>kst := k2\<rparr>)
           | (SysOk u, k2) \<Rightarrow>
               (let s1 = s\<lparr>ktls := True\<rparr>;
                    (no_pad, k3) =
                      (if ktls_rx_no_pad s1
                       then (case k_setsockopt (env_kernel E) fd (TLS_RX_EXPECT_NO_PAD 1) k2 of
                               (SysOk u, k3) \<Rightarrow> (True, k3) | (SysErr e, k3) \<Rightarrow> (False, k3))
                       else (False, k2))
                in ktls_done s1 (log_ok no_pad (w\<lparr>kst := k3\<rparr>)))))"

definition enable_ktls ::
  "('m, 'k) env \<Rightarrow> int \<Rightarrow> 'm vtls_session \<Rightarrow> ('m, 'k) world \<Rightarrow> int \<times> 'm vtls_session \<times> ('m, 'k) world" where
  "enable_ktls E fd s w =
     (let L = env_lib E in
      if tickets s then ktls_done s (log_tickets w)
      else if ktls_off s then ktls_done s (log_off w)
      else if ssl_get_ciphersuite_id L (ssl s) \<noteq> TLS1_3_AES_128_GCM_SHA256
      then ktls_done s (ktls_log_fb ''ciphersuite is not TLS_AES_128_GCM_SHA256'' w)
      else if \<not> have_server (keys s) \<or> \<not> have_client (keys s)
      then ktls_done s (ktls_log_fb ''traffic secrets not exported'' w)
      else if ssl_get_bytes_avail L (ssl s) \<noteq> 0 \<or> ssl_check_pending L (ssl s) \<or> ra_off s < ra_len s
      then ktls_done s (ktls_log_fb ''mbedtls holds buffered plaintext at handoff'' w)
      else
        (case fill_crypto_info L (server_app_secret (keys s)) (psa w) of
           (None, p1) \<Rightarrow> ktls_done s (ktls_log_fb ''key derivation failed (TX)'' (w\<lparr>psa := p1\<rparr>))
         | (Some tx, p1) \<Rightarrow>
             (case fill_crypto_info L (client_app_secret (keys s)) p1 of
                (None, p2) \<Rightarrow> ktls_done s (ktls_log_fb ''key derivation failed (RX)'' (w\<lparr>psa := p2\<rparr>))
              | (Some rx, p2) \<Rightarrow>
                  (let w2 = w\<lparr>psa := p2\<rparr> in
                   case k_setsockopt (env_kernel E) fd (TCP_ULP ''tls'') (kst w2) of
                     (SysErr e, k1) \<Rightarrow> ktls_done s (log_fb (LogUlpFailed e) (w2\<lparr>kst := k1\<rparr>))
                   | (SysOk u, k1) \<Rightarrow> ktls_install E tx rx fd s (w2\<lparr>kst := k1\<rparr>)))))"

definition vtls_enable_ktls ::
  "('m, 'k) env \<Rightarrow> int \<Rightarrow> ('m, 'k) tls_state \<Rightarrow> (int \<times> ('m, 'k) tls_state) option" where
  "vtls_enable_ktls E fd = (\<lambda>(s, w). do {
     w1 \<leftarrow> VTLS_LOCK E w;
     let (r, s', w2) = enable_ktls E fd s w1;
     Some (r, s', VTLS_UNLOCK E w2)
   })"

definition vtls_ktls_active :: "'m vtls_session \<Rightarrow> bool" where
  "vtls_ktls_active s = ktls s"

definition vtls_ktls_failed :: "'m vtls_session \<Rightarrow> bool" where
  "vtls_ktls_failed s = ktls_failed s"

text \<open>The alert is one \<^verbatim>\<open>sendmsg\<close> of a record of type 21 (alert); its result is ignored.\<close>

definition vtls_ktls_abort ::
  "('m, 'k) env \<Rightarrow> 'm vtls_session option \<Rightarrow> ('m, 'k) world \<Rightarrow> ('m, 'k) world" where
  "vtls_ktls_abort E sess w =
     (case sess of
        None \<Rightarrow> w
      | Some s \<Rightarrow>
          if \<not> ktls s then w
          else w\<lparr>kst := snd (k_sendmsg (env_kernel E) (net_fd s) [[2, 80]] (Some (21, [MSG_NOSIGNAL])) (kst w))\<rparr>)"

section \<open>Lemmas\<close>

lemmas log_defs = log_tickets_def log_off_def log_fb_def ktls_log_fb_def log_ok_def ktls_first_def

lemma log_sel [simp]:
  "kst (log_tickets w) = kst w" "kst (log_off w) = kst w" "kst (log_fb l w) = kst w"
  "kst (ktls_log_fb why w) = kst w" "kst (log_ok b w) = kst w"
  by (simp_all add: log_defs)

text \<open>Every path of \<^verbatim>\<open>enable_ktls\<close> is a fallback before the ULP, a failed ULP, or an installation.\<close>

definition ktls_eligible :: "'m mbedtls \<Rightarrow> 'm vtls_session \<Rightarrow> bool" where
  "ktls_eligible L s \<longleftrightarrow>
     \<not> tickets s \<and> \<not> ktls_off s \<and> ssl_get_ciphersuite_id L (ssl s) = TLS1_3_AES_128_GCM_SHA256 \<and>
     have_server (keys s) \<and> have_client (keys s) \<and>
     ssl_get_bytes_avail L (ssl s) = 0 \<and> \<not> ssl_check_pending L (ssl s) \<and> ra_len s \<le> ra_off s"

lemma enable_ktls_cases [case_names Ineligible NoKeys NoUlp Install]:
  obtains
    (Ineligible) w1 where "\<not> ktls_eligible (env_lib E) s" "enable_ktls E fd s w = ktls_done s w1" "kst w1 = kst w"
  | (NoKeys) w1 where "ktls_eligible (env_lib E) s" "enable_ktls E fd s w = ktls_done s w1" "kst w1 = kst w"
  | (NoUlp) e k1 w1 where "ktls_eligible (env_lib E) s"
      "k_setsockopt (env_kernel E) fd (TCP_ULP ''tls'') (kst w) = (SysErr e, k1)"
      "enable_ktls E fd s w = ktls_done s w1" "kst w1 = k1"
  | (Install) tx p1 rx p2 k1 where "ktls_eligible (env_lib E) s"
      "fill_crypto_info (env_lib E) (server_app_secret (keys s)) (psa w) = (Some tx, p1)"
      "fill_crypto_info (env_lib E) (client_app_secret (keys s)) p1 = (Some rx, p2)"
      "k_setsockopt (env_kernel E) fd (TCP_ULP ''tls'') (kst w) = (SysOk (), k1)"
      "enable_ktls E fd s w = ktls_install E tx rx fd s (w\<lparr>psa := p2, kst := k1\<rparr>)"
proof (cases "ktls_eligible (env_lib E) s")
  case False
  then have "enable_ktls E fd s w \<in> ktls_done s ` {w1. kst w1 = kst w}"
    unfolding enable_ktls_def Let_def ktls_eligible_def by (auto simp: not_le)
  with False show thesis by (auto intro: Ineligible)
next
  case ok: True
  obtain tx p1 where f1: "fill_crypto_info (env_lib E) (server_app_secret (keys s)) (psa w) = (tx, p1)"
    by fastforce
  show thesis
  proof (cases tx)
    case None
    with ok f1 have "enable_ktls E fd s w
        = ktls_done s (ktls_log_fb ''key derivation failed (TX)'' (w\<lparr>psa := p1\<rparr>))"
      by (simp add: ktls_eligible_def enable_ktls_def)
    from ok this show thesis by (rule NoKeys) simp
  next
    case tx: (Some t)
    obtain rx p2 where f2: "fill_crypto_info (env_lib E) (client_app_secret (keys s)) p1 = (rx, p2)"
      by fastforce
    show thesis
    proof (cases rx)
      case None
      with ok f1 f2 tx have "enable_ktls E fd s w
          = ktls_done s (ktls_log_fb ''key derivation failed (RX)'' (w\<lparr>psa := p2\<rparr>))"
        by (simp add: ktls_eligible_def enable_ktls_def)
      from ok this show thesis by (rule NoKeys) simp
    next
      case rx: (Some r)
      show thesis
      proof (cases "k_setsockopt (env_kernel E) fd (TCP_ULP ''tls'') (kst w)" rule: syscall_cases)
        case (Ok u k1)
        with ok f1 f2 tx rx show thesis by (intro Install) (simp_all add: ktls_eligible_def enable_ktls_def)
      next
        case (Err e k1)
        with ok f1 f2 tx rx have "enable_ktls E fd s w
            = ktls_done s (log_fb (LogUlpFailed e) (w\<lparr>psa := p2, kst := k1\<rparr>))"
          by (simp add: ktls_eligible_def enable_ktls_def)
        from ok Err this show thesis by (rule NoUlp) simp
      qed
    qed
  qed
qed

lemma ktls_install_cases [case_names TxFailed RxFailed Engaged]:
  obtains
    (TxFailed) e k1 where "k_setsockopt (env_kernel E) fd (TLS_TX tx) (kst w) = (SysErr e, k1)"
      "ktls_install E tx rx fd s w = ktls_done (s\<lparr>ktls_failed := True\<rparr>) (w\<lparr>kst := k1\<rparr>)"
  | (RxFailed) k1 e k2 where "k_setsockopt (env_kernel E) fd (TLS_TX tx) (kst w) = (SysOk (), k1)"
      "k_setsockopt (env_kernel E) fd (TLS_RX rx) k1 = (SysErr e, k2)"
      "ktls_install E tx rx fd s w = ktls_done (s\<lparr>ktls_failed := True\<rparr>) (w\<lparr>kst := k2\<rparr>)"
  | (Engaged) k1 k2 w1 where "k_setsockopt (env_kernel E) fd (TLS_TX tx) (kst w) = (SysOk (), k1)"
      "k_setsockopt (env_kernel E) fd (TLS_RX rx) k1 = (SysOk (), k2)"
      "ktls_install E tx rx fd s w = ktls_done (s\<lparr>ktls := True\<rparr>) w1"
proof (cases "k_setsockopt (env_kernel E) fd (TLS_TX tx) (kst w)" rule: syscall_cases)
  case tx: (Ok u k1)
  show thesis
  proof (cases "k_setsockopt (env_kernel E) fd (TLS_RX rx) k1" rule: syscall_cases)
    case (Ok v k2)
    with tx show thesis by (intro Engaged) (simp_all add: ktls_install_def Let_def case_prod_beta)
  next
    case (Err e k2)
    with tx show thesis by (intro RxFailed) (simp_all add: ktls_install_def)
  qed
next
  case (Err e k1)
  then show thesis by (intro TxFailed) (simp_all add: ktls_install_def)
qed

section \<open>A concrete handoff\<close>

text \<open>A library on the pinned suite, a kernel that accepts every option, and a finished handshake.\<close>

definition ktls_env :: "unit kernel \<Rightarrow> (unit, unit) env" where
  "ktls_env = plain_env ((null_lib ())\<lparr>ssl_get_ciphersuite_id := (\<lambda>m. 0x1301)\<rparr>)"

definition accepting_kernel :: "unit kernel" where
  "accepting_kernel = no_kernel\<lparr>k_setsockopt := (\<lambda>fd opt k. (SysOk (), k))\<rparr>"

definition ktls_session :: "unit vtls_session" where
  "ktls_session = (zero_session ())\<lparr>keys := zero_keys\<lparr>have_client := True, have_server := True\<rparr>\<rparr>"

lemma ktls_session_sel: "\<not> ktls ktls_session" "\<not> ktls_failed ktls_session"
  by (simp_all add: ktls_session_def zero_session_def)

lemma ktls_session_fills:
  "\<exists>ci. fill_crypto_info (env_lib (ktls_env K)) secret p = (Some ci, ())"
  by (simp add: fill_crypto_info_def hkdf_expand_label_def hkdf_label_def ascii_def ktls_env_def plain_env_def null_lib_def)

lemma ktls_session_eligible: "ktls_eligible (env_lib (ktls_env K)) ktls_session"
  by (simp add: ktls_eligible_def ktls_session_def zero_session_def zero_keys_def ktls_env_def plain_env_def null_lib_def)

lemma ktls_engages:
  obtains s' w' where "enable_ktls (ktls_env accepting_kernel) 5 ktls_session (plain_world () ()) = (1, s', w')" "vtls_ktls_active s'"
proof -
  let ?E = "ktls_env accepting_kernel" and ?w = "plain_world () () :: (unit, unit) world"
  have ok: "k_setsockopt (env_kernel ?E) fd opt k = (SysOk (), k)" for fd opt k
    by (simp add: ktls_env_def plain_env_def accepting_kernel_def)
  from ktls_session_fills [of accepting_kernel] obtain tx rx where
    "fill_crypto_info (env_lib ?E) (server_app_secret (keys ktls_session)) () = (Some tx, ())"
    "fill_crypto_info (env_lib ?E) (client_app_secret (keys ktls_session)) () = (Some rx, ())"
    by metis
  with ktls_session_eligible [of accepting_kernel] ok
  have "enable_ktls ?E 5 ktls_session ?w = ktls_install ?E tx rx 5 ktls_session ?w"
    by (simp add: enable_ktls_def ktls_eligible_def plain_world_def)
  then show thesis
    using ok that by (simp add: ktls_install_def ktls_done_def Let_def vtls_ktls_active_def split: if_splits)
qed

section \<open>Properties\<close>

text \<open>
  C15. The outcome of a handoff is consistent on every path: 1 is returned exactly when kTLS is on, the
  userspace copies of the traffic secrets are wiped, reads go through the read-ahead exactly when the
  session stays in userspace, and kTLS is never reported both on and failed.
\<close>

theorem enable_ktls_consistent:
  assumes "enable_ktls E fd s w = (r, s', w')" and "\<not> ktls s" and "\<not> ktls_failed s"
  shows "r = (if vtls_ktls_active s' then 1 else 0) \<and> keys s' = zero_keys \<and>
    readahead s' = (\<not> ktls s') \<and> \<not> (vtls_ktls_active s' \<and> vtls_ktls_failed s')"
proof (cases rule: enable_ktls_cases [of E s fd w])
  case (Install tx p1 rx p2 k1)
  then show ?thesis
    using assms
    by (cases rule: ktls_install_cases [of E fd tx "w\<lparr>psa := p2, kst := k1\<rparr>" rx s])
      (auto simp: ktls_done_def vtls_ktls_active_def vtls_ktls_failed_def)
qed (use assms in \<open>auto simp: ktls_done_def vtls_ktls_active_def vtls_ktls_failed_def\<close>)

theorem enable_ktls_consistent_witness:
  "\<exists>s' w'. enable_ktls (ktls_env accepting_kernel) 5 ktls_session (plain_world () ()) = (1, s', w') \<and>
     keys s' = zero_keys \<and> \<not> readahead s'"
proof (rule ktls_engages)
  fix s' w'
  assume run: "enable_ktls (ktls_env accepting_kernel) 5 ktls_session (plain_world () ()) = (1, s', w')" "vtls_ktls_active s'"
  with enable_ktls_consistent [OF run(1)] ktls_session_sel show ?thesis
    by (simp add: vtls_ktls_active_def)
qed

text \<open>
  C5. kTLS engages only when it is safe, and with the right keys: no tickets were sent, it was not turned
  off, the suite is the pinned one, both secrets were captured, and neither Mbed TLS nor the read-ahead
  holds a byte the kernel would miss; the kernel accepted the ULP, then the keys derived from the
  server's secret for sending, then those of the client's secret for receiving.
\<close>

theorem ktls_engages_safely:
  assumes "enable_ktls E fd s w = (r, s', w')" and "\<not> ktls s" and "vtls_ktls_active s'"
  shows "ktls_eligible (env_lib E) s \<and>
    (\<exists>tx p1 rx p2 k1 k2 k3.
       fill_crypto_info (env_lib E) (server_app_secret (keys s)) (psa w) = (Some tx, p1) \<and>
       fill_crypto_info (env_lib E) (client_app_secret (keys s)) p1 = (Some rx, p2) \<and>
       k_setsockopt (env_kernel E) fd (TCP_ULP ''tls'') (kst w) = (SysOk (), k1) \<and>
       k_setsockopt (env_kernel E) fd (TLS_TX tx) k1 = (SysOk (), k2) \<and>
       k_setsockopt (env_kernel E) fd (TLS_RX rx) k2 = (SysOk (), k3))"
proof (cases rule: enable_ktls_cases [of E s fd w])
  case (Install tx p1 rx p2 k1)
  then show ?thesis
    using assms
  proof (cases rule: ktls_install_cases [of E fd tx "w\<lparr>psa := p2, kst := k1\<rparr>" rx s])
    case (Engaged k2 k3 w1)
    with Install show ?thesis by auto
  qed (auto simp: ktls_done_def vtls_ktls_active_def)
qed (use assms in \<open>auto simp: ktls_done_def vtls_ktls_active_def\<close>)

theorem ktls_engages_safely_witness:
  "\<exists>s' w' tx p1. enable_ktls (ktls_env accepting_kernel) 5 ktls_session (plain_world () ()) = (1, s', w') \<and>
     fill_crypto_info (env_lib (ktls_env accepting_kernel)) (server_app_secret (keys ktls_session)) () = (Some tx, p1)"
proof (rule ktls_engages)
  fix s' w'
  assume run: "enable_ktls (ktls_env accepting_kernel) 5 ktls_session (plain_world () ()) = (1, s', w')" "vtls_ktls_active s'"
  from ktls_engages_safely [OF run(1) ktls_session_sel(1) run(2)] run(1) show ?thesis
    by (auto simp: plain_world_def)
qed

text \<open>
  A fallback is clean: when the handoff returns without kTLS and without the failed mark, the socket
  was not converted: the kernel saw no call at all, or one attempt to attach the ULP, which it refused.
\<close>

theorem ktls_fallback_clean:
  assumes "enable_ktls E fd s w = (r, s', w')" and "\<not> ktls s" and "\<not> vtls_ktls_active s'" and "\<not> vtls_ktls_failed s'"
  shows "kst w' = kst w \<or>
    (\<exists>e k. k_setsockopt (env_kernel E) fd (TCP_ULP ''tls'') (kst w) = (SysErr e, k) \<and> kst w' = k)"
proof (cases rule: enable_ktls_cases [of E s fd w])
  case (Install tx p1 rx p2 k1)
  then show ?thesis
    using assms
    by (cases rule: ktls_install_cases [of E fd tx "w\<lparr>psa := p2, kst := k1\<rparr>" rx s])
      (auto simp: ktls_done_def vtls_ktls_active_def vtls_ktls_failed_def)
qed (use assms in \<open>auto simp: ktls_done_def\<close>)

theorem ktls_fallback_clean_witness:
  "\<exists>s' w'. enable_ktls (ktls_env no_kernel) 5 (ktls_session\<lparr>ktls_off := True\<rparr>) (plain_world () ()) = (0, s', w') \<and>
     kst w' = ()"
proof -
  let ?s = "ktls_session\<lparr>ktls_off := True\<rparr>"
  have run: "enable_ktls (ktls_env no_kernel) 5 ?s (plain_world () ())
      = (0, ?s\<lparr>keys := zero_keys, readahead := True\<rparr>, log_off (plain_world () ()))"
    by (simp add: enable_ktls_def ktls_done_def ktls_session_def zero_session_def)
  show ?thesis
    using ktls_fallback_clean [OF run] run ktls_session_sel by (simp add: vtls_ktls_active_def vtls_ktls_failed_def)
qed

text \<open>
  PSA's documented behaviour of a key derivation set up for HKDF-Expand with SHA-256: after the secret
  and the info are accepted, the output is the function \<open>hkdf\<close> of the two, of the length asked for.
\<close>

definition hkdf_law :: "'m mbedtls \<Rightarrow> (byte list \<Rightarrow> byte list \<Rightarrow> nat \<Rightarrow> byte list) \<Rightarrow> bool" where
  "hkdf_law L hkdf \<longleftrightarrow>
     (\<forall>secret info n p p1 p2 p3 p4 out.
        kd_setup L p = (True, p1) \<and> kd_input_secret L secret p1 = (True, p2) \<and>
        kd_input_info L info p2 = (True, p3) \<and> kd_output L n p3 = (Some out, p4) \<longrightarrow>
        out = hkdf secret info n \<and> length out = n)"

lemma hkdf_expand_label_law:
  assumes "hkdf_law L hkdf" and "hkdf_expand_label L secret label n p = (Some out, p')"
  obtains info where "hkdf_label label n = Some info" "out = hkdf secret info n" "length out = n"
  using assms unfolding hkdf_expand_label_def hkdf_law_def
  by (auto simp: Let_def split: option.splits prod.splits if_splits)

text \<open>
  C16. The kernel gets the record keys of RFC 8446 section 7.3: the key is HKDF-Expand-Label(secret,
  "key", "", 16), salt and iv together are HKDF-Expand-Label(secret, "iv", "", 12), each field has its
  size, and the record sequence starts at zero.
\<close>

theorem crypto_info_rfc8446:
  assumes "hkdf_law L hkdf" and "fill_crypto_info L secret p = (Some ci, p')"
  shows "ci_key ci = hkdf secret ([0, 16, 9] @ ascii ''tls13 key'' @ [0]) 16 \<and>
    ci_salt ci @ ci_iv ci = hkdf secret ([0, 12, 8] @ ascii ''tls13 iv'' @ [0]) 12 \<and>
    length (ci_key ci) = 16 \<and> length (ci_salt ci) = 4 \<and> length (ci_iv ci) = 8 \<and>
    ci_rec_seq ci = replicate 8 0 \<and> ci_version ci = 0x0304 \<and> ci_cipher_type ci = 51"
proof -
  from assms(2) obtain key p1 iv12 where
    key: "hkdf_expand_label L secret (ascii ''key'') 16 p = (Some key, p1)" and
    iv: "hkdf_expand_label L secret (ascii ''iv'') 12 p1 = (Some iv12, p')" and
    ci: "ci = zero_crypto_info\<lparr>ci_version := 0x0304, ci_cipher_type := 51,
      ci_key := take 16 key, ci_salt := take 4 iv12, ci_iv := take 8 (drop 4 iv12)\<rparr>"
    by (auto simp: fill_crypto_info_def split: prod.splits option.splits)
  from hkdf_expand_label_law [OF assms(1) key]
  have key': "key = hkdf secret ([0, 16, 9] @ ascii ''tls13 key'' @ [0]) 16" "length key = 16"
    by (auto simp: hkdf_label_def ascii_def Let_def split: if_splits)
  from hkdf_expand_label_law [OF assms(1) iv]
  have iv': "iv12 = hkdf secret ([0, 12, 8] @ ascii ''tls13 iv'' @ [0]) 12" "length iv12 = 12"
    by (auto simp: hkdf_label_def ascii_def Let_def split: if_splits)
  have "take 4 iv12 @ take 8 (drop 4 iv12) = take (4 + 8) iv12"
    by (simp only: take_add)
  with key' iv' show ?thesis by (simp add: ci zero_crypto_info_def)
qed

theorem crypto_info_rfc8446_witness:
  "hkdf_law (null_lib ()) (\<lambda>secret info n. replicate n 0) \<and>
   (\<exists>ci. fill_crypto_info (null_lib ()) [] () = (Some ci, ()) \<and> ci_key ci = replicate 16 0)"
proof -
  have law: "hkdf_law (null_lib ()) (\<lambda>secret info n. replicate n 0)"
    by (simp add: hkdf_law_def null_lib_def)
  obtain ci where ci: "fill_crypto_info (null_lib ()) [] () = (Some ci, ())"
    by (simp add: fill_crypto_info_def hkdf_expand_label_def hkdf_label_def ascii_def null_lib_def)
  show ?thesis using crypto_info_rfc8446 [OF law ci] law ci by simp
qed

text \<open>The lines of one kind printed so far, against the flag of that kind.\<close>

fun is_fb :: "log_line \<Rightarrow> bool" where
  "is_fb (LogFallback why) = True"
| "is_fb (LogUlpFailed e) = True"
| "is_fb _ = False"

fun is_ok :: "log_line \<Rightarrow> bool" where
  "is_ok (LogEngaged b) = True"
| "is_ok _ = False"

definition printed :: "(log_line \<Rightarrow> bool) \<Rightarrow> ('m, 'k) world \<Rightarrow> nat" where
  "printed kind w = length (filter kind (stderr w))"

definition logs_once :: "('m, 'k) world \<Rightarrow> bool" where
  "logs_once w \<longleftrightarrow>
     printed is_ok w = of_bool (ktls_logged_ok w) \<and> printed is_fb w = of_bool (ktls_logged_fb w) \<and>
     printed ((=) LogOptOut) w = of_bool (ktls_logged_off w) \<and>
     printed ((=) LogTickets) w = of_bool (ktls_logged_tickets w)"

lemma logs_once_log:
  assumes "logs_once w"
  shows "logs_once (log_tickets w)" "logs_once (log_off w)" "logs_once (ktls_log_fb why w)"
    "logs_once (log_fb (LogUlpFailed e) w)" "logs_once (log_ok b w)"
  using assms by (auto simp: logs_once_def printed_def log_defs)

lemma logs_once_sel [simp]: "logs_once (w\<lparr>kst := k\<rparr>) = logs_once w" "logs_once (w\<lparr>psa := p\<rparr>) = logs_once w"
  by (simp_all add: logs_once_def printed_def)

lemma ktls_done_world [simp]: "snd (snd (ktls_done s w)) = w"
  by (simp add: ktls_done_def)

lemma logs_once_install: "logs_once w \<Longrightarrow> logs_once (snd (snd (ktls_install E tx rx fd s w)))"
  by (simp add: ktls_install_def Let_def logs_once_log split: prod.split sysret.split)

lemma logs_once_enable: "logs_once w \<Longrightarrow> logs_once (snd (snd (enable_ktls E fd s w)))"
  by (simp add: enable_ktls_def Let_def logs_once_log logs_once_install split: prod.split sysret.split option.split)

lemma log_kinds: "length ls = length (filter is_ok ls) + length (filter is_fb ls)
    + length (filter ((=) LogOptOut) ls) + length (filter ((=) LogTickets) ls)"
proof (induction ls)
  case (Cons l ls)
  then show ?case by (cases l) auto
qed simp

text \<open>The handoffs of a process one after the other, each on its own socket and session.\<close>

primrec enable_all :: "('m, 'k) env \<Rightarrow> (int \<times> 'm vtls_session) list \<Rightarrow> ('m, 'k) world \<Rightarrow> ('m, 'k) world" where
  "enable_all E [] w = w"
| "enable_all E (c # cs) w = enable_all E cs (snd (snd (enable_ktls E (fst c) (snd c) w)))"

lemma logs_once_all: "logs_once w \<Longrightarrow> logs_once (enable_all E cs w)"
  by (induction cs arbitrary: w) (simp_all add: logs_once_enable)

text \<open>
  However many connections a process hands off, and however each ends, it prints at most one line
  of each of the four kinds: engaged, fallback, opt-out and session tickets.
\<close>

theorem ktls_logs_bounded:
  "length (stderr (enable_all E cs (plain_world p k))) \<le> 4 \<and>
   (\<forall>kind. kind = is_ok \<or> kind = is_fb \<or> kind = (=) LogOptOut \<or> kind = (=) LogTickets \<longrightarrow>
      printed kind (enable_all E cs (plain_world p k)) \<le> 1)"
proof -
  let ?w = "enable_all E cs (plain_world p k)"
  have "logs_once ?w"
    by (rule logs_once_all) (simp add: logs_once_def printed_def plain_world_def)
  then show ?thesis
    using log_kinds [of "stderr ?w"] by (auto simp: logs_once_def printed_def of_bool_def split: if_splits)
qed

theorem ktls_logs_bounded_witness:
  "length (stderr (enable_all (ktls_env no_kernel) [(5, ktls_session), (6, ktls_session)] (plain_world () ()))) \<le> 4"
  using ktls_logs_bounded [of "ktls_env no_kernel" "[(5, ktls_session), (6, ktls_session)]" "()" "()"] by simp

end
