(* ===== verification/Websocket.thy ===== *)
theory Websocket
  imports Bytes
begin

text \<open>
  The RFC 6455 codec of \<^verbatim>\<open>src/websocket/websocket.v\<close>: parsing one frame at the start of a buffer,
  unmasking its payload in place, and writing frames.
\<close>

section \<open>Frames\<close>

abbreviation (input) op_cont :: byte where "op_cont \<equiv> 0x0"
abbreviation (input) op_text :: byte where "op_text \<equiv> 0x1"
abbreviation (input) op_binary :: byte where "op_binary \<equiv> 0x2"
abbreviation (input) op_close :: byte where "op_close \<equiv> 0x8"
abbreviation (input) op_ping :: byte where "op_ping \<equiv> 0x9"
abbreviation (input) op_pong :: byte where "op_pong \<equiv> 0xa"

abbreviation (input) incomplete :: int where "incomplete \<equiv> - 1"
abbreviation (input) err_malformed :: int where "err_malformed \<equiv> - 2"

definition max_frame_payload :: nat where "max_frame_payload = 16 * 1024 * 1024"

record FrameHead =
  total :: int
  payload_off :: nat
  payload_len :: nat
  opcode :: byte
  fin :: bool
  masked :: bool
  mask_off :: nat

text \<open>\<^verbatim>\<open>FrameHead{ total: t }\<close>: the other fields are zero.\<close>

definition frame_only :: "int \<Rightarrow> FrameHead" where
  "frame_only t = \<lparr>total = t, payload_off = 0, payload_len = 0, opcode = 0, fin = False, masked = False, mask_off = 0\<rparr>"

definition frame_len64 :: "byte list \<Rightarrow> u64" where
  "frame_len64 buf = foldl (\<lambda>len64 i. push_bit 8 len64 OR ucast (buf ! (2 + i))) 0 [0..<8]"

text \<open>
  The payload length and the offset behind it, read from the 7-bit length and its extension: \<open>Inl\<close> the
  sentinel to return.
\<close>

definition frame_length :: "byte list \<Rightarrow> nat \<Rightarrow> int + nat \<times> nat" where
  "frame_length buf len7 =
     (if len7 = 126 then
        if length buf < 2 + 2 then Inl incomplete
        else
          (let n = push_bit 8 (unat (buf ! 2)) OR unat (buf ! 3) in
           if n < 126 then Inl err_malformed else Inr (n, 2 + 2))
      else if len7 = 127 then
        if length buf < 2 + 8 then Inl incomplete
        else
          (let len64 = frame_len64 buf in
           if len64 < 65536 \<or> len64 > of_nat max_frame_payload then Inl err_malformed
           else Inr (unat len64, 2 + 8))
      else Inr (len7, 2))"

definition frame_head :: "byte list \<Rightarrow> FrameHead" where
  "frame_head buf =
     (if length buf < 2 then frame_only incomplete
      else let b0 = buf ! 0 in
      if b0 AND 0x70 \<noteq> 0 then frame_only err_malformed
      else let op = b0 AND 0x0f in
      if (op > 0x2 \<and> op < 0x8) \<or> op > 0xa then frame_only err_malformed
      else let f = (b0 AND 0x80 \<noteq> 0); is_control = (op AND 0x8 \<noteq> 0);
               m = (buf ! 1 AND 0x80 \<noteq> 0); len7 = unat (buf ! 1 AND 0x7f) in
      if is_control \<and> (\<not> f \<or> len7 > 125) then frame_only err_malformed
      else case frame_length buf len7 of
        Inl e \<Rightarrow> frame_only e
      | Inr (n, moff) \<Rightarrow>
          if n > max_frame_payload then frame_only err_malformed
          else let off = (if m then moff + 4 else moff) in
          if length buf < off + n then frame_only incomplete
          else \<lparr>total = int (off + n), payload_off = off, payload_len = n,
                opcode = op, fin = f, masked = m, mask_off = moff\<rparr>)"

definition unmask_in_place :: "byte list \<Rightarrow> FrameHead \<Rightarrow> byte list" where
  "unmask_in_place buf h =
     (if \<not> masked h then buf
      else foldl (\<lambda>buf i. buf[payload_off h + i := buf ! (payload_off h + i) XOR buf ! (mask_off h + (i AND 3))])
             buf [0..<payload_len h])"

definition write_frame_header :: "byte list \<Rightarrow> byte \<Rightarrow> nat \<Rightarrow> byte list" where
  "write_frame_header out op n =
     (let out = out @ [0x80 OR op] in
      if n \<le> 125 then out @ [of_nat n]
      else if n \<le> 0xffff
      then out @ [126, of_nat (drop_bit 8 n), of_nat (n AND 0xff)]
      else out @ [127] @
        map (\<lambda>i. ucast (drop_bit (56 - 8 * i) (of_nat n :: u64) AND 0xff)) [0..<8])"

definition write_close :: "byte list \<Rightarrow> u16 \<Rightarrow> byte list" where
  "write_close out code =
     write_frame_header out op_close 2 @ [ucast (drop_bit 8 code), ucast (code AND 0xff)]"

definition write_pong :: "byte list \<Rightarrow> byte list \<Rightarrow> byte list" where
  "write_pong out payload = write_frame_header out op_pong (length payload) @ payload"

definition write_ping :: "byte list \<Rightarrow> byte list \<Rightarrow> byte list" where
  "write_ping out payload =
     (let n = (if length payload > 125 then 125 else length payload) in
      write_frame_header out op_ping n @ (if n > 0 then take n payload else []))"

section \<open>Lengths\<close>

lemma len16: "push_bit 8 (unat (a :: byte)) OR unat (b :: byte) = 256 * unat a + unat b"
proof -
  have "\<not> bit (unat b) n" if "8 \<le> n" for n
    using that bit_imp_le_length [of b n] by (auto simp: bit_unsigned_iff)
  then have "push_bit 8 (unat a) OR unat b = push_bit 8 (unat a) + unat b"
    by (intro disjunctive_add [symmetric]) (auto simp: bit_push_bit_iff)
  then show ?thesis by (simp add: push_bit_eq_mult)
qed

lemma frame_len64_be: "frame_len64 buf = be_word (map (\<lambda>i. buf ! (2 + i)) [0..<8])"
  by (simp add: frame_len64_def be_word_def foldl_map)

lemma frame_len64_append: "\<not> length buf < 10 \<Longrightarrow> frame_len64 (buf @ rest) = frame_len64 buf"
  unfolding frame_len64_def by (rule foldl_cong) (auto simp: nth_append)

text \<open>Every decision is made from the bytes it has seen: a longer buffer with the same start gives the same.\<close>

lemma frame_length_append:
  "frame_length buf l \<noteq> Inl incomplete \<Longrightarrow> frame_length (buf @ rest) l = frame_length buf l"
  by (auto simp: frame_length_def nth_append Let_def frame_len64_append split: if_splits)

lemma frame_length_bounds:
  assumes "frame_length buf l = Inr (n, off)"
  shows "2 \<le> off" and "off \<le> 10"
  using assms by (auto simp: frame_length_def Let_def split: if_splits)

lemma frame_length_incomplete: "frame_length buf l = Inl incomplete \<Longrightarrow> length buf < 10"
  by (auto simp: frame_length_def Let_def split: if_splits)

lemma frame_only_total [simp]: "total (frame_only t) = t"
  by (simp add: frame_only_def)

section \<open>Parsing\<close>

lemma frame_head_append:
  assumes "total (frame_head buf) \<noteq> incomplete"
  shows "frame_head (buf @ rest) = frame_head buf"
proof -
  let ?l = "unat (buf ! 1 AND 0x7f)"
  have two: "\<not> length buf < 2"
    using assms by (auto simp: frame_head_def split: if_splits)
  then have "(buf @ rest) ! 0 = buf ! 0" "(buf @ rest) ! 1 = buf ! 1"
    by (auto simp: nth_append)
  moreover have "frame_length buf ?l = Inl incomplete \<Longrightarrow> ?thesis" 
    using assms two calculation by (auto simp: frame_head_def Let_def split: if_splits)
  ultimately show ?thesis
    using assms two frame_length_append [of buf ?l rest]
    by (auto simp: frame_head_def Let_def split: if_splits sum.splits prod.splits)
qed

lemma frame_head_cases [case_names Only Complete]:
  obtains (Only) e where "frame_head buf = frame_only e" "e = incomplete \<or> e = err_malformed"
  | (Complete) n moff off where "frame_length buf (unat (buf ! 1 AND 0x7f)) = Inr (n, moff)" "n \<le> max_frame_payload"
      "off = (if buf ! 1 AND 0x80 \<noteq> 0 then moff + 4 else moff)" "off + n \<le> length buf"
      "frame_head buf = \<lparr>total = int (off + n), payload_off = off, payload_len = n,
         opcode = buf ! 0 AND 0x0f, fin = (buf ! 0 AND 0x80 \<noteq> 0), masked = (buf ! 1 AND 0x80 \<noteq> 0), mask_off = moff\<rparr>"
proof (cases "frame_length buf (unat (buf ! 1 AND 0x7f))")
  case (Inl e)
  then have "e = incomplete \<or> e = err_malformed"
    by (auto simp: frame_length_def Let_def split: if_splits)
  with Inl show thesis
    by (intro Only [of "total (frame_head buf)"]) (auto simp: frame_head_def Let_def)
next
  case (Inr p)
  then obtain n moff where "frame_length buf (unat (buf ! 1 AND 0x7f)) = Inr (n, moff)"
    by (cases p) simp
  note Inr = this
  show thesis
  proof (cases "total (frame_head buf) < 0")
    case True
    with Inr show thesis
      by (intro Only [of "total (frame_head buf)"]) (auto simp: frame_head_def Let_def split: if_splits)
  next
    case False
    with Inr show thesis
      by (intro Complete [of n moff]) (auto simp: frame_head_def Let_def not_less split: if_splits)
  qed
qed

lemma frame_head_complete:
  assumes "0 \<le> total (frame_head buf)"
  shows "total (frame_head buf) = int (payload_off (frame_head buf) + payload_len (frame_head buf))"
    and "payload_off (frame_head buf) + payload_len (frame_head buf) \<le> length buf"
    and "payload_len (frame_head buf) \<le> max_frame_payload" and "2 \<le> mask_off (frame_head buf)"
    and "payload_off (frame_head buf) = (if masked (frame_head buf) then mask_off (frame_head buf) + 4 else mask_off (frame_head buf))"
  using assms frame_length_bounds(1) [of buf "unat (buf ! 1 AND 0x7f)"]
  by (cases rule: frame_head_cases [of buf]; auto)+

lemma frame_head_incomplete:
  assumes "total (frame_head buf) = incomplete"
  shows "length buf < 14 + max_frame_payload"
proof (cases "frame_length buf (unat (buf ! 1 AND 0x7f))")
  case (Inl e)
  with assms frame_length_incomplete [of buf "unat (buf ! 1 AND 0x7f)"] show ?thesis
    by (auto simp: frame_head_def Let_def split: if_splits)
next
  case (Inr p)
  with assms frame_length_bounds(2) [of buf "unat (buf ! 1 AND 0x7f)" "fst p" "snd p"] show ?thesis
    by (auto simp: frame_head_def Let_def split: if_splits prod.splits)
qed

section \<open>Unmasking\<close>

abbreviation (input) unmask_step :: "nat \<Rightarrow> nat \<Rightarrow> byte list \<Rightarrow> nat \<Rightarrow> byte list" where
  "unmask_step po mo buf i \<equiv> buf[po + i := buf ! (po + i) XOR buf ! (mo + (i AND 3))]"

lemma and_3_less: "(i :: nat) AND 3 < 4"
proof -
  have "i AND 3 = take_bit 2 i"
    by (simp add: take_bit_eq_mask mask_numeral numeral_3_eq_3)
  then show ?thesis using take_bit_nat_less_exp [of 2 i] by simp
qed

lemma unmask_fold:
  assumes "mo + 4 \<le> po" and "po + n \<le> length buf"
  shows "length (foldl (unmask_step po mo) buf [0..<n]) = length buf"
    and "j < length buf \<Longrightarrow> foldl (unmask_step po mo) buf [0..<n] ! j
      = (if po \<le> j \<and> j < po + n then buf ! j XOR buf ! (mo + ((j - po) AND 3)) else buf ! j)"
proof -
  have len: "length (foldl (unmask_step po mo) buf [0..<k]) = length buf" for k
    by (induction k) simp_all
  then show "length (foldl (unmask_step po mo) buf [0..<n]) = length buf" .
  show "foldl (unmask_step po mo) buf [0..<n] ! j
      = (if po \<le> j \<and> j < po + n then buf ! j XOR buf ! (mo + ((j - po) AND 3)) else buf ! j)" if "j < length buf"
    using assms(2) that
  proof (induction n arbitrary: j)
    case (Suc n)
    let ?xs = "foldl (unmask_step po mo) buf [0..<n]"
    have "mo + (n AND 3) < po"
      using and_3_less [of n] assms(1) by linarith
    moreover from this Suc.prems(1) have "?xs ! (mo + (n AND 3)) = buf ! (mo + (n AND 3))"
      using Suc.IH [of "mo + (n AND 3)"] by simp
    moreover have "?xs ! (po + n) = buf ! (po + n)"
      using Suc.IH [of "po + n"] Suc.prems(1) by simp
    ultimately show ?case
      using Suc.IH [of j] Suc.prems len [of n] by (auto simp: nth_list_update less_Suc_eq)
  qed auto
qed

section \<open>Properties\<close>

text \<open>
  C26. Framing over a growing buffer: what \<^verbatim>\<open>frame_head\<close> decides stays decided when more bytes arrive; a
  complete frame lies inside the buffer with its masking key right before its payload; and it never
  waits for ever: an undecided buffer is shorter than the largest frame.
\<close>

theorem ws_frame_head_streaming:
  fixes buf rest :: "byte list"
  defines "h \<equiv> frame_head buf"
  shows "(total h \<noteq> incomplete \<longrightarrow> frame_head (buf @ rest) = h) \<and>
    (total h = incomplete \<longrightarrow> length buf < 14 + max_frame_payload) \<and>
    (total h = incomplete \<or> total h = err_malformed \<or>
      (total h = int (payload_off h + payload_len h) \<and> total h \<le> int (length buf) \<and>
       payload_len h \<le> max_frame_payload \<and> (masked h \<longrightarrow> 2 \<le> mask_off h \<and> mask_off h + 4 = payload_off h)))"
proof -
  have "0 \<le> total h \<or> total h = incomplete \<or> total h = err_malformed"
    unfolding h_def by (cases rule: frame_head_cases [of buf]) auto
  with frame_head_complete [of buf] frame_head_append [of buf rest] frame_head_incomplete [of buf]
  show ?thesis unfolding h_def by auto
qed

theorem ws_frame_head_streaming_witness:
  "frame_head ([0x81, 2, 72, 105] @ [0x81]) = frame_head [0x81, 2, 72, 105]"
  using ws_frame_head_streaming [of "[0x81, 2, 72, 105]" "[0x81]"]
  by (simp add: frame_head_def frame_length_def max_frame_payload_def)

text \<open>
  C27. Unmasking: on a masked frame the payload view becomes each byte xor-ed with its byte of the key, the
  rest of the buffer (header, key, following frames) is untouched, and unmasking again restores the
  buffer.
\<close>

theorem ws_unmask_in_place:
  assumes "frame_head buf = h" and "0 \<le> total h" and "masked h"
  shows "segment (payload_off h) (payload_off h + payload_len h) (unmask_in_place buf h)
        = map (\<lambda>i. buf ! (payload_off h + i) XOR buf ! (mask_off h + (i AND 3))) [0..<payload_len h] \<and>
      take (payload_off h) (unmask_in_place buf h) = take (payload_off h) buf \<and>
      drop (payload_off h + payload_len h) (unmask_in_place buf h) = drop (payload_off h + payload_len h) buf \<and>
      unmask_in_place (unmask_in_place buf h) h = buf"
proof -
  define po mo n where "po = payload_off h" and "mo = mask_off h" and "n = payload_len h"
  have b: "mo + 4 \<le> po" "po + n \<le> length buf"
    using frame_head_complete [of buf] assms by (simp_all add: po_def mo_def n_def)
  have un: "unmask_in_place xs h = foldl (unmask_step po mo) xs [0..<n]" for xs
    using assms(3) by (simp add: unmask_in_place_def po_def mo_def n_def)
  let ?u = "unmask_in_place buf h"
  have len: "length ?u = length buf" and
    nth: "\<And>j. j < length buf \<Longrightarrow> ?u ! j
      = (if po \<le> j \<and> j < po + n then buf ! j XOR buf ! (mo + ((j - po) AND 3)) else buf ! j)"
    using unmask_fold [OF b] by (simp_all add: un)
  have key: "mo + (i AND 3) < po" for i
    using and_3_less [of i] b(1) by linarith
  have "segment po (po + n) ?u = map (\<lambda>i. buf ! (po + i) XOR buf ! (mo + (i AND 3))) [0..<n]"
    using b len nth by (intro nth_equalityI) (simp_all add: segment_def)
  moreover have "take po ?u = take po buf" "drop (po + n) ?u = drop (po + n) buf"
    using b len nth by (auto intro!: nth_equalityI)
  moreover have "unmask_in_place ?u h = buf"
  proof (rule nth_equalityI)
    show "length (unmask_in_place ?u h) = length buf"
      using unmask_fold(1) [OF b(1), of n ?u] b(2) len by (simp add: un)
    fix j assume "j < length (unmask_in_place ?u h)"
    then have "j < length buf"
      using unmask_fold(1) [OF b(1), of n ?u] b(2) len by (simp add: un)
    then show "unmask_in_place ?u h ! j = buf ! j"
      using unmask_fold(2) [OF b(1), of n ?u j] b len nth key [of "j - po"]
      by (simp add: un [of ?u] xor.assoc)
  qed
  ultimately show ?thesis by (simp add: po_def mo_def n_def)
qed

theorem ws_unmask_in_place_witness:
  "unmask_in_place [0x81, 0x82, 1, 2, 3, 4, 73, 107] (frame_head [0x81, 0x82, 1, 2, 3, 4, 73, 107])
     = [0x81, 0x82, 1, 2, 3, 4, 72, 105]"
proof -
  let ?buf = "[0x81, 0x82, 1, 2, 3, 4, 73, 107] :: byte list"
  have h: "frame_head ?buf = \<lparr>total = 8, payload_off = 6, payload_len = 2, opcode = 1, fin = True, masked = True, mask_off = 2\<rparr>"
    by (simp add: frame_head_def frame_length_def max_frame_payload_def Let_def)
  from ws_unmask_in_place [OF h] show ?thesis
    unfolding h by (simp add: unmask_in_place_def upt_rec)
qed

lemma server_opcode_bits:
  assumes "op \<in> {op_cont, op_text, op_binary, op_close, op_ping, op_pong}"
  shows "(0x80 OR op) AND 0x70 = 0" "(0x80 OR op) AND 0x0f = op" "(0x80 OR op) AND 0x80 \<noteq> 0"
    "\<not> ((op > 0x2 \<and> op < 0x8) \<or> op > 0xa)" "op AND 0x8 \<noteq> 0 \<longleftrightarrow> op \<in> {op_close, op_ping, op_pong}"
  using assms by auto

text \<open>The bytes behind the opcode, and what the parser reads from them.\<close>

definition length_bytes :: "nat \<Rightarrow> byte list" where
  "length_bytes n = drop 1 (write_frame_header [] 0 n)"

lemma write_frame_header_eq: "write_frame_header out op n = out @ [0x80 OR op] @ length_bytes n"
  by (simp add: write_frame_header_def length_bytes_def Let_def)

lemma low_seven_bits:
  assumes "n < 128"
  shows "(of_nat n :: byte) AND 0x7f = of_nat n" and "(of_nat n :: byte) AND 0x80 = 0"
proof -
  let ?x = "of_nat n :: byte"
  have "take_bit 7 n = n"
    using assms by (simp add: take_bit_nat_eq_self)
  then have "take_bit 7 ?x = ?x"
    by (metis of_nat_take_bit)
  then show low: "?x AND 0x7f = ?x"
    by (simp add: take_bit_eq_mask mask_eq_exp_minus_1)
  have "?x AND 0x80 = (?x AND 0x7f) AND 0x80"
    by (simp only: low)
  also have "\<dots> = 0"
    by (simp add: and.assoc)
  finally show "?x AND 0x80 = 0" .
qed

lemma length_bytes_len7:
  "length_bytes n \<noteq> []" "length_bytes n ! 0 AND 0x80 = 0"
  "unat (length_bytes n ! 0 AND 0x7f) = (if n \<le> 125 then n else if n \<le> 0xffff then 126 else 127)"
  by (auto simp: length_bytes_def write_frame_header_def Let_def low_seven_bits unat_of_nat)

lemma length_bytes_parsed:
  assumes "n \<le> max_frame_payload"
  shows "frame_length (b0 # length_bytes n @ rest) (unat (length_bytes n ! 0 AND 0x7f)) = Inr (n, 1 + length (length_bytes n))"
proof -
  consider "n \<le> 125" | "125 < n" "n \<le> 0xffff" | "0xffff < n" by linarith
  then show ?thesis
  proof cases
    case 1
    then show ?thesis
      using length_bytes_len7(3) [of n] by (simp add: frame_length_def) (simp add: length_bytes_def write_frame_header_def)
  next
    case 2
    then have "push_bit 8 (unat (of_nat (drop_bit 8 n) :: byte)) OR unat (of_nat (n AND 0xff) :: byte) = n"
      by (subst len16) (simp add: unat_of_nat drop_bit_eq_div and_255)
    with 2 show ?thesis
      using length_bytes_len7(3) [of n]
      by (simp add: frame_length_def Let_def) (simp add: length_bytes_def write_frame_header_def Let_def)
  next
    case 3
    have n: "n < 2 ^ 64" using assms by (simp add: max_frame_payload_def)
    have "map (\<lambda>i. (b0 # length_bytes n @ rest) ! (2 + i)) [0..<8] = be_bytes 8 (of_nat n :: u64)"
      using 3 by (intro nth_equalityI) (simp_all add: length_bytes_def write_frame_header_def Let_def be_bytes_def nth_append diff_mult_distrib2)
    then have "frame_len64 (b0 # length_bytes n @ rest) = of_nat n"
      using n by (simp add: frame_len64_be be_word_bytes_id unat_of_nat)
    moreover have "\<not> (of_nat n :: u64) < 65536" "\<not> of_nat n > (of_nat max_frame_payload :: u64)" "unat (of_nat n :: u64) = n"
      using 3 n assms by (simp_all add: word_less_nat_alt unat_of_nat max_frame_payload_def)
    moreover have "length (length_bytes n) = 9"
      using 3 by (simp add: length_bytes_def write_frame_header_def)
    ultimately show ?thesis
      using 3 length_bytes_len7(3) [of n] by (simp add: frame_length_def)
  qed
qed

text \<open>
  C28. A frame the server writes is the frame a peer reads: for every data opcode with a payload of at most
  16 MiB, and every control opcode with at most 125 bytes, the header written by \<^verbatim>\<open>write_frame_header\<close>
  followed by the payload parses as one final unmasked frame of that opcode whose payload view is the
  payload, whatever follows it.
\<close>

theorem ws_frame_roundtrip:
  assumes "op \<in> {op_cont, op_text, op_binary, op_close, op_ping, op_pong}"
    and "length payload \<le> max_frame_payload"
    and "op \<in> {op_close, op_ping, op_pong} \<longrightarrow> length payload \<le> 125"
    and "buf = drop (length out) (write_frame_header out op (length payload) @ payload @ rest)"
  shows "opcode (frame_head buf) = op \<and> fin (frame_head buf) \<and> \<not> masked (frame_head buf) \<and>
    drop (nat (total (frame_head buf))) buf = rest \<and> 0 \<le> total (frame_head buf) \<and>
    segment (payload_off (frame_head buf)) (payload_off (frame_head buf) + payload_len (frame_head buf)) buf = payload"
proof -
  let ?n = "length payload"
  define b0 where "b0 = 0x80 OR op"
  have buf: "buf = b0 # length_bytes ?n @ payload @ rest"
    using assms(4) by (simp add: write_frame_header_eq b0_def)
  note bits = server_opcode_bits [OF assms(1), folded b0_def]
  have "buf ! 0 = b0" "buf ! 1 = length_bytes ?n ! 0" "\<not> length buf < 2"
    using length_bytes_len7(1) [of ?n] by (auto simp: buf nth_append Suc_le_eq)
  moreover have "frame_length buf (unat (length_bytes ?n ! 0 AND 0x7f)) = Inr (?n, 1 + length (length_bytes ?n))"
    unfolding buf using length_bytes_parsed [OF assms(2), of b0 "payload @ rest"] by simp
  moreover have "\<not> (op \<in> {op_close, op_ping, op_pong} \<and> unat (length_bytes ?n ! 0 AND 0x7f) > 125)"
    using assms(3) by (auto simp: length_bytes_len7(3))
  ultimately have "frame_head buf = \<lparr>total = int (1 + length (length_bytes ?n) + ?n), payload_off = 1 + length (length_bytes ?n),
      payload_len = ?n, opcode = op, fin = True, masked = False, mask_off = 1 + length (length_bytes ?n)\<rparr>"
    using bits assms(2) length_bytes_len7(2) [of ?n] unfolding frame_head_def Let_def by (auto simp: buf)
  then show ?thesis
    by (simp add: buf segment_def nat_add_distrib)
qed

theorem ws_frame_roundtrip_witness:
  "segment 2 4 ([0x81, 2, 72, 105] @ [0x88]) = [72, 105] \<and> opcode (frame_head ([0x81, 2, 72, 105] @ [0x88])) = op_text"
  using ws_frame_roundtrip [of op_text "[72, 105]" "[0x81, 2, 72, 105] @ [0x88]" "[]" "[0x88]"]
  by (simp add: max_frame_payload_def write_frame_header_def segment_def)

end
