(* ===== verification/Ws_Accept.thy ===== *)
theory Ws_Accept
  imports Bytes
begin

text \<open>
  The WebSocket handshake's accept key (\<^verbatim>\<open>src/websocket/websocket.v\<close>): SHA-1 over the client's key and the
  protocol's GUID, fed piecewise through a 64-byte block, then base64. The reference is FIPS 180-4.
\<close>

section \<open>SHA-1 as the code computes it\<close>

text \<open>\<^verbatim>\<open>w[0..16)\<close> loaded from the block into an array of 80 words, then the other 64.\<close>

definition sha1_load :: "byte list \<Rightarrow> u32 list" where
  "sha1_load block = map (\<lambda>i. push_bit 24 (ucast (block ! (4 * i))) OR push_bit 16 (ucast (block ! (4 * i + 1)))
     OR push_bit 8 (ucast (block ! (4 * i + 2))) OR ucast (block ! (4 * i + 3))) [0..<16] @ replicate 64 0"

definition sha1_extend :: "u32 list \<Rightarrow> nat \<Rightarrow> u32 list" where
  "sha1_extend w i =
     (let x = w ! (i - 3) XOR w ! (i - 8) XOR w ! (i - 14) XOR w ! (i - 16)
      in w[i := push_bit 1 x OR drop_bit 31 x])"

definition sha1_round :: "u32 list \<Rightarrow> u32 \<times> u32 \<times> u32 \<times> u32 \<times> u32 \<Rightarrow> nat \<Rightarrow> u32 \<times> u32 \<times> u32 \<times> u32 \<times> u32" where
  "sha1_round w = (\<lambda>(a, b, c, d, e) i.
     let (f, k) =
       (if i < 20 then ((b AND c) OR (NOT b AND d), 0x5a827999)
        else if i < 40 then (b XOR c XOR d, 0x6ed9eba1)
        else if i < 60 then ((b AND c) OR (b AND d) OR (c AND d), 0x8f1bbcdc)
        else (b XOR c XOR d, 0xca62c1d6));
       t = (push_bit 5 a OR drop_bit 27 a) + f + e + k + w ! i
     in (t, a, push_bit 30 b OR drop_bit 2 b, c, d))"

definition sha1_compress :: "u32 list \<Rightarrow> byte list \<Rightarrow> u32 list" where
  "sha1_compress h block =
     (let w = foldl sha1_extend (sha1_load block) [16..<80];
          (a, b, c, d, e) = foldl (sha1_round w) (h ! 0, h ! 1, h ! 2, h ! 3, h ! 4) [0..<80]
      in [h ! 0 + a, h ! 1 + b, h ! 2 + c, h ! 3 + d, h ! 4 + e])"

text \<open>The arrays \<^verbatim>\<open>h\<close> and \<^verbatim>\<open>block\<close> the two functions share, and the count of buffered bytes.\<close>

type_synonym sha1_state = "u32 list \<times> byte list \<times> nat"

definition sha1_byte :: "sha1_state \<Rightarrow> byte \<Rightarrow> sha1_state" where
  "sha1_byte = (\<lambda>(h, block, k) b.
     let block = block[k := b]; k = k + 1
     in if k = 64 then (sha1_compress h block, block, 0) else (h, block, k))"

definition sha1_write :: "sha1_state \<Rightarrow> byte list \<Rightarrow> sha1_state" where
  "sha1_write s p = foldl sha1_byte s p"

definition zero_fill :: "byte list \<Rightarrow> nat \<Rightarrow> nat \<Rightarrow> byte list" where
  "zero_fill block from to = foldl (\<lambda>block k. block[k := 0]) block [from..<to]"

definition sha1_sum :: "sha1_state \<Rightarrow> u64 \<Rightarrow> byte list" where
  "sha1_sum = (\<lambda>(h, block, n) len.
     let bits = push_bit 3 len;
         block = block[n := 0x80]; k = n + 1;
         (h, block, k) = (if k > 56 then (let block = zero_fill block k 64 in (sha1_compress h block, block, 0))
                          else (h, block, k));
         block = zero_fill block k 56;
         block = foldl (\<lambda>block i. block[56 + i := ucast (drop_bit (56 - 8 * i) bits)]) block [0..<8];
         h = sha1_compress h block
     in concat (map (\<lambda>i. [ucast (drop_bit 24 (h ! i)), ucast (drop_bit 16 (h ! i)), ucast (drop_bit 8 (h ! i)), ucast (h ! i)]) [0..<5]))"

definition ws_guid :: "byte list" where
  "ws_guid = ascii ''258EAFA5-E914-47DA-95CA-C5AB0DC85B11''"

text \<open>V's \<^verbatim>\<open>base64.encode_in_buffer\<close>: the standard alphabet, padded.\<close>

definition b64_char :: "nat \<Rightarrow> byte" where
  "b64_char i = ascii ''ABCDEFGHIJKLMNOPQRSTUVWXYZabcdefghijklmnopqrstuvwxyz0123456789+/'' ! i"

fun base64 :: "byte list \<Rightarrow> byte list" where
  "base64 [] = []"
| "base64 [a] = (let n = unat a * 16 in [b64_char (n div 64), b64_char (n mod 64), 61, 61])"
| "base64 [a, b] = (let n = (unat a * 256 + unat b) * 4
     in [b64_char (n div 4096), b64_char (n div 64 mod 64), b64_char (n mod 64), 61])"
| "base64 (a # b # c # bs) = (let n = (unat a * 256 + unat b) * 256 + unat c
     in [b64_char (n div 262144), b64_char (n div 4096 mod 64), b64_char (n div 64 mod 64), b64_char (n mod 64)]) @ base64 bs"

definition sha1_init :: "u32 list" where
  "sha1_init = [0x67452301, 0xefcdab89, 0x98badcfe, 0x10325476, 0xc3d2e1f0]"

definition append_accept_key :: "byte list \<Rightarrow> byte list \<Rightarrow> byte list" where
  "append_accept_key out client_key =
     (let s = sha1_write (sha1_init, replicate 64 0, 0) client_key;
          s = sha1_write s ws_guid;
          digest = sha1_sum s (of_nat (length client_key + length ws_guid))
      in out @ base64 digest)"

definition accept_key :: "byte list \<Rightarrow> byte list" where
  "accept_key client_key = append_accept_key [] client_key"

section \<open>FIPS 180-4\<close>

text \<open>The message schedule (6.1.2), the functions and constants of each round, one block, padding, the hash.\<close>

fun fips_W :: "byte list \<Rightarrow> nat \<Rightarrow> u32" where
  "fips_W M t =
     (if t < 16 then be_word (take 4 (drop (4 * t) M))
      else word_rotl 1 (fips_W M (t - 3) XOR fips_W M (t - 8) XOR fips_W M (t - 14) XOR fips_W M (t - 16)))"

declare fips_W.simps [simp del]

definition fips_f :: "nat \<Rightarrow> u32 \<Rightarrow> u32 \<Rightarrow> u32 \<Rightarrow> u32" where
  "fips_f t x y z =
     (if t < 20 then (x AND y) XOR (NOT x AND z)
      else if 40 \<le> t \<and> t < 60 then (x AND y) XOR (x AND z) XOR (y AND z)
      else x XOR y XOR z)"

definition fips_K :: "nat \<Rightarrow> u32" where
  "fips_K t = [0x5a827999, 0x6ed9eba1, 0x8f1bbcdc, 0xca62c1d6] ! (t div 20)"

primrec fips_rounds :: "byte list \<Rightarrow> nat \<Rightarrow> u32 \<times> u32 \<times> u32 \<times> u32 \<times> u32 \<Rightarrow> u32 \<times> u32 \<times> u32 \<times> u32 \<times> u32" where
  "fips_rounds M 0 v = v"
| "fips_rounds M (Suc t) v =
     (case fips_rounds M t v of (a, b, c, d, e) \<Rightarrow>
        (word_rotl 5 a + fips_f t b c d + e + fips_K t + fips_W M t, a, word_rotl 30 b, c, d))"

definition fips_block :: "u32 list \<Rightarrow> byte list \<Rightarrow> u32 list" where
  "fips_block H M =
     (case fips_rounds M 80 (H ! 0, H ! 1, H ! 2, H ! 3, H ! 4) of (a, b, c, d, e) \<Rightarrow>
        [a + H ! 0, b + H ! 1, c + H ! 2, d + H ! 3, e + H ! 4])"

definition fips_pad :: "byte list \<Rightarrow> byte list" where
  "fips_pad M = M @ [0x80] @ replicate ((119 - length M mod 64) mod 64) 0 @ be_bytes 8 (of_nat (8 * length M) :: u64)"

fun blocks :: "byte list \<Rightarrow> byte list list" where
  "blocks M = (if length M < 64 then [] else take 64 M # blocks (drop 64 M))"

declare blocks.simps [simp del]

definition sha1 :: "byte list \<Rightarrow> byte list" where
  "sha1 M = concat (map (be_bytes 4) (foldl fips_block sha1_init (blocks (fips_pad M))))"

section \<open>One block\<close>

lemma rot_word_rotl:
  assumes "n < 32"
  shows "push_bit n (x :: u32) OR drop_bit (32 - n) x = word_rotl n x"
proof (rule bit_word_eqI)
  fix i assume "i < LENGTH(32)"
  then show "bit (push_bit n x OR drop_bit (32 - n) x) i = bit (word_rotl n x) i"
    using assms bit_imp_le_length [of x "32 - n + i"]
    by (cases "i < n") (auto simp: bit_simps bit_word_rotl_iff mod_if add.commute [of i 32])
qed

lemmas sha1_rotl = rot_word_rotl [of 1, simplified] rot_word_rotl [of 5, simplified] rot_word_rotl [of 30, simplified]

lemma sha1_bool:
  "(b AND c) OR (NOT b AND d) = (b AND c) XOR (NOT b AND (d :: u32))"
  "(b AND c) OR (b AND d) OR (c AND d) = (b AND c) XOR (b AND d) XOR (c AND (d :: u32))"
  by (rule bit_word_eqI; auto simp: bit_simps)+

lemma sha1_load_W:
  assumes "length block = 64" and "t < 16"
  shows "sha1_load block ! t = fips_W block t"
proof -
  have "take 4 (drop (4 * t) block) = [block ! (4 * t), block ! (4 * t + 1), block ! (4 * t + 2), block ! (4 * t + 3)]"
    using assms by (intro nth_equalityI) (auto simp: less_Suc_eq numeral_eq_Suc)
  with assms(2) show ?thesis
    by (simp add: sha1_load_def nth_append fips_W.simps be_word_4)
qed

lemma sha1_schedule_W:
  assumes "length block = 64" and "16 \<le> k" and "k \<le> 80"
  shows "length (foldl sha1_extend (sha1_load block) [16..<k]) = 80 \<and>
    (\<forall>t < k. foldl sha1_extend (sha1_load block) [16..<k] ! t = fips_W block t)"
  using assms(2,3)
proof (induction k rule: dec_induct)
  case base
  show ?case using sha1_load_W [OF assms(1)] by (simp add: sha1_load_def)
next
  case (step k)
  let ?w = "foldl sha1_extend (sha1_load block) [16..<k]"
  from step have w: "length ?w = 80" "\<And>t. t < k \<Longrightarrow> ?w ! t = fips_W block t" by simp_all
  have "sha1_extend ?w k = ?w[k := fips_W block k]"
    using step.hyps w(2) by (simp add: sha1_extend_def Let_def sha1_rotl fips_W.simps [of block k])
  with step w show ?case by (auto simp: nth_list_update less_Suc_eq)
qed

lemma sha1_rounds_fips:
  assumes "\<And>t. t < 80 \<Longrightarrow> w ! t = fips_W M t" and "k \<le> 80"
  shows "foldl (sha1_round w) v [0..<k] = fips_rounds M k v"
  using assms(2)
proof (induction k)
  case (Suc k)
  have "fips_K k = (if k < 20 then 0x5a827999 else if k < 40 then 0x6ed9eba1 else if k < 60 then 0x8f1bbcdc else 0xca62c1d6)"
    using Suc.prems by (auto simp: fips_K_def div_nat_eqI [of _ 0] div_nat_eqI [of _ 1] div_nat_eqI [of _ 2] div_nat_eqI [of _ 3])
  with Suc assms(1) [of k] show ?case
    by (auto simp: sha1_round_def Let_def sha1_rotl sha1_bool fips_f_def split: prod.splits)
qed simp

lemma sha1_compress_fips:
  assumes "length block = 64"
  shows "sha1_compress h block = fips_block h block"
  using sha1_rounds_fips [of "foldl sha1_extend (sha1_load block) [16..<80]" block 80] sha1_schedule_W [OF assms, of 80]
  by (simp add: sha1_compress_def fips_block_def Let_def add.commute split: prod.splits)

section \<open>Streaming\<close>

lemma blocks_append: "64 dvd length xs \<Longrightarrow> blocks (xs @ ys) = blocks xs @ blocks ys"
proof (induction xs rule: blocks.induct)
  case (1 M)
  show ?case
  proof (cases "length M < 64")
    case True
    with 1(2) have "M = []" by (auto dest: dvd_imp_le)
    then show ?thesis by (simp add: blocks.simps [of "[]"])
  next
    case False
    with 1(2) have "64 dvd length (drop 64 M)" by (simp add: dvd_diff_nat)
    with 1(1) [OF False] False show ?thesis
      by (simp add: blocks.simps [of M] blocks.simps [of "M @ ys"])
  qed
qed

lemma blocks_short [simp]: "length xs < 64 \<Longrightarrow> blocks xs = []"
  by (simp add: blocks.simps)

lemma blocks_one [simp]: "length xs = 64 \<Longrightarrow> blocks xs = [xs]"
  by (simp add: blocks.simps)

lemma blocks_length: "M' \<in> set (blocks M) \<Longrightarrow> length M' = 64"
proof (induction M rule: blocks.induct)
  case (1 M)
  then show ?case by (subst (asm) (2) blocks.simps) (auto split: if_splits)
qed

text \<open>The state after the message \<open>M\<close>: its full blocks folded in, the rest buffered.\<close>

definition sha1_holds :: "byte list \<Rightarrow> sha1_state \<Rightarrow> bool" where
  "sha1_holds M = (\<lambda>(h, block, n).
     \<exists>full part. M = full @ part \<and> 64 dvd length full \<and> length part = n \<and> n < 64 \<and> length block = 64 \<and>
       take n block = part \<and> h = foldl fips_block sha1_init (blocks full))"

lemma sha1_byte_holds: "sha1_holds M s \<Longrightarrow> sha1_holds (M @ [b]) (sha1_byte s b)"
proof (cases s)
  case (fields h block n)
  assume "sha1_holds M s"
  then obtain full part where M: "M = full @ part" and full: "64 dvd length full" and
    part: "length part = n" "n < 64" "length block = 64" "take n block = part" and
    h: "h = foldl fips_block sha1_init (blocks full)"
    by (auto simp: sha1_holds_def fields)
  have new: "take (n + 1) (block[n := b]) = part @ [b]"
    using part by (simp add: take_Suc_conv_app_nth)
  show ?thesis
  proof (cases "n + 1 = 64")
    case True
    then have "block[n := b] = part @ [b]"
      using new part by simp
    moreover have "blocks ((full @ part @ [b])) = blocks full @ [part @ [b]]"
      using True part full by (simp add: blocks_append)
    ultimately have "sha1_compress h (block[n := b]) = foldl fips_block sha1_init (blocks (full @ part @ [b]))"
      using part True h by (simp add: sha1_compress_fips)
    moreover have "64 dvd length (full @ part @ [b])"
      using full True part dvd_add [of 64 "length full" 64] by simp
    ultimately show ?thesis
      using True part by (auto simp: sha1_holds_def sha1_byte_def fields M intro!: exI [of _ "full @ part @ [b]"])
  next
    case False
    with new part full h show ?thesis
      by (auto simp: sha1_holds_def sha1_byte_def fields M intro!: exI [of _ full])
  qed
qed

lemma sha1_write_holds: "sha1_holds M s \<Longrightarrow> sha1_holds (M @ p) (sha1_write s p)"
proof (induction p arbitrary: M s)
  case (Cons b p)
  from Cons.IH [OF sha1_byte_holds [OF Cons.prems]] show ?case by (simp add: sha1_write_def)
qed (simp add: sha1_write_def)

text \<open>\<^verbatim>\<open>sha1_sum\<close> writes the padding by index; the same bytes written one by one give the same blocks.\<close>

lemma foldl_update_memcpy:
  "a + n \<le> length block \<Longrightarrow> foldl (\<lambda>block i. block[a + i := f i]) block [0..<n] = memcpy_at block a (map f [0..<n])"
proof (induction n)
  case (Suc n)
  then show ?case
    by (intro nth_equalityI) (auto simp: memcpy_at_def nth_list_update nth_append min_def)
qed (simp add: memcpy_at_def)

lemma zero_fill_memcpy:
  assumes "k \<le> n" and "n \<le> length block"
  shows "zero_fill block k n = memcpy_at block k (replicate (n - k) 0)"
proof -
  have "[k..<n] = map ((+) k) [0..<n - k]"
    using assms(1) by (intro nth_equalityI) auto
  then show ?thesis
    using foldl_update_memcpy [of k "n - k" block "\<lambda>i. 0"] assms
    by (simp add: zero_fill_def foldl_map map_replicate_const)
qed

lemma memcpy_at_join:
  "a + length xs \<le> length block \<Longrightarrow> b = a + length xs \<Longrightarrow> memcpy_at (memcpy_at block a xs) b ys = memcpy_at block a (xs @ ys)"
  by (simp add: memcpy_at_def ac_simps)

lemma update_memcpy: "n < length block \<Longrightarrow> block[n := b] = memcpy_at block n [b]"
  by (simp add: memcpy_at_def upd_conv_take_nth_drop)

lemma memcpy_at_Nil: "memcpy_at xs i [] = xs"
  by (simp add: memcpy_at_def)

lemma sha1_write_part:
  assumes "k + length p \<le> 64" and "length block = 64" and "k < 64"
  shows "sha1_write (h, block, k) p =
    (if k + length p = 64 then (sha1_compress h (memcpy_at block k p), memcpy_at block k p, 0)
     else (h, memcpy_at block k p, k + length p))"
  using assms
proof (induction p arbitrary: block k)
  case (Cons b p)
  have cp: "memcpy_at (block[k := b]) (Suc k) p = memcpy_at block k (b # p)"
    using Cons.prems by (intro nth_equalityI) (auto simp: memcpy_at_def nth_append nth_Cons' min_def)
  show ?case
  proof (cases "Suc k = 64")
    case True
    with Cons.prems have "p = []" by simp
    with cp have "memcpy_at block k [b] = block[k := b]" by (simp add: memcpy_at_Nil)
    with \<open>p = []\<close> True show ?thesis
      by (simp add: sha1_write_def sha1_byte_def Let_def)
  next
    case False
    with Cons.IH [of "Suc k" "block[k := b]"] Cons.prems cp show ?thesis
      by (simp add: sha1_write_def sha1_byte_def)
  qed
qed (simp add: sha1_write_def memcpy_at_def)

definition sha1_tail :: "nat \<Rightarrow> u64 \<Rightarrow> byte list" where
  "sha1_tail n bits = [0x80] @ replicate ((119 - n) mod 64) 0 @ be_bytes 8 bits"

lemma sha1_bits: "foldl (\<lambda>block i. block[56 + i := ucast (drop_bit (56 - 8 * i) bits)]) block [0..<8]
    = memcpy_at block 56 (be_bytes 8 (bits :: u64))" if "length block = 64"
proof -
  have "be_bytes 8 bits = map (\<lambda>i. ucast (drop_bit (56 - 8 * i) bits)) [0..<8]"
    by (simp add: be_bytes_def diff_mult_distrib2)
  with foldl_update_memcpy [of 56 8 block "\<lambda>i. ucast (drop_bit (56 - 8 * i) bits)"] that show ?thesis
    by simp
qed

definition digest_bytes :: "u32 list \<Rightarrow> byte list" where
  "digest_bytes h = concat (map (\<lambda>i. be_bytes 4 (h ! i)) [0..<5])"

lemma sha1_sum_write:
  assumes "length block = 64" and "n < 64"
  shows "sha1_sum (h, block, n) len = digest_bytes (fst (sha1_write (h, block, n) (sha1_tail n (push_bit 3 len))))"
proof (cases "n \<le> 55")
  case True
  let ?len = "be_bytes 8 (push_bit 3 len)"
  have tail: "sha1_tail n (push_bit 3 len) = ([0x80] @ replicate (55 - n) 0) @ ?len"
    using True by (simp add: sha1_tail_def mod_if)
  have "zero_fill (block[n := 0x80]) (n + 1) 56 = memcpy_at block n ([0x80] @ replicate (55 - n) 0)"
    using True assms by (simp add: zero_fill_memcpy update_memcpy memcpy_at_join)
  moreover have "memcpy_at (memcpy_at block n ([0x80] @ replicate (55 - n) 0)) 56 ?len
      = memcpy_at block n (sha1_tail n (push_bit 3 len))"
    unfolding tail using True assms by (intro memcpy_at_join) simp_all
  moreover have "n + length (sha1_tail n (push_bit 3 len)) = 64"
    using True by (simp add: tail)
  ultimately show ?thesis
    using True assms sha1_write_part [of n "sha1_tail n (push_bit 3 len)" block h]
    by (simp add: sha1_sum_def Let_def sha1_bits digest_bytes_def be_bytes_4)
next
  case False
  let ?len = "be_bytes 8 (push_bit 3 len)" and ?one = "[0x80] @ replicate (63 - n) 0"
  let ?b1 = "memcpy_at block n ?one" and ?two = "replicate 56 0 @ be_bytes 8 (push_bit 3 len)"
  have "(119 - n) mod 64 = (63 - n) + 56"
    using False assms(2) by simp
  then have tail: "sha1_tail n (push_bit 3 len) = ?one @ ?two"
    by (simp only: sha1_tail_def replicate_add append_assoc)
  have "sha1_write (h, block, n) ?one = (sha1_compress h ?b1, ?b1, 0)"
    using False assms sha1_write_part [of n ?one block h] by simp
  moreover have "sha1_write (sha1_compress h ?b1, ?b1, 0) ?two
      = (sha1_compress (sha1_compress h ?b1) (memcpy_at ?b1 0 ?two), memcpy_at ?b1 0 ?two, 0)"
    using False assms sha1_write_part [of 0 ?two ?b1 "sha1_compress h ?b1"] by simp
  ultimately have wr: "fst (sha1_write (h, block, n) (sha1_tail n (push_bit 3 len)))
      = sha1_compress (sha1_compress h ?b1) (memcpy_at ?b1 0 ?two)"
    by (simp add: tail sha1_write_def)
  have "zero_fill (block[n := 0x80]) (n + 1) 64 = ?b1"
    using False assms by (simp add: zero_fill_memcpy update_memcpy memcpy_at_join)
  moreover have "memcpy_at (zero_fill ?b1 0 56) 56 ?len = memcpy_at ?b1 0 ?two"
    using False assms by (simp add: zero_fill_memcpy memcpy_at_join)
  ultimately show ?thesis
    unfolding wr using False assms
    by (simp add: sha1_sum_def Let_def sha1_bits zero_fill_memcpy digest_bytes_def be_bytes_4)
qed

section \<open>Properties\<close>

lemma fips_block_length [simp]: "length (fips_block H M) = 5"
  by (simp add: fips_block_def split: prod.splits)

lemma digest_bytes_eq:
  assumes "length h = 5"
  shows "digest_bytes h = concat (map (be_bytes 4) h)"
proof -
  have "map (\<lambda>i. be_bytes 4 (h ! i)) [0..<5] = map (be_bytes 4) h"
    using assms by (intro nth_equalityI) simp_all
  then show ?thesis by (simp add: digest_bytes_def)
qed

lemma fips_pad_length: "64 dvd length (fips_pad M)"
proof -
  obtain q r where M: "length M = 64 * q + r" "length M mod 64 = r" and r: "r < 64"
    by (metis div_mult_mod_eq mult.commute mod_less_divisor zero_less_numeral)
  have "(119 - r) mod 64 = (if r \<le> 55 then 55 - r else 119 - r)"
    using r by (auto simp: mod_if)
  with M r have "length (fips_pad M) = 64 * (if r \<le> 55 then q + 1 else q + 2)"
    unfolding fips_pad_def by auto
  then show ?thesis by simp
qed

lemma sha1_init_length: "length sha1_init = 5"
  by (simp add: sha1_init_def)

lemma foldl_length: "length h = 5 \<Longrightarrow> length (foldl fips_block h Ms) = 5"
  by (induction Ms arbitrary: h) simp_all

lemma sha1_pieces_fips:
  "sha1_sum (sha1_write (sha1_write (sha1_init, replicate 64 0, 0) p) q) (of_nat (length p + length q)) = sha1 (p @ q)"
proof -
  let ?M = "p @ q" and ?s = "sha1_write (sha1_write (sha1_init, replicate 64 0, 0) p) q"
  have "sha1_holds [] (sha1_init, replicate 64 0, 0)"
    by (simp add: sha1_holds_def)
  from sha1_write_holds [OF sha1_write_holds [OF this, of p], of q] have holds: "sha1_holds ?M ?s"
    by simp
  obtain h block n where s: "?s = (h, block, n)"
    by (metis surj_pair)
  from holds obtain full part where full: "?M = full @ part" "64 dvd length full" "length part = n"
    and n: "length block = 64" "n < 64"
    unfolding s sha1_holds_def by blast
  from full have mod: "n = length ?M mod 64"
    using n(2) by (auto elim!: dvdE)
  let ?tail = "sha1_tail n (push_bit 3 (of_nat (length p + length q)))"
  have "push_bit 3 (of_nat (length p + length q) :: u64) = of_nat (8 * length ?M)"
    by (simp add: push_bit_eq_mult mult.commute)
  then have pad: "?M @ ?tail = fips_pad ?M"
    by (simp only: sha1_tail_def fips_pad_def mod)
  have "sha1_holds (fips_pad ?M) (sha1_write (h, block, n) ?tail)"
    using sha1_write_holds [OF holds, of ?tail] by (simp only: s pad)
  then obtain full part where split: "fips_pad ?M = full @ part" "64 dvd length full" "length part < 64"
    and h': "fst (sha1_write (h, block, n) ?tail) = foldl fips_block sha1_init (blocks full)"
    by (auto simp: sha1_holds_def)
  have "part = []"
    using split fips_pad_length [of ?M] by (metis dvd_add_right_iff length_append length_0_conv nat_dvd_not_less neq0_conv)
  then show ?thesis
    using split h' sha1_sum_write [OF n, of h "of_nat (length p + length q)"]
    unfolding s by (simp add: sha1_def digest_bytes_eq foldl_length sha1_init_length)
qed

text \<open>20 bytes make 28 characters.\<close>

lemma sha1_length: "length (sha1 M) = 20"
proof -
  have "length (concat (map (be_bytes 4) h)) = 4 * length h" for h :: "u32 list"
    by (induction h) simp_all
  then show ?thesis
    by (simp add: sha1_def foldl_length sha1_init_length)
qed

lemma length_base64: "length (base64 bs) = 4 * ((length bs + 2) div 3)"
proof (induction bs rule: base64.induct)
  case (4 a b c bs)
  have "(length bs + 5) div 3 = (length bs + 2) div 3 + 1" by presburger
  with 4 show ?case by (simp add: Let_def add.commute)
qed (simp_all add: Let_def)

text \<open>
  C29. The accept key is RFC 6455's: whatever the client's key, and wherever its end and the GUID's fall in
  the 64-byte block the pieces go through, what is appended to the response is the base64 form, 28
  characters, of the FIPS 180-4 SHA-1 hash of the key followed by the GUID.
\<close>

theorem accept_key_rfc6455:
  "append_accept_key out client_key = out @ base64 (sha1 (client_key @ ws_guid)) \<and>
   length (append_accept_key out client_key) = length out + 28"
  using sha1_pieces_fips [of client_key ws_guid]
  by (simp add: append_accept_key_def Let_def length_base64 sha1_length)

end
