(* ===== verification/H2_Frame.thy ===== *)
theory H2_Frame
  imports Bytes
begin

text \<open>
  The HTTP/2 frame codec, \<^verbatim>\<open>src/http2/frame.v\<close> and \<^verbatim>\<open>types.v\<close>: the nine-byte frame header, SETTINGS payloads
  and the writers of the frames the server sends. A V \<open>int\<close> length is its 32 bits; a frame's type is the
  byte on the wire, since \<^verbatim>\<open>unsafe { FrameType(data[3]) }\<close> lets unknown types through.
\<close>

section \<open>Types\<close>

type_synonym FrameType = byte

abbreviation (input) ft_data :: FrameType where "ft_data \<equiv> 0x0"
abbreviation (input) ft_rst_stream :: FrameType where "ft_rst_stream \<equiv> 0x3"
abbreviation (input) ft_settings :: FrameType where "ft_settings \<equiv> 0x4"
abbreviation (input) ft_ping :: FrameType where "ft_ping \<equiv> 0x6"
abbreviation (input) ft_goaway :: FrameType where "ft_goaway \<equiv> 0x7"
abbreviation (input) ft_window_update :: FrameType where "ft_window_update \<equiv> 0x8"

abbreviation (input) flag_end_stream :: byte where "flag_end_stream \<equiv> 0x01"
abbreviation (input) flag_ack :: byte where "flag_ack \<equiv> 0x01"

datatype ErrorCode =
    no_error | protocol_error | internal_error | flow_control_error | settings_timeout | stream_closed
  | frame_size_error | refused_stream | cancel | compression_error | connect_error | enhance_your_calm
  | inadequate_security | http_1_1_required

primrec error_code :: "ErrorCode \<Rightarrow> u32" where
  "error_code no_error = 0x0"
| "error_code protocol_error = 0x1"
| "error_code internal_error = 0x2"
| "error_code flow_control_error = 0x3"
| "error_code settings_timeout = 0x4"
| "error_code stream_closed = 0x5"
| "error_code frame_size_error = 0x6"
| "error_code refused_stream = 0x7"
| "error_code cancel = 0x8"
| "error_code compression_error = 0x9"
| "error_code connect_error = 0xa"
| "error_code enhance_your_calm = 0xb"
| "error_code inadequate_security = 0xc"
| "error_code http_1_1_required = 0xd"

record FrameHeader =
  fh_length :: u32
  fh_type :: FrameType
  fh_flags :: byte
  fh_stream_id :: u32

record Setting =
  set_id :: u16
  set_val :: u32

section \<open>Codec\<close>

definition frame_header_len :: nat where "frame_header_len = 9"

definition parse_frame_header :: "byte list \<Rightarrow> string + FrameHeader" where
  "parse_frame_header data =
     (if length data < frame_header_len then Inl ''Frame header too short''
      else
        (let len = push_bit 16 (ucast (data ! 0)) OR push_bit 8 (ucast (data ! 1)) OR ucast (data ! 2);
             sid = push_bit 24 (ucast (data ! 5)) OR push_bit 16 (ucast (data ! 6)) OR
                   push_bit 8 (ucast (data ! 7)) OR ucast (data ! 8)
         in Inr \<lparr>fh_length = len, fh_type = data ! 3, fh_flags = data ! 4, fh_stream_id = sid AND 0x7FFFFFFF\<rparr>))"

definition write_frame_header :: "byte list \<Rightarrow> FrameType \<Rightarrow> byte \<Rightarrow> u32 \<Rightarrow> u32 \<Rightarrow> byte list" where
  "write_frame_header out ty flags stream_id len =
     out @ [ucast (drop_bit 16 len AND 0xff), ucast (drop_bit 8 len AND 0xff), ucast (len AND 0xff),
       ty, flags, ucast (drop_bit 24 stream_id AND 0x7f), ucast (drop_bit 16 stream_id AND 0xff),
       ucast (drop_bit 8 stream_id AND 0xff), ucast (stream_id AND 0xff)]"

definition serialize_frame_header :: "FrameHeader \<Rightarrow> byte list" where
  "serialize_frame_header h = write_frame_header [] (fh_type h) (fh_flags h) (fh_stream_id h) (fh_length h)"

definition write_u32 :: "byte list \<Rightarrow> u32 \<Rightarrow> byte list" where
  "write_u32 out v = out @ [ucast (drop_bit 24 v), ucast (drop_bit 16 v AND 0xff), ucast (drop_bit 8 v AND 0xff), ucast (v AND 0xff)]"

definition read_u32 :: "byte list \<Rightarrow> nat \<Rightarrow> u32" where
  "read_u32 buf pos = push_bit 24 (ucast (buf ! pos)) OR push_bit 16 (ucast (buf ! (pos + 1))) OR
     push_bit 8 (ucast (buf ! (pos + 2))) OR ucast (buf ! (pos + 3))"

definition write_setting :: "byte list \<Rightarrow> Setting \<Rightarrow> byte list" where
  "write_setting out s = write_u32 (out @ [ucast (drop_bit 8 (set_id s)), ucast (set_id s AND 0xff)]) (set_val s)"

definition write_settings :: "byte list \<Rightarrow> Setting list \<Rightarrow> byte list" where
  "write_settings out settings =
     foldl write_setting (write_frame_header out ft_settings 0 0 (of_nat (length settings * 6))) settings"

definition write_settings_ack :: "byte list \<Rightarrow> byte list" where
  "write_settings_ack out = write_frame_header out ft_settings flag_ack 0 0"

text \<open>The loop over the payload from \<open>pos\<close>, in steps of 6.\<close>

function parse_settings_from :: "byte list \<Rightarrow> nat \<Rightarrow> Setting list" where
  "parse_settings_from payload pos =
     (if pos < length payload
      then \<lparr>set_id = push_bit 8 (ucast (payload ! pos)) OR ucast (payload ! (pos + 1)),
             set_val = read_u32 payload (pos + 2)\<rparr> # parse_settings_from payload (pos + 6)
      else [])"
  by pat_completeness auto
termination by (relation "measure (\<lambda>(payload, pos). length payload - pos)") auto

declare parse_settings_from.simps [simp del]

definition parse_settings :: "byte list \<Rightarrow> string + Setting list" where
  "parse_settings payload =
     (if length payload mod 6 \<noteq> 0 then Inl ''SETTINGS payload not a multiple of 6''
      else Inr (parse_settings_from payload 0))"

definition write_ping_ack :: "byte list \<Rightarrow> byte list \<Rightarrow> byte list" where
  "write_ping_ack out opaque = write_frame_header out ft_ping flag_ack 0 8 @ opaque"

definition write_goaway :: "byte list \<Rightarrow> u32 \<Rightarrow> ErrorCode \<Rightarrow> byte list" where
  "write_goaway out last_stream_id code =
     write_u32 (write_u32 (write_frame_header out ft_goaway 0 0 8) (last_stream_id AND 0x7fffffff)) (error_code code)"

definition write_rst_stream :: "byte list \<Rightarrow> u32 \<Rightarrow> ErrorCode \<Rightarrow> byte list" where
  "write_rst_stream out stream_id code = write_u32 (write_frame_header out ft_rst_stream 0 stream_id 4) (error_code code)"

definition write_window_update :: "byte list \<Rightarrow> u32 \<Rightarrow> u32 \<Rightarrow> byte list" where
  "write_window_update out stream_id increment =
     write_u32 (write_frame_header out ft_window_update 0 stream_id 4) (increment AND 0x7fffffff)"

definition write_data_header :: "byte list \<Rightarrow> u32 \<Rightarrow> u32 \<Rightarrow> bool \<Rightarrow> byte list" where
  "write_data_header out stream_id len end_stream =
     write_frame_header out ft_data (if end_stream then flag_end_stream else 0) stream_id len"

section \<open>Lemmas\<close>

lemma mask_31: "(x :: u32) AND 0x7FFFFFFF = take_bit 31 x"
  by (simp add: take_bit_eq_mask mask_eq_exp_minus_1)

lemma stream_id_bytes:
  "[ucast (drop_bit 24 i AND 0x7f), ucast (drop_bit 16 i), ucast (drop_bit 8 i), ucast i] = be_bytes 4 (take_bit 31 (i :: u32))"
proof -
  have "drop_bit 24 i AND 0x7f = take_bit 7 (drop_bit 24 i)"
    by (simp add: take_bit_eq_mask mask_eq_exp_minus_1)
  then show ?thesis
    by (auto simp: be_bytes_4 bit_simps intro!: bit_word_eqI)
qed

lemma h2_frame_header_bytes:
  "write_frame_header out ty fl i len = out @ be_bytes 3 len @ [ty, fl] @ be_bytes 4 (take_bit 31 i)"
  unfolding write_frame_header_def stream_id_bytes [symmetric] be_bytes_3 by simp

lemma parse_frame_header_eq:
  assumes "data = l @ [ty, fl] @ i @ rest" and "length l = 3" and "length i = 4"
  shows "parse_frame_header data
    = Inr \<lparr>fh_length = be_word l, fh_type = ty, fh_flags = fl, fh_stream_id = take_bit 31 (be_word i)\<rparr>"
proof -
  from assms(2) obtain a b c where l: "l = [a, b, c]" by (auto simp: length_Suc_conv numeral_eq_Suc)
  from assms(3) obtain p q r s where i: "i = [p, q, r, s]" by (auto simp: length_Suc_conv numeral_eq_Suc)
  have nths: "data ! 0 = a" "data ! 1 = b" "data ! 2 = c" "data ! 3 = ty" "data ! 4 = fl"
    "data ! 5 = p" "data ! 6 = q" "data ! 7 = r" "data ! 8 = s" "\<not> length data < frame_header_len"
    by (simp_all add: assms(1) l i frame_header_len_def)
  show ?thesis
    unfolding parse_frame_header_def Let_def nths be_word_4 unfolding be_word_3 mask_31 l i using nths(10) by simp
qed

lemma write_u32_eq: "write_u32 out v = out @ be_bytes 4 v"
  by (simp add: write_u32_def be_bytes_4)

lemma write_setting_eq: "write_setting out s = out @ be_bytes 2 (set_id s) @ be_bytes 4 (set_val s)"
  by (simp add: write_setting_def write_u32_eq be_bytes_2)

lemma read_u32_eq: "bs = xs @ be_bytes 4 v @ ys \<Longrightarrow> read_u32 bs (length xs) = v"
proof -
  assume bs: "bs = xs @ be_bytes 4 v @ ys"
  have "bs ! (length xs + k) = be_bytes 4 v ! k" if "k < 4" for k
    using that by (simp add: bs nth_append)
  from this [of 0] this [of 1] this [of 2] this [of 3] have "read_u32 bs (length xs) = be_word (be_bytes 4 v)"
    by (simp add: read_u32_def be_word_4 [where 'a = 32, symmetric] be_bytes_4)
  moreover have "unat v < 2 ^ (8 * 4)"
    using unsigned_less [of v] by simp
  ultimately show ?thesis by (simp add: be_word_bytes_id)
qed

lemma foldl_write_setting:
  "foldl write_setting out settings = out @ concat (map (\<lambda>s. be_bytes 2 (set_id s) @ be_bytes 4 (set_val s)) settings)"
  by (induction settings arbitrary: out) (simp_all add: write_setting_eq)

lemma parse_settings_written:
  "parse_settings_from (xs @ concat (map (\<lambda>s. be_bytes 2 (set_id s) @ be_bytes 4 (set_val s)) settings)) (length xs) = settings"
proof (induction settings arbitrary: xs)
  case (Cons s settings)
  let ?rest = "concat (map (\<lambda>s. be_bytes 2 (set_id s) @ be_bytes 4 (set_val s)) settings)"
  let ?p = "xs @ be_bytes 2 (set_id s) @ be_bytes 4 (set_val s) @ ?rest"
  have "?p ! length xs = be_bytes 2 (set_id s) ! 0" "?p ! (length xs + 1) = be_bytes 2 (set_id s) ! 1"
    by (simp_all add: nth_append)
  then have id: "push_bit 8 (ucast (?p ! length xs)) OR ucast (?p ! (length xs + 1)) = set_id s"
    using be_word_bytes_id [of "set_id s" 2] unsigned_less [of "set_id s"]
    by (simp add: be_bytes_2 be_word_2 [where 'a = 16, symmetric])
  have "read_u32 ?p (length xs + 2) = set_val s"
    using read_u32_eq [of ?p "xs @ be_bytes 2 (set_id s)" "set_val s" ?rest] by simp
  with id Cons.IH [of "xs @ be_bytes 2 (set_id s) @ be_bytes 4 (set_val s)"] show ?case
    by (subst parse_settings_from.simps) simp
qed (simp add: parse_settings_from.simps)

section \<open>Properties\<close>

definition header_ok :: "FrameHeader \<Rightarrow> bool" where
  "header_ok h \<longleftrightarrow> unat (fh_length h) < 2 ^ 24 \<and> unat (fh_stream_id h) < 2 ^ 31"

lemma serialize_parse:
  assumes "header_ok h"
  shows "parse_frame_header (serialize_frame_header h @ rest) = Inr h"
proof -
  have "parse_frame_header (serialize_frame_header h @ rest)
      = Inr \<lparr>fh_length = be_word (be_bytes 3 (fh_length h)), fh_type = fh_type h, fh_flags = fh_flags h,
          fh_stream_id = take_bit 31 (be_word (be_bytes 4 (take_bit 31 (fh_stream_id h))))\<rparr>"
    by (rule parse_frame_header_eq) (simp_all add: serialize_frame_header_def h2_frame_header_bytes)
  moreover have "take_bit 31 (fh_stream_id h) = fh_stream_id h"
    using assms take_bit_unat [of "fh_stream_id h" 31] by (simp add: header_ok_def)
  moreover have "be_word (be_bytes 4 (fh_stream_id h)) = fh_stream_id h"
    using assms by (intro be_word_bytes_id) (simp add: header_ok_def)
  ultimately show ?thesis
    using assms be_word_bytes_id [of "fh_length h" 3] by (simp add: header_ok_def)
qed

text \<open>
  C31. A parsed frame header is well-typed: exactly the buffers of at least nine bytes parse, the length is
  below 2^24 and the stream id below 2^31 (the reserved bit is ignored), and writing the header out and
  parsing it again gives the same header, whatever follows.
\<close>

theorem h2_parsed_header_well_typed:
  "(case parse_frame_header data of
      Inl e \<Rightarrow> length data < frame_header_len
    | Inr h \<Rightarrow> frame_header_len \<le> length data \<and> header_ok h \<and>
        parse_frame_header (serialize_frame_header h @ rest) = Inr h)"
proof (cases "length data < frame_header_len")
  case False
  then have "data = take 3 data @ [data ! 3, data ! 4] @ take 4 (drop 5 data) @ drop 9 data"
    using id_take_nth_drop [of 3 data] id_take_nth_drop [of 0 "drop 4 data"] append_take_drop_id [of 4 "drop 5 data"]
    by (simp add: frame_header_len_def Suc_diff_le numeral_eq_Suc)
  then have parsed: "parse_frame_header data = Inr \<lparr>fh_length = be_word (take 3 data), fh_type = data ! 3, fh_flags = data ! 4,
      fh_stream_id = take_bit 31 (be_word (take 4 (drop 5 data)))\<rparr>" (is "_ = Inr ?h")
    by (rule parse_frame_header_eq) (use False in \<open>simp_all add: frame_header_len_def\<close>)
  have "header_ok ?h"
    using be_word_less [of "take 3 data", where 'a = 32] False
    by (simp add: header_ok_def frame_header_len_def unsigned_take_bit_eq take_bit_nat_less_exp [of 31, simplified])
  with parsed serialize_parse [of ?h rest] False show ?thesis by simp
qed (simp add: parse_frame_header_def)

text \<open>
  SETTINGS round trip: the frame \<^verbatim>\<open>write_settings\<close> appends parses as a SETTINGS frame on stream 0 whose
  length is that of its payload, and the payload parses back to the same parameters in order.
\<close>

theorem h2_settings_roundtrip:
  assumes "length settings * 6 < 2 ^ 24" and "frame = drop (length out) (write_settings out settings)"
  shows "\<exists>h. parse_frame_header frame = Inr h \<and> fh_type h = ft_settings \<and> fh_flags h = 0 \<and> fh_stream_id h = 0 \<and>
    unat (fh_length h) = length (drop frame_header_len frame) \<and>
    parse_settings (drop frame_header_len frame) = Inr settings"
proof -
  let ?h = "\<lparr>fh_length = of_nat (length settings * 6), fh_type = ft_settings, fh_flags = 0, fh_stream_id = 0\<rparr>"
  let ?payload = "concat (map (\<lambda>s. be_bytes 2 (set_id s) @ be_bytes 4 (set_val s)) settings)"
  have frame: "frame = serialize_frame_header ?h @ ?payload"
    by (simp add: assms(2) write_settings_def foldl_write_setting serialize_frame_header_def h2_frame_header_bytes)
  have len: "length ?payload = length settings * 6" 
    by (induction settings) simp_all
  have h: "unat (fh_length ?h) = length settings * 6"
    using assms(1) by (simp add: unat_of_nat del: of_nat_mult)
  have "length (serialize_frame_header ?h) = frame_header_len"
    by (simp add: serialize_frame_header_def h2_frame_header_bytes frame_header_len_def)
  then have payload: "drop frame_header_len frame = ?payload"
    by (simp add: frame)
  have "parse_frame_header frame = Inr ?h"
    unfolding frame by (rule serialize_parse) (use h assms(1) in \<open>simp add: header_ok_def\<close>)
  moreover have "parse_settings ?payload = Inr settings"
    using parse_settings_written [of "[]" settings] by (simp add: parse_settings_def len)
  ultimately show ?thesis
    using h len by (intro exI [of _ ?h]) (simp add: payload)
qed

theorem h2_settings_roundtrip_witness:
  "\<exists>h. parse_frame_header (write_settings [] [\<lparr>set_id = 4, set_val = 65535\<rparr>]) = Inr h \<and> unat (fh_length h) = 6"
  using h2_settings_roundtrip [of "[\<lparr>set_id = 4, set_val = 65535\<rparr>]" "write_settings [] [\<lparr>set_id = 4, set_val = 65535\<rparr>]" "[]"]
  by (auto simp: write_settings_def write_setting_eq h2_frame_header_bytes frame_header_len_def)

end
