(* ===== verification/H2_Streams.thy ===== *)
theory H2_Streams
  imports Bytes
begin

text \<open>
  The table of open streams, \<^verbatim>\<open>src/http2/streams.v\<close>: 256 slots, open addressing with linear probing, and
  deletion by shifting later members of the probe run back. The specification is a finite map.
\<close>

section \<open>The table\<close>

definition stream_slots :: nat where "stream_slots = 256"

definition stream_slot_mask :: nat where "stream_slot_mask = 255"

text \<open>An id of 0 is an empty slot; a value is a pointer, \<open>None\<close> being \<^verbatim>\<open>nil\<close>.\<close>

record 's StreamTable =
  ids :: "u32 list"
  vals :: "'s option list"
  len :: nat

definition new_stream_table :: "'s StreamTable" where
  "new_stream_table = \<lparr>ids = replicate stream_slots 0, vals = replicate stream_slots None, len = 0\<rparr>"

definition stream_home :: "u32 \<Rightarrow> nat" where
  "stream_home sid = unat (drop_bit 1 sid) AND stream_slot_mask"

text \<open>The bounded probe loops; \<open>n\<close> slots remain to be looked at.\<close>

fun find_from :: "u32 list \<Rightarrow> u32 \<Rightarrow> nat \<Rightarrow> nat \<Rightarrow> int" where
  "find_from ks sid i 0 = - 1"
| "find_from ks sid i (Suc n) =
     (let k = ks ! i in
      if k = sid then int i
      else if k = 0 then - 1
      else find_from ks sid ((i + 1) AND stream_slot_mask) n)"

definition find_slot :: "'s StreamTable \<Rightarrow> u32 \<Rightarrow> int" where
  "find_slot t sid = (if sid = 0 then - 1 else find_from (ids t) sid (stream_home sid) stream_slots)"

definition get :: "'s StreamTable \<Rightarrow> u32 \<Rightarrow> 's option" where
  "get t sid = (let i = find_slot t sid in if i < 0 then None else vals t ! nat i)"

definition has :: "'s StreamTable \<Rightarrow> u32 \<Rightarrow> bool" where
  "has t sid \<longleftrightarrow> find_slot t sid \<ge> 0"

fun put_from :: "u32 \<Rightarrow> 's \<Rightarrow> nat \<Rightarrow> nat \<Rightarrow> 's StreamTable \<Rightarrow> 's StreamTable" where
  "put_from sid s i 0 t = t"
| "put_from sid s i (Suc n) t =
     (let k = ids t ! i in
      if k = sid then t\<lparr>vals := (vals t)[i := Some s]\<rparr>
      else if k = 0 then t\<lparr>ids := (ids t)[i := sid], vals := (vals t)[i := Some s], len := len t + 1\<rparr>
      else put_from sid s ((i + 1) AND stream_slot_mask) n t)"

definition put :: "u32 \<Rightarrow> 's \<Rightarrow> 's StreamTable \<Rightarrow> 's StreamTable" where
  "put sid s t = put_from sid s (stream_home sid) stream_slots t"

text \<open>The loop that closes the hole has no bound of its own; \<open>None\<close> is a loop that does not end.\<close>

definition stays :: "nat \<Rightarrow> nat \<Rightarrow> nat \<Rightarrow> bool" where
  "stays hole j home = (if hole \<le> j then home > hole \<and> home \<le> j else home > hole \<or> home \<le> j)"

partial_function (option) remove_shift :: "nat \<Rightarrow> nat \<Rightarrow> 's StreamTable \<Rightarrow> (nat \<times> 's StreamTable) option" where
  "remove_shift hole j t =
     (let j' = (j + 1) AND stream_slot_mask; k = ids t ! j' in
      if k = 0 then Some (hole, t)
      else if \<not> stays hole j' (stream_home k)
      then remove_shift j' j' (t\<lparr>ids := (ids t)[hole := k], vals := (vals t)[hole := vals t ! j']\<rparr>)
      else remove_shift hole j' t)"

definition remove :: "u32 \<Rightarrow> 's StreamTable \<Rightarrow> 's StreamTable option" where
  "remove sid t =
     (let hole = find_slot t sid in
      if hole < 0 then Some t
      else do {
        (hole', t') \<leftarrow> remove_shift (nat hole) (nat hole) t;
        Some (t'\<lparr>ids := (ids t')[hole' := 0], vals := (vals t')[hole' := None], len := len t' - 1\<rparr>)
      })"

definition ids_into :: "'s StreamTable \<Rightarrow> u32 list" where
  "ids_into t = (if len t = 0 then [] else filter (\<lambda>k. k \<noteq> 0) (map ((!) (ids t)) [0..<stream_slots]))"

section \<open>Positions around the ring\<close>

text \<open>How far slot \<open>i\<close> lies behind slot \<open>b\<close>, probing forward.\<close>

definition rot :: "nat \<Rightarrow> nat \<Rightarrow> nat" where
  "rot b i = (if b \<le> i then i - b else i + 256 - b)"

lemma and_slot_mask: "n AND stream_slot_mask = n mod 256"
  unfolding stream_slot_mask_def by (rule and_255)

lemma stream_home_less [simp]: "stream_home sid < 256"
  by (simp add: stream_home_def and_slot_mask)

lemma rot_less: "b < 256 \<Longrightarrow> i < 256 \<Longrightarrow> rot b i < 256"
  by (auto simp: rot_def)

lemma rot_self [simp]: "rot b b = 0"
  by (simp add: rot_def)

lemma rot_inj: "b < 256 \<Longrightarrow> i < 256 \<Longrightarrow> j < 256 \<Longrightarrow> rot b i = rot b j \<longleftrightarrow> i = j"
  by (auto simp: rot_def split: if_splits)

lemma rot_next: "i < 256 \<Longrightarrow> m < 256 \<Longrightarrow> m \<noteq> i \<Longrightarrow> rot i m = Suc (rot ((i + 1) mod 256) m)"
  by (auto simp: rot_def mod_if split: if_splits)

text \<open>A probe path seen from a base the path does not cross is an interval.\<close>

lemma rot_path:
  assumes "b < 256" "h < 256" "i < 256" "m < 256" and "rot b h \<le> rot b i"
  shows "rot h m \<le> rot h i \<longleftrightarrow> rot b h \<le> rot b m \<and> rot b m \<le> rot b i"
  using assms by (auto simp: rot_def split: if_splits)

lemma rot_gap:
  assumes "e < 256" "h < 256" "i < 256" and "rot h i < rot h e"
  shows "rot ((e + 1) mod 256) h \<le> rot ((e + 1) mod 256) i"
  using assms by (auto simp: rot_def mod_if split: if_splits)

lemma rot_last: "e < 256 \<Longrightarrow> rot ((e + 1) mod 256) e = 255"
  by (auto simp: rot_def mod_if split: if_splits)

lemma rot_step:
  assumes "b < 256" "j < 256" "rot b j < 255"
  shows "rot b ((j + 1) mod 256) = Suc (rot b j)"
  using assms by (auto simp: rot_def mod_if split: if_splits)

lemma stays_rot:
  assumes "b < 256" "hole < 256" "j < 256" "home < 256" and "rot b hole < rot b j" and "rot b home \<le> rot b j"
  shows "stays hole j home \<longleftrightarrow> rot b hole < rot b home"
  using assms by (auto simp: stays_def rot_def split: if_splits)

section \<open>The invariant\<close>

text \<open>Every slot from an entry's home to the entry is taken.\<close>

definition probed :: "u32 list \<Rightarrow> nat \<Rightarrow> bool" where
  "probed ks i \<longleftrightarrow> (\<forall>m < 256. rot (stream_home (ks ! i)) m \<le> rot (stream_home (ks ! i)) i \<longrightarrow> ks ! m \<noteq> 0)"

definition entries :: "'s StreamTable \<Rightarrow> (u32 \<times> 's option) set" where
  "entries t = {(ids t ! i, vals t ! i) |i. i < 256 \<and> ids t ! i \<noteq> 0}"

definition live :: "'s StreamTable \<Rightarrow> u32 set" where
  "live t = fst ` entries t"

definition table_ok :: "'s StreamTable \<Rightarrow> bool" where
  "table_ok t \<longleftrightarrow>
     length (ids t) = 256 \<and> length (vals t) = 256 \<and>
     (\<forall>i < 256. \<forall>j < 256. ids t ! i \<noteq> 0 \<and> ids t ! i = ids t ! j \<longrightarrow> i = j) \<and>
     (\<forall>i < 256. ids t ! i \<noteq> 0 \<longrightarrow> probed (ids t) i \<and> vals t ! i \<noteq> None) \<and>
     len t = card (live t) \<and> (\<exists>e < 256. ids t ! e = 0)"

lemma table_okD:
  assumes "table_ok t"
  shows "length (ids t) = 256" "length (vals t) = 256"
    "\<And>i j. i < 256 \<Longrightarrow> j < 256 \<Longrightarrow> ids t ! i \<noteq> 0 \<Longrightarrow> ids t ! i = ids t ! j \<Longrightarrow> i = j"
    "\<And>i. i < 256 \<Longrightarrow> ids t ! i \<noteq> 0 \<Longrightarrow> probed (ids t) i" "\<And>i. i < 256 \<Longrightarrow> ids t ! i \<noteq> 0 \<Longrightarrow> vals t ! i \<noteq> None"
    "len t = card (live t)"
  using assms by (auto simp: table_ok_def)

lemma table_ok_empty:
  assumes "table_ok t"
  obtains e where "e < 256" "ids t ! e = 0"
  using assms by (auto simp: table_ok_def)

lemma finite_entries [simp]: "finite (entries t)"
  by (simp add: entries_def)

lemma live_iff: "sid \<in> live t \<longleftrightarrow> sid \<noteq> 0 \<and> (\<exists>i < 256. ids t ! i = sid)"
  by (force simp: live_def entries_def)

lemma finite_live [simp]: "finite (live t)"
  by (simp add: live_def)

lemma table_ok_new: "table_ok new_stream_table"
  by (auto simp: table_ok_def new_stream_table_def stream_slots_def live_def entries_def intro!: exI [of _ 0])

section \<open>Lookup\<close>

lemma find_from_hit:
  assumes "i < 256" and "p < 256" and "ks ! p = sid" and "rot i p < n"
    and "\<And>m. m < 256 \<Longrightarrow> rot i m < rot i p \<Longrightarrow> ks ! m \<noteq> 0 \<and> ks ! m \<noteq> sid"
  shows "find_from ks sid i n = int p"
  using assms
proof (induction n arbitrary: i)
  case (Suc n)
  show ?case
  proof (cases "i = p")
    case True
    with Suc.prems show ?thesis by simp
  next
    case False
    let ?j = "(i + 1) mod 256"
    have p: "rot i p = Suc (rot ?j p)"
      using False Suc.prems rot_next by simp
    have "rot i i < rot i p" using p by simp
    with Suc.prems(1,5) have "ks ! i \<noteq> 0" "ks ! i \<noteq> sid" by blast+
    moreover have "find_from ks sid ?j n = int p"
    proof (rule Suc.IH)
      fix m assume m: "m < 256" "rot ?j m < rot ?j p"
      show "ks ! m \<noteq> 0 \<and> ks ! m \<noteq> sid"
      proof (cases "m = i")
        case True
        with \<open>ks ! i \<noteq> 0\<close> \<open>ks ! i \<noteq> sid\<close> show ?thesis by simp
      next
        case False
        with m Suc.prems(1) p rot_next [of i m] show ?thesis by (intro Suc.prems(5)) simp_all
      qed
    qed (use Suc.prems p in simp_all)
    ultimately show ?thesis by (simp add: and_slot_mask)
  qed
qed simp

lemma find_from_sound: "find_from ks sid i n = int p \<Longrightarrow> ks ! p = sid"
  by (induction ks sid i n rule: find_from.induct) (auto simp: Let_def split: if_splits)

lemma find_from_neg: "find_from ks sid i n < 0 \<or> (\<exists>p. find_from ks sid i n = int p)"
  by (induction ks sid i n rule: find_from.induct) (auto simp: Let_def)

lemma find_slot_hit:
  assumes "table_ok t" and "i < 256" and "ids t ! i = sid" and "sid \<noteq> 0"
  shows "find_slot t sid = int i"
proof -
  have "find_from (ids t) sid (stream_home sid) 256 = int i"
  proof (rule find_from_hit)
    fix m assume m: "m < 256" "rot (stream_home sid) m < rot (stream_home sid) i"
    with table_okD(4) [OF assms(1,2)] assms(3,4) have "ids t ! m \<noteq> 0"
      by (auto simp: probed_def)
    moreover have "ids t ! m \<noteq> sid"
      using table_okD(3) [OF assms(1) m(1) assms(2)] m(2) assms(3,4) by auto
    ultimately show "ids t ! m \<noteq> 0 \<and> ids t ! m \<noteq> sid" ..
  qed (use assms rot_less in auto)
  with assms(4) show ?thesis by (simp add: find_slot_def stream_slots_def)
qed

lemma find_from_less: "i < 256 \<Longrightarrow> find_from ks sid i n = int p \<Longrightarrow> p < 256"
  by (induction ks sid i n rule: find_from.induct) (auto simp: Let_def and_slot_mask split: if_splits)

lemma find_slot_miss:
  assumes "sid \<notin> live t"
  shows "find_slot t sid < 0"
proof (rule ccontr)
  assume "\<not> find_slot t sid < 0"
  then have "sid \<noteq> 0" "\<not> find_from (ids t) sid (stream_home sid) 256 < 0"
    by (auto simp: find_slot_def stream_slots_def split: if_splits)
  with find_from_neg obtain p where p: "find_from (ids t) sid (stream_home sid) 256 = int p" by blast
  from find_from_less [OF stream_home_less p] find_from_sound [OF p] \<open>sid \<noteq> 0\<close> assms show False
    by (auto simp: live_iff)
qed

lemma get_Some: "table_ok t \<Longrightarrow> get t sid = Some v \<longleftrightarrow> (sid, Some v) \<in> entries t"
proof (cases "sid \<in> live t")
  case True
  assume ok: "table_ok t"
  from True obtain i where i: "i < 256" "ids t ! i = sid" "sid \<noteq> 0" by (auto simp: live_iff)
  have "(sid, x) \<in> entries t \<longleftrightarrow> vals t ! i = x" for x
  proof
    assume "(sid, x) \<in> entries t"
    then obtain j where "j < 256" "ids t ! j = sid" "vals t ! j = x" by (auto simp: entries_def)
    with table_okD(3) [OF ok, of i j] i show "vals t ! i = x" by simp
  next
    assume "vals t ! i = x"
    with i show "(sid, x) \<in> entries t" unfolding entries_def by blast
  qed
  moreover have "get t sid = vals t ! i"
    using find_slot_hit [OF ok i] by (simp add: get_def)
  ultimately show ?thesis by simp
next
  case False
  then show ?thesis using find_slot_miss [OF False]
    by (force simp: get_def live_def)
qed

section \<open>Insertion\<close>

lemma put_from_reach:
  assumes "i < 256" and "q < 256" and "ids t ! q = sid \<or> ids t ! q = 0" and "rot i q < n"
    and "\<And>m. m < 256 \<Longrightarrow> rot i m < rot i q \<Longrightarrow> ids t ! m \<noteq> 0 \<and> ids t ! m \<noteq> sid"
  shows "put_from sid s i n t =
    (if ids t ! q = sid then t\<lparr>vals := (vals t)[q := Some s]\<rparr>
     else t\<lparr>ids := (ids t)[q := sid], vals := (vals t)[q := Some s], len := len t + 1\<rparr>)"
  using assms
proof (induction n arbitrary: i)
  case (Suc n)
  show ?case
  proof (cases "i = q")
    case True
    with Suc.prems show ?thesis by auto
  next
    case False
    let ?j = "(i + 1) mod 256"
    have q: "rot i q = Suc (rot ?j q)"
      using False Suc.prems rot_next by simp
    have "rot i i < rot i q" using q by simp
    with Suc.prems(1,5) have i: "ids t ! i \<noteq> 0" "ids t ! i \<noteq> sid" by blast+
    have "ids t ! m \<noteq> 0 \<and> ids t ! m \<noteq> sid" if "m < 256" "rot ?j m < rot ?j q" for m
      using that i Suc.prems(1) Suc.prems(5) [of m] q rot_next [of i m] by (cases "m = i") simp_all
    with Suc.IH [of ?j] Suc.prems q i show ?thesis by (simp add: and_slot_mask)
  qed
qed simp

lemma put_live:
  assumes ok: "table_ok t" and p: "p < 256" "ids t ! p = sid" "sid \<noteq> 0"
  shows "put sid s t = t\<lparr>vals := (vals t)[p := Some s]\<rparr>"
proof -
  have "put_from sid s (stream_home sid) 256 t = t\<lparr>vals := (vals t)[p := Some s]\<rparr>"
  proof (subst put_from_reach [of _ p])
    fix m assume m: "m < 256" "rot (stream_home sid) m < rot (stream_home sid) p"
    with table_okD(4) [OF ok p(1)] p have "ids t ! m \<noteq> 0" by (auto simp: probed_def)
    with table_okD(3) [OF ok m(1) p(1)] m(2) p show "ids t ! m \<noteq> 0 \<and> ids t ! m \<noteq> sid" by auto
  qed (use p rot_less in auto)
  then show ?thesis by (simp add: put_def stream_slots_def)
qed

lemma put_new:
  assumes ok: "table_ok t" and sid: "sid \<noteq> 0" "sid \<notin> live t"
  obtains q where "q < 256" "ids t ! q = 0"
    "\<And>m. m < 256 \<Longrightarrow> rot (stream_home sid) m < rot (stream_home sid) q \<Longrightarrow> ids t ! m \<noteq> 0"
    "put sid s t = t\<lparr>ids := (ids t)[q := sid], vals := (vals t)[q := Some s], len := len t + 1\<rparr>"
proof -
  obtain e where "e < 256" "ids t ! e = 0" using ok by (rule table_ok_empty)
  then obtain q where q: "q < 256" "ids t ! q = 0"
    and least: "\<And>m. m < 256 \<and> ids t ! m = 0 \<Longrightarrow> rot (stream_home sid) q \<le> rot (stream_home sid) m"
    using ex_has_least_nat [of "\<lambda>m. m < 256 \<and> ids t ! m = 0" e "rot (stream_home sid)"] by blast
  have free: "ids t ! m \<noteq> 0" if "m < 256" "rot (stream_home sid) m < rot (stream_home sid) q" for m
    using least [of m] that by auto
  have "put_from sid s (stream_home sid) 256 t
      = t\<lparr>ids := (ids t)[q := sid], vals := (vals t)[q := Some s], len := len t + 1\<rparr>"
  proof (subst put_from_reach [of _ q])
    fix m assume "m < 256" "rot (stream_home sid) m < rot (stream_home sid) q"
    with free sid show "ids t ! m \<noteq> 0 \<and> ids t ! m \<noteq> sid" by (auto simp: live_iff)
  qed (use q sid rot_less in auto)
  with that [OF q free] show thesis by (simp add: put_def stream_slots_def)
qed

text \<open>A table with fewer ids than slots has an empty slot.\<close>

lemma empty_slot:
  assumes "\<And>i j. i < 256 \<Longrightarrow> j < 256 \<Longrightarrow> ids t ! i \<noteq> 0 \<Longrightarrow> ids t ! i = ids t ! j \<Longrightarrow> i = j"
    and "card (live t) < 256"
  shows "\<exists>e < 256. ids t ! e = 0"
proof (rule ccontr)
  assume "\<not> ?thesis"
  then have "live t = (!) (ids t) ` {..<256}" "inj_on ((!) (ids t)) {..<256}"
    using assms(1) by (auto simp: live_iff intro!: inj_onI)
  with assms(2) show False by (simp add: card_image)
qed

text \<open>The entries outside one slot.\<close>

definition entries_but :: "nat \<Rightarrow> 's StreamTable \<Rightarrow> (u32 \<times> 's option) set" where
  "entries_but p t = {(ids t ! i, vals t ! i) |i. i < 256 \<and> i \<noteq> p \<and> ids t ! i \<noteq> 0}"

lemma entries_butI: "i < 256 \<Longrightarrow> i \<noteq> p \<Longrightarrow> ids t ! i \<noteq> 0 \<Longrightarrow> x = (ids t ! i, vals t ! i) \<Longrightarrow> x \<in> entries_but p t"
  unfolding entries_but_def by blast

lemma entries_butE:
  assumes "x \<in> entries_but p t"
  obtains i where "i < 256" "i \<noteq> p" "ids t ! i \<noteq> 0" "x = (ids t ! i, vals t ! i)"
  using assms unfolding entries_but_def by blast

lemma entries_split: "p < 256 \<Longrightarrow> entries t = (if ids t ! p = 0 then {} else {(ids t ! p, vals t ! p)}) \<union> entries_but p t"
  unfolding entries_def entries_but_def by auto

lemma entries_but_cong:
  assumes "\<And>i. i < 256 \<Longrightarrow> i \<noteq> p \<Longrightarrow> ids t' ! i = ids t ! i \<and> vals t' ! i = vals t ! i"
  shows "entries_but p t' = entries_but p t"
  unfolding entries_but_def using assms by (intro Collect_cong) (metis (no_types, lifting))

lemma entries_but_removed:
  assumes "table_ok t" and "p < 256" and "ids t ! p = sid" and "sid \<noteq> 0"
  shows "entries_but p t = {e \<in> entries t. fst e \<noteq> sid}"
proof -
  have "j = p" if "j < 256" "ids t ! j = sid" for j
    using table_okD(3) [OF assms(1), of p j] that assms(2-4) by simp
  then have "sid \<notin> fst ` entries_but p t"
    unfolding entries_but_def by auto
  then show ?thesis
    using entries_split [OF assms(2), of t] assms(3,4) by (auto simp: image_iff)
qed

lemma put_ok:
  assumes ok: "table_ok t" and sid: "sid \<noteq> 0" and room: "sid \<in> live t \<or> len t < 255"
  shows "table_ok (put sid s t) \<and> entries (put sid s t) = insert (sid, Some s) {e \<in> entries t. fst e \<noteq> sid}"
proof (cases "sid \<in> live t")
  case True
  then obtain p where p: "p < 256" "ids t ! p = sid" by (auto simp: live_iff)
  let ?t = "t\<lparr>vals := (vals t)[p := Some s]\<rparr>"
  have "entries_but p ?t = entries_but p t"
    by (rule entries_but_cong) simp
  then have entries: "entries ?t = insert (sid, Some s) {e \<in> entries t. fst e \<noteq> sid}"
    using entries_split [OF p(1), of ?t] entries_but_removed [OF ok p sid] p sid table_okD(2) [OF ok] by simp
  then have "live ?t = live t"
    using True by (auto simp: live_def)
  moreover have "vals ?t ! i \<noteq> None" if "i < 256" "ids t ! i \<noteq> 0" for i
    using table_okD(2,5) [OF ok] that by (cases "i = p") simp_all
  ultimately have "table_ok ?t"
    using ok unfolding table_ok_def by (auto simp del: not_None_eq)
  with entries put_live [OF ok p sid] show ?thesis by simp
next
  case False
  from ok sid False obtain q where q: "q < 256" "ids t ! q = 0"
    and free: "\<And>m. m < 256 \<Longrightarrow> rot (stream_home sid) m < rot (stream_home sid) q \<Longrightarrow> ids t ! m \<noteq> 0"
    and t': "put sid s t = t\<lparr>ids := (ids t)[q := sid], vals := (vals t)[q := Some s], len := len t + 1\<rparr>" (is "_ = ?t")
    by (rule put_new [where s = s]) blast
  note okD = table_okD [OF ok]
  have ids: "(ids t)[q := sid] ! i = (if i = q then sid else ids t ! i)" if "i < 256" for i
    using okD(1) that by (simp add: nth_list_update)
  have "entries_but q ?t = entries_but q t"
    by (rule entries_but_cong) simp
  then have "entries ?t = insert (sid, Some s) (entries t)"
    using entries_split [OF q(1), of t] entries_split [OF q(1), of ?t] q okD(1,2) sid by simp
  moreover have "{e \<in> entries t. fst e \<noteq> sid} = entries t"
    using False by (auto simp: live_def image_iff)
  ultimately have entries: "entries ?t = insert (sid, Some s) {e \<in> entries t. fst e \<noteq> sid}" by simp
  have live: "live ?t = insert sid (live t)"
    unfolding live_def \<open>entries ?t = insert (sid, Some s) (entries t)\<close> by simp
  then have card: "card (live ?t) = len t + 1"
    using False okD(6) by simp
  have distinct: "i = j" if "i < 256" "j < 256" "ids ?t ! i \<noteq> 0" "ids ?t ! i = ids ?t ! j" for i j
    using that False sid okD(3) [of i j] by (auto simp: ids live_iff split: if_splits)
  have "probed (ids ?t) i \<and> vals ?t ! i \<noteq> None" if "i < 256" "ids ?t ! i \<noteq> 0" for i
  proof (cases "i = q")
    case True
    have "ids ?t ! m \<noteq> 0" if "m < 256" "rot (stream_home sid) m \<le> rot (stream_home sid) q" for m
      using that free [of m] sid rot_inj [of "stream_home sid" m q] q(1) by (auto simp: ids le_less)
    with True q okD(1,2) show ?thesis by (simp add: probed_def ids)
  next
    case False
    with that okD(4,5) [of i] have "probed (ids t) i" "vals t ! i \<noteq> None" by (simp_all add: ids)
    with False that sid show ?thesis by (auto simp: probed_def ids)
  qed
  with okD(1,2) distinct card empty_slot [of ?t] room False have "table_ok ?t"
    unfolding table_ok_def by auto
  with entries t' show ?thesis by simp
qed

section \<open>Deletion\<close>

text \<open>
  Seen from the slot behind an empty one, every probe path is an interval. While the hole moves, the
  slots from the hole to \<open>j\<close> are taken, every other entry has a taken path, and an entry between the
  hole and \<open>j\<close> has its home behind the hole.
\<close>

abbreviation (input) behind :: "nat \<Rightarrow> nat" where "behind e \<equiv> (e + 1) mod 256"

definition path_taken :: "nat \<Rightarrow> u32 list \<Rightarrow> nat \<Rightarrow> bool" where
  "path_taken b ks i \<longleftrightarrow> rot b (stream_home (ks ! i)) \<le> rot b i \<and>
     (\<forall>m < 256. rot b (stream_home (ks ! i)) \<le> rot b m \<and> rot b m \<le> rot b i \<longrightarrow> ks ! m \<noteq> 0)"

definition shift_ok :: "nat \<Rightarrow> nat \<Rightarrow> nat \<Rightarrow> 's StreamTable \<Rightarrow> bool" where
  "shift_ok e hole j t \<longleftrightarrow>
     e < 256 \<and> hole < 256 \<and> j < 256 \<and> length (ids t) = 256 \<and> length (vals t) = 256 \<and> ids t ! e = 0 \<and>
     rot (behind e) hole \<le> rot (behind e) j \<and>
     (\<forall>m < 256. rot (behind e) hole \<le> rot (behind e) m \<and> rot (behind e) m \<le> rot (behind e) j \<longrightarrow> ids t ! m \<noteq> 0) \<and>
     (\<forall>i < 256. \<forall>k < 256. i \<noteq> hole \<and> k \<noteq> hole \<and> ids t ! i \<noteq> 0 \<and> ids t ! i = ids t ! k \<longrightarrow> i = k) \<and>
     (\<forall>i < 256. i \<noteq> hole \<and> ids t ! i \<noteq> 0 \<longrightarrow> vals t ! i \<noteq> None \<and> path_taken (behind e) (ids t) i \<and>
        (rot (behind e) hole < rot (behind e) i \<and> rot (behind e) i \<le> rot (behind e) j \<longrightarrow>
           rot (behind e) hole < rot (behind e) (stream_home (ids t ! i))))"

lemma shift_okD:
  assumes "shift_ok e hole j t"
  shows "e < 256" "hole < 256" "j < 256" "length (ids t) = 256" "length (vals t) = 256" "ids t ! e = 0"
    "rot (behind e) hole \<le> rot (behind e) j"
    "\<And>m. m < 256 \<Longrightarrow> rot (behind e) hole \<le> rot (behind e) m \<Longrightarrow> rot (behind e) m \<le> rot (behind e) j \<Longrightarrow> ids t ! m \<noteq> 0"
    "\<And>i k. i < 256 \<Longrightarrow> k < 256 \<Longrightarrow> i \<noteq> hole \<Longrightarrow> k \<noteq> hole \<Longrightarrow> ids t ! i \<noteq> 0 \<Longrightarrow> ids t ! i = ids t ! k \<Longrightarrow> i = k"
    "\<And>i. i < 256 \<Longrightarrow> i \<noteq> hole \<Longrightarrow> ids t ! i \<noteq> 0 \<Longrightarrow> vals t ! i \<noteq> None"
    "\<And>i. i < 256 \<Longrightarrow> i \<noteq> hole \<Longrightarrow> ids t ! i \<noteq> 0 \<Longrightarrow> path_taken (behind e) (ids t) i"
    "\<And>i. i < 256 \<Longrightarrow> i \<noteq> hole \<Longrightarrow> ids t ! i \<noteq> 0 \<Longrightarrow> rot (behind e) hole < rot (behind e) i \<Longrightarrow>
       rot (behind e) i \<le> rot (behind e) j \<Longrightarrow> rot (behind e) hole < rot (behind e) (stream_home (ids t ! i))"
  using assms unfolding shift_ok_def by blast+

lemma probed_path:
  assumes "e < 256" and "ids t ! e = 0" and "i < 256" and "probed (ids t) i"
  shows "path_taken (behind e) (ids t) i"
proof -
  let ?h = "stream_home (ids t ! i)"
  have "rot ?h i < rot ?h e"
    using assms by (auto simp: probed_def not_le [symmetric])
  then have le: "rot (behind e) ?h \<le> rot (behind e) i"
    using rot_gap assms by simp
  have "ids t ! m \<noteq> 0" if "m < 256" "rot (behind e) ?h \<le> rot (behind e) m" "rot (behind e) m \<le> rot (behind e) i" for m
    using rot_path [of "behind e" ?h i m] that le assms by (simp add: probed_def)
  with le show ?thesis by (simp add: path_taken_def)
qed

lemma shift_ok_start:
  assumes "table_ok t" and "e < 256" "ids t ! e = 0" and "p < 256" "ids t ! p \<noteq> 0"
  shows "shift_ok e p p t"
  unfolding shift_ok_def
proof (intro conjI allI impI)
  note okD = table_okD [OF assms(1)]
  show "length (ids t) = 256" "length (vals t) = 256" by (fact okD)+
  fix m assume "m < 256" "rot (behind e) p \<le> rot (behind e) m \<and> rot (behind e) m \<le> rot (behind e) p"
  then have "m = p" using rot_inj [of "behind e" m p] assms(4) by simp
  with assms(5) show "ids t ! m \<noteq> 0" by simp
next
  fix i k assume "i < 256" "k < 256" "i \<noteq> p \<and> k \<noteq> p \<and> ids t ! i \<noteq> 0 \<and> ids t ! i = ids t ! k"
  with table_okD(3) [OF assms(1)] show "i = k" by blast
next
  fix i assume "i < 256" "i \<noteq> p \<and> ids t ! i \<noteq> 0"
  with table_okD(4,5) [OF assms(1)] probed_path [OF assms(2,3)]
  show "vals t ! i \<noteq> None" "path_taken (behind e) (ids t) i" by blast+
qed (use assms in simp_all)

lemma shift_ok_next:
  assumes "shift_ok e hole j t"
  shows "rot (behind e) (behind j) = Suc (rot (behind e) j)" and "behind j < 256" and "behind j \<noteq> hole"
proof -
  note D = shift_okD [OF assms]
  have "ids t ! j \<noteq> 0" using D(8) [of j] D(3,7) by simp
  then have "j \<noteq> e" using D(6) by auto
  then have "rot (behind e) j \<noteq> 255"
    using rot_inj [of "behind e" j e] rot_last [OF D(1)] D(1,3) by auto
  then have "rot (behind e) j < 255"
    using rot_less [of "behind e" j] D(3) by simp
  then show nxt: "rot (behind e) (behind j) = Suc (rot (behind e) j)"
    using rot_step D(3) by simp
  then show "behind j \<noteq> hole" using D(7) by auto
qed simp

lemma shift_ok_stays:
  assumes "shift_ok e hole j t" and "ids t ! behind j \<noteq> 0"
  shows "stays hole (behind j) (stream_home (ids t ! behind j)) \<longleftrightarrow>
    rot (behind e) hole < rot (behind e) (stream_home (ids t ! behind j))"
proof -
  note D = shift_okD [OF assms(1)] and N = shift_ok_next [OF assms(1)]
  have "rot (behind e) (stream_home (ids t ! behind j)) \<le> rot (behind e) (behind j)"
    using D(11) [OF N(2,3) assms(2)] by (simp add: path_taken_def)
  with D(2,7) N show ?thesis by (intro stays_rot) simp_all
qed

lemma shift_ok_skip:
  assumes "shift_ok e hole j t" and "ids t ! behind j \<noteq> 0"
    and "rot (behind e) hole < rot (behind e) (stream_home (ids t ! behind j))"
  shows "shift_ok e hole (behind j) t"
  unfolding shift_ok_def
proof (intro conjI allI impI)
  note D = shift_okD [OF assms(1)] and N = shift_ok_next [OF assms(1)]
  show "e < 256" "hole < 256" "length (ids t) = 256" "length (vals t) = 256" "ids t ! e = 0" by (fact D)+
  show "behind j < 256" by simp
  show "rot (behind e) hole \<le> rot (behind e) (behind j)" using D(7) N(1) by simp
  have last: "i = behind j" if "i < 256" "rot (behind e) i \<le> rot (behind e) (behind j)" "\<not> rot (behind e) i \<le> rot (behind e) j" for i
    using that N(1,2) rot_inj [of "behind e" i "behind j"] by simp
  show "ids t ! m \<noteq> 0"
    if "m < 256" "rot (behind e) hole \<le> rot (behind e) m \<and> rot (behind e) m \<le> rot (behind e) (behind j)" for m
    using that D(8) [of m] last [of m] assms(2) by (cases "rot (behind e) m \<le> rot (behind e) j") auto
  show "i = k" if "i < 256" "k < 256" "i \<noteq> hole \<and> k \<noteq> hole \<and> ids t ! i \<noteq> 0 \<and> ids t ! i = ids t ! k" for i k
    using that D(9) by blast
  fix i assume i: "i < 256" "i \<noteq> hole \<and> ids t ! i \<noteq> 0"
  then show "vals t ! i \<noteq> None" "path_taken (behind e) (ids t) i" using D(10,11) by blast+
  assume "rot (behind e) hole < rot (behind e) i \<and> rot (behind e) i \<le> rot (behind e) (behind j)"
  with i D(12) [of i] last [of i] assms(3) show "rot (behind e) hole < rot (behind e) (stream_home (ids t ! i))"
    by (cases "rot (behind e) i \<le> rot (behind e) j") auto
qed

lemma shift_ok_move:
  assumes "shift_ok e hole j t" and k: "ids t ! behind j \<noteq> 0"
    and home: "\<not> rot (behind e) hole < rot (behind e) (stream_home (ids t ! behind j))"
    and t': "t' = t\<lparr>ids := (ids t)[hole := ids t ! behind j], vals := (vals t)[hole := vals t ! behind j]\<rparr>"
  shows "shift_ok e (behind j) (behind j) t'" and "entries_but (behind j) t' = entries_but hole t"
proof -
  note D = shift_okD [OF assms(1)] and N = shift_ok_next [OF assms(1)]
  let ?k = "ids t ! behind j"
  have ids: "ids t' ! i = (if i = hole then ?k else ids t ! i)"
    and vals: "vals t' ! i = (if i = hole then vals t ! behind j else vals t ! i)" if "i < 256" for i
    using that D(4,5) by (simp_all add: t' nth_list_update)
  have zero: "ids t' ! m \<noteq> 0" if "m < 256" "ids t ! m \<noteq> 0" for m
    using that k by (simp add: ids)
  have "hole \<noteq> e" using D(8) [of hole] D(2,6,7) by auto
  show "shift_ok e (behind j) (behind j) t'"
    unfolding shift_ok_def
  proof (intro conjI allI impI)
    show "e < 256" "behind j < 256" "length (ids t') = 256" "length (vals t') = 256"
      using D(1,4,5) by (simp_all add: t')
    then show "behind j < 256" by simp
    show "ids t' ! e = 0" using D(1,6) \<open>hole \<noteq> e\<close> by (simp add: ids)
    show "rot (behind e) (behind j) \<le> rot (behind e) (behind j)" by simp
    show "ids t' ! m \<noteq> 0"
      if "m < 256" "rot (behind e) (behind j) \<le> rot (behind e) m \<and> rot (behind e) m \<le> rot (behind e) (behind j)" for m
    proof -
      have "m = behind j" using that N(2) rot_inj [of "behind e" m "behind j"] by simp
      with k zero N(2) show ?thesis by simp
    qed
    show "i = i'" if "i < 256" "i' < 256" "i \<noteq> behind j \<and> i' \<noteq> behind j \<and> ids t' ! i \<noteq> 0 \<and> ids t' ! i = ids t' ! i'" for i i'
    proof -
      from that have "ids t' ! i = ids t' ! i'" "ids t' ! i \<noteq> 0" "i \<noteq> behind j" "i' \<noteq> behind j" by blast+
      with that(1,2) D(9) [of i i'] D(9) [of "behind j" i'] D(9) [OF _ N(2), of i] N(2,3) show ?thesis
        by (cases "i = hole"; cases "i' = hole") (simp_all only: ids if_True if_False simp_thms, metis+)
    qed
    fix i assume i: "i < 256" "i \<noteq> behind j \<and> ids t' ! i \<noteq> 0"
    show "vals t' ! i \<noteq> None"
      using i D(10) [of i] D(10) [OF N(2,3) k] by (auto simp: ids vals split: if_splits)
    show "path_taken (behind e) (ids t') i"
    proof (cases "i = hole")
      case True
      have "path_taken (behind e) (ids t) (behind j)" using D(11) [OF N(2,3) k] .
      with True home D(2,7) N(1) zero show ?thesis
        by (auto simp: path_taken_def ids)
    next
      case False
      with i D(11) [of i] zero show ?thesis by (auto simp: path_taken_def ids)
    qed
  qed simp_all
  show "entries_but (behind j) t' = entries_but hole t"
  proof (intro set_eqI iffI)
    fix x assume "x \<in> entries_but (behind j) t'"
    then obtain i where i: "i < 256" "i \<noteq> behind j" "ids t' ! i \<noteq> 0" "x = (ids t' ! i, vals t' ! i)"
      by (rule entries_butE)
    show "x \<in> entries_but hole t"
    proof (cases "i = hole")
      case True
      then have "x = (ids t ! behind j, vals t ! behind j)" using i(4) ids [OF D(2)] vals [OF D(2)] by simp
      with N(2,3) k show ?thesis by (rule entries_butI)
    next
      case False
      with i show ?thesis by (intro entries_butI [of i]) (simp_all add: ids vals)
    qed
  next
    fix x assume "x \<in> entries_but hole t"
    then obtain i where i: "i < 256" "i \<noteq> hole" "ids t ! i \<noteq> 0" "x = (ids t ! i, vals t ! i)"
      by (rule entries_butE)
    show "x \<in> entries_but (behind j) t'"
    proof (cases "i = behind j")
      case True
      then have "x = (ids t' ! hole, vals t' ! hole)" using i(4) ids [OF D(2)] vals [OF D(2)] by simp
      with N(3) zero [OF D(2)] k D(2) show ?thesis
        by (intro entries_butI [of hole]) (simp_all add: ids)
    next
      case False
      with i show ?thesis by (intro entries_butI [of i]) (simp_all add: ids vals)
    qed
  qed
qed

lemma remove_shift_ok:
  assumes "shift_ok e hole j t"
  shows "\<exists>hole' t' j'. remove_shift hole j t = Some (hole', t') \<and> shift_ok e hole' j' t' \<and> ids t' ! behind j' = 0 \<and>
    entries_but hole' t' = entries_but hole t \<and> len t' = len t"
  using assms
proof (induction "255 - rot (behind e) j" arbitrary: hole j t rule: less_induct)
  case less
  note N = shift_ok_next [OF less.prems]
  have bound: "rot (behind e) j < 255"
    using N(1) rot_less [of "behind e" "behind j"] N(2) by simp
  show ?case
  proof (cases "ids t ! behind j = 0")
    case True
    with less.prems show ?thesis
      by (subst remove_shift.simps) (auto simp: and_slot_mask)
  next
    case taken: False
    show ?thesis
    proof (cases "rot (behind e) hole < rot (behind e) (stream_home (ids t ! behind j))")
      case True
      then have "remove_shift hole j t = remove_shift hole (behind j) t"
        using taken shift_ok_stays [OF less.prems taken] by (subst remove_shift.simps) (simp add: and_slot_mask Let_def)
      with less.hyps [OF _ shift_ok_skip [OF less.prems taken True]] N(1) bound show ?thesis by simp
    next
      case False
      let ?t = "t\<lparr>ids := (ids t)[hole := ids t ! behind j], vals := (vals t)[hole := vals t ! behind j]\<rparr>"
      have "remove_shift hole j t = remove_shift (behind j) (behind j) ?t"
        using taken False shift_ok_stays [OF less.prems taken] by (subst remove_shift.simps) (simp add: and_slot_mask Let_def)
      with less.hyps [OF _ shift_ok_move(1) [OF less.prems taken False, of ?t]]
        shift_ok_move(2) [OF less.prems taken False, of ?t] N(1) bound show ?thesis by simp
    qed
  qed
qed

lemma shift_ok_end:
  assumes "shift_ok e hole j t" and "ids t ! behind j = 0"
    and t': "t' = t\<lparr>ids := (ids t)[hole := 0], vals := (vals t)[hole := None], len := n\<rparr>"
    and n: "n = card (live t')"
  shows "table_ok t'" and "entries t' = entries_but hole t"
proof -
  note D = shift_okD [OF assms(1)] and N = shift_ok_next [OF assms(1)]
  have ids: "ids t' ! i = (if i = hole then 0 else ids t ! i)"
    and vals: "vals t' ! i = (if i = hole then None else vals t ! i)" if "i < 256" for i
    using that D(4,5) by (simp_all add: t' nth_list_update)
  have probed: "probed (ids t') i" if i: "i < 256" "i \<noteq> hole" "ids t ! i \<noteq> 0" for i
  proof -
    let ?h = "stream_home (ids t ! i)"
    have path: "rot (behind e) ?h \<le> rot (behind e) i"
      "\<And>m. m < 256 \<Longrightarrow> rot (behind e) ?h \<le> rot (behind e) m \<Longrightarrow> rot (behind e) m \<le> rot (behind e) i \<Longrightarrow> ids t ! m \<noteq> 0"
      using D(11) [OF i] by (simp_all add: path_taken_def)
    have "ids t' ! m \<noteq> 0" if m: "m < 256" "rot ?h m \<le> rot ?h i" for m
    proof -
      have between: "rot (behind e) ?h \<le> rot (behind e) m" "rot (behind e) m \<le> rot (behind e) i"
        using rot_path [of "behind e" ?h i m] m i path(1) by simp_all
      have "m \<noteq> hole"
      proof
        assume "m = hole"
        with between have "rot (behind e) hole < rot (behind e) i"
          using rot_inj [of "behind e" hole i] D(2) i by (simp add: le_less)
        with D(12) [OF i] between \<open>m = hole\<close> have "rot (behind e) j < rot (behind e) i" by fastforce
        with path(2) [OF N(2)] N(1) between \<open>m = hole\<close> D(7) assms(2) show False by simp
      qed
      with path(2) [OF m(1) between] m(1) show ?thesis by (simp add: ids)
    qed
    with i show ?thesis by (simp add: probed_def ids)
  qed
  have "entries_but hole t' = entries_but hole t"
    by (rule entries_but_cong) (simp add: ids vals)
  then show "entries t' = entries_but hole t"
    using entries_split [OF D(2), of t'] D(2) by (simp add: ids)
  have "\<And>i j. i < 256 \<Longrightarrow> j < 256 \<Longrightarrow> ids t' ! i \<noteq> 0 \<Longrightarrow> ids t' ! i = ids t' ! j \<Longrightarrow> i = j"
    using D(9) by (simp add: ids split: if_splits)
  moreover have "\<exists>e < 256. ids t' ! e = 0"
    using D(1,6) by (auto simp: ids)
  moreover have "probed (ids t') i \<and> vals t' ! i \<noteq> None" if "i < 256" "ids t' ! i \<noteq> 0" for i
    using that probed [of i] D(10) [of i] by (simp add: ids vals split: if_splits)
  moreover have "length (ids t') = 256" "length (vals t') = 256" "len t' = n"
    using D(4,5) by (simp_all add: t')
  moreover note n
  ultimately show "table_ok t'"
    unfolding table_ok_def by metis
qed

lemma remove_ok:
  assumes ok: "table_ok t"
  shows "\<exists>t'. remove sid t = Some t' \<and> table_ok t' \<and> entries t' = {e \<in> entries t. fst e \<noteq> sid}"
proof (cases "sid \<in> live t")
  case False
  then have "{e \<in> entries t. fst e \<noteq> sid} = entries t" by (auto simp: live_def image_iff)
  with ok find_slot_miss [OF False] show ?thesis by (simp add: remove_def)
next
  case True
  then obtain p where p: "p < 256" "ids t ! p = sid" "sid \<noteq> 0" by (auto simp: live_iff)
  obtain e where "e < 256" "ids t ! e = 0" using ok by (rule table_ok_empty)
  with ok p have "shift_ok e p p t" by (intro shift_ok_start) simp_all
  from remove_shift_ok [OF this] obtain hole t1 j where
    shift: "remove_shift p p t = Some (hole, t1)" and end1: "shift_ok e hole j t1" "ids t1 ! behind j = 0" and
    same: "entries_but hole t1 = entries_but p t" "len t1 = len t"
    by blast
  define t' where "t' = t1\<lparr>ids := (ids t1)[hole := 0], vals := (vals t1)[hole := None], len := len t1 - 1\<rparr>"
  have removed: "remove sid t = Some t'"
    using find_slot_hit [OF ok p] shift by (simp add: remove_def t'_def)
  have "entries t' = entries_but hole t1"
    using shift_ok_end(2) [OF end1, of "t'\<lparr>len := card (live t')\<rparr>" "card (live t')"]
    by (simp add: t'_def entries_def live_def)
  with same(1) entries_but_removed [OF ok p] have entries: "entries t' = {e \<in> entries t. fst e \<noteq> sid}" by simp
  then have "live t' = live t - {sid}" by (auto simp: live_def)
  then have "len t1 - 1 = card (live t')"
    using True same(2) table_okD(6) [OF ok] by simp
  with shift_ok_end(1) [OF end1 t'_def] entries removed show ?thesis by blast
qed

section \<open>A map of streams\<close>

text \<open>What a connection needs of the table: a finite map with room for \<open>limit\<close> streams.\<close>

datatype 's stream_op = Put u32 's | Remove u32

primrec map_ops :: "'s stream_op list \<Rightarrow> (u32 \<rightharpoonup> 's) \<Rightarrow> (u32 \<rightharpoonup> 's)" where
  "map_ops [] m = m"
| "map_ops (op # ops) m = map_ops ops (case op of Put sid s \<Rightarrow> m(sid \<mapsto> s) | Remove sid \<Rightarrow> m(sid := None))"

text \<open>Streams are not numbered 0, and never more than \<open>limit\<close> are open at once.\<close>

primrec within :: "nat \<Rightarrow> 's stream_op list \<Rightarrow> (u32 \<rightharpoonup> 's) \<Rightarrow> bool" where
  "within limit [] m = True"
| "within limit (op # ops) m =
     (case op of
        Put sid s \<Rightarrow> sid \<noteq> 0 \<and> card (dom (m(sid \<mapsto> s))) \<le> limit \<and> within limit ops (m(sid \<mapsto> s))
      | Remove sid \<Rightarrow> within limit ops (m(sid := None)))"

primrec run_ops :: "(u32 \<Rightarrow> 's \<Rightarrow> 't \<Rightarrow> 't) \<Rightarrow> (u32 \<Rightarrow> 't \<Rightarrow> 't option) \<Rightarrow> 's stream_op list \<Rightarrow> 't \<Rightarrow> 't option" where
  "run_ops ins del [] t = Some t"
| "run_ops ins del (op # ops) t =
     (case op of
        Put sid s \<Rightarrow> run_ops ins del ops (ins sid s t)
      | Remove sid \<Rightarrow> Option.bind (del sid t) (run_ops ins del ops))"

locale stream_map =
  fixes empty :: 't
    and lookup :: "'t \<Rightarrow> u32 \<Rightarrow> 's option"
    and insert_op :: "u32 \<Rightarrow> 's \<Rightarrow> 't \<Rightarrow> 't"
    and delete_op :: "u32 \<Rightarrow> 't \<Rightarrow> 't option"
    and members :: "'t \<Rightarrow> u32 list"
    and invar :: "'t \<Rightarrow> bool"
    and limit :: nat
  assumes invar_empty: "invar empty" and lookup_empty: "lookup empty = Map.empty"
    and insert_law: "invar t \<Longrightarrow> sid \<noteq> 0 \<Longrightarrow> card (dom ((lookup t)(sid \<mapsto> s))) \<le> limit \<Longrightarrow>
      invar (insert_op sid s t) \<and> lookup (insert_op sid s t) = (lookup t)(sid \<mapsto> s)"
    and delete_law: "invar t \<Longrightarrow> \<exists>t'. delete_op sid t = Some t' \<and> invar t' \<and> lookup t' = (lookup t)(sid := None)"
    and members_law: "invar t \<Longrightarrow> distinct (members t) \<and> set (members t) = dom (lookup t)"
begin

lemma run_ops_map:
  assumes "invar t" and "within limit ops (lookup t)"
  shows "\<exists>t'. run_ops insert_op delete_op ops t = Some t' \<and> invar t' \<and> lookup t' = map_ops ops (lookup t)"
  using assms
proof (induction ops arbitrary: t)
  case (Cons op ops)
  show ?case
  proof (cases op)
    case (Put sid s)
    have law: "invar (insert_op sid s t)" "lookup (insert_op sid s t) = (lookup t)(sid \<mapsto> s)"
      using insert_law [of t sid s] Cons.prems Put by simp_all
    show ?thesis
      using Cons.IH [OF law(1)] Cons.prems(2) unfolding law(2) by (simp add: Put del: fun_upd_apply)
  next
    case (Remove sid)
    obtain t' where "delete_op sid t = Some t'" "invar t'" "lookup t' = (lookup t)(sid := None)"
      using delete_law [OF Cons.prems(1)] by blast
    with Remove Cons.prems Cons.IH [of t'] show ?thesis by (simp del: fun_upd_apply)
  qed
qed simp

end

text \<open>The table as such a map, with room for the streams of a connection.\<close>

definition max_concurrent_streams :: nat where "max_concurrent_streams = 128"

lemma dom_get: "table_ok t \<Longrightarrow> dom (get t) = live t"
proof (intro set_eqI iffI)
  fix sid assume ok: "table_ok t"
  { assume "sid \<in> dom (get t)"
    then obtain v where "get t sid = Some v" by blast
    with get_Some [OF ok] show "sid \<in> live t" by (force simp: live_def) }
  { assume "sid \<in> live t"
    then obtain i where i: "i < 256" "ids t ! i = sid" "sid \<noteq> 0" by (auto simp: live_iff)
    from table_okD(5) [OF ok i(1)] i find_slot_hit [OF ok i] show "sid \<in> dom (get t)"
      by (auto simp: get_def) }
qed

lemma get_filter:
  assumes "table_ok t" and "table_ok t'" and "entries t' = E \<union> {e \<in> entries t. fst e \<noteq> sid}" and "\<And>e. e \<in> E \<Longrightarrow> fst e = sid"
  shows "k \<noteq> sid \<Longrightarrow> get t' k = get t k"
proof -
  assume "k \<noteq> sid"
  then have "get t' k = Some v \<longleftrightarrow> get t k = Some v" for v
    using get_Some [OF assms(1)] get_Some [OF assms(2)] assms(3,4) by force
  then show ?thesis by (cases "get t k"; cases "get t' k") auto
qed

lemma get_put:
  assumes ok: "table_ok t" and "sid \<noteq> 0" and "sid \<in> live t \<or> len t < 255"
  shows "get (put sid s t) = (get t)(sid \<mapsto> s)"
proof
  fix k
  note P = put_ok [OF assms, of s]
  show "get (put sid s t) k = ((get t)(sid \<mapsto> s)) k"
    using get_filter [OF ok, of "put sid s t" "{(sid, Some s)}" sid k] get_Some [of "put sid s t" sid s] P
    by (cases "k = sid") auto
qed

lemma get_remove:
  assumes ok: "table_ok t"
  shows "\<exists>t'. remove sid t = Some t' \<and> table_ok t' \<and> get t' = (get t)(sid := None)"
proof -
  obtain t' where t': "remove sid t = Some t'" "table_ok t'" "entries t' = {e \<in> entries t. fst e \<noteq> sid}"
    using remove_ok [OF ok] by blast
  have "get t' k = ((get t)(sid := None)) k" for k
  proof (cases "k = sid")
    case True
    have "sid \<notin> live t'" by (auto simp: live_def t'(3))
    with True find_slot_miss [of sid t'] show ?thesis by (simp add: get_def)
  next
    case False
    with get_filter [OF ok t'(2), of "{}" sid k] t'(3) show ?thesis by simp
  qed
  with t' show ?thesis by blast
qed

lemma distinct_filter_nth:
  assumes "\<And>i j. i < length xs \<Longrightarrow> j < length xs \<Longrightarrow> P (xs ! i) \<Longrightarrow> xs ! i = xs ! j \<Longrightarrow> i = j"
  shows "distinct (filter P xs)"
  using assms
proof (induction xs)
  case (Cons x xs)
  have "distinct (filter P xs)"
    using Cons.prems [of "Suc _" "Suc _"] by (intro Cons.IH) auto
  moreover have "x \<notin> set xs" if "P x"
  proof
    assume "x \<in> set xs"
    then obtain k where "k < length xs" "xs ! k = x" by (auto simp: in_set_conv_nth)
    with Cons.prems [of 0 "Suc k"] that show False by simp
  qed
  ultimately show ?case by simp
qed simp

lemma ids_into_live:
  assumes ok: "table_ok t"
  shows "distinct (ids_into t) \<and> set (ids_into t) = live t"
proof -
  have slots: "map ((!) (ids t)) [0..<stream_slots] = ids t"
    using map_nth [of "ids t"] table_okD(1) [OF ok] by (simp add: stream_slots_def)
  have "distinct (filter (\<lambda>k. k \<noteq> 0) (ids t))"
    using table_okD(1,3) [OF ok] by (intro distinct_filter_nth) simp
  moreover have "set (filter (\<lambda>k. k \<noteq> 0) (ids t)) = live t"
    using table_okD(1) [OF ok] by (auto simp: live_iff in_set_conv_nth)
  moreover have "live t = {}" if "len t = 0"
    using that table_okD(6) [OF ok] by simp
  ultimately show ?thesis unfolding ids_into_def slots by simp
qed

lemma live_new: "live new_stream_table = {}"
  by (simp add: live_def entries_def new_stream_table_def stream_slots_def)

interpretation table: stream_map new_stream_table get put remove ids_into table_ok max_concurrent_streams
proof unfold_locales
  show "table_ok new_stream_table" by (rule table_ok_new)
  show "get new_stream_table = Map.empty"
    by (simp add: dom_get [OF table_ok_new] live_new flip: dom_eq_empty_conv)
next
  fix t :: "'a StreamTable" and sid s
  assume ok: "table_ok t" and sid: "sid \<noteq> 0" and room: "card (dom ((get t)(sid \<mapsto> s))) \<le> max_concurrent_streams"
  then have "sid \<in> live t \<or> len t < 255"
    using dom_get [OF ok] table_okD(6) [OF ok] by (auto simp: max_concurrent_streams_def card_insert_if)
  with put_ok [OF ok sid] get_put [OF ok sid] show "table_ok (put sid s t) \<and> get (put sid s t) = (get t)(sid \<mapsto> s)"
    by blast
next
  fix t :: "'a StreamTable" and sid
  assume "table_ok t"
  then show "\<exists>t'. remove sid t = Some t' \<and> table_ok t' \<and> get t' = (get t)(sid := None)" by (rule get_remove)
next
  fix t :: "'a StreamTable"
  assume ok: "table_ok t"
  with ids_into_live [OF ok] dom_get [OF ok] show "distinct (ids_into t) \<and> set (ids_into t) = dom (get t)" by simp
qed

section \<open>Properties\<close>

text \<open>
  C30. The stream table is a map: over every sequence of insertions, replacements and removals that keeps at
  most 128 streams open, every operation returns (the loop that closes the hole behind a removed stream
  ends), looking up any id gives what a map would, and the walk lists every open id exactly once.
\<close>

theorem stream_table_refines_map:
  assumes "within max_concurrent_streams ops Map.empty"
  shows "\<exists>t. run_ops put remove ops new_stream_table = Some t \<and> get t = map_ops ops Map.empty \<and>
    (\<forall>sid. has t sid \<longleftrightarrow> map_ops ops Map.empty sid \<noteq> None) \<and>
    distinct (ids_into t) \<and> set (ids_into t) = dom (map_ops ops Map.empty)"
proof -
  obtain t where t: "run_ops put remove ops new_stream_table = Some t" "table_ok t" "get t = map_ops ops Map.empty"
    using table.run_ops_map [OF table_ok_new, of ops] assms unfolding table.lookup_empty by blast
  have "has t sid \<longleftrightarrow> sid \<in> live t" for sid
  proof (cases "sid \<in> live t")
    case True
    then obtain i where "i < 256" "ids t ! i = sid" "sid \<noteq> 0" by (auto simp: live_iff)
    with find_slot_hit [OF t(2) this] True show ?thesis by (simp add: has_def)
  next
    case False
    with find_slot_miss [OF False] show ?thesis by (simp add: has_def)
  qed
  with t table.members_law [OF t(2)] dom_get [OF t(2)] show ?thesis by auto
qed

theorem stream_table_refines_map_witness:
  "\<exists>t. run_ops put remove [Put 1 True, Put 513 False, Remove 1] new_stream_table = Some t \<and> get t 513 = Some False \<and> \<not> has t 1"
proof -
  have "within max_concurrent_streams [Put 1 True, Put 513 False, Remove 1] Map.empty"
    by (simp add: max_concurrent_streams_def)
  from stream_table_refines_map [OF this] show ?thesis by auto
qed

end
