(* ===== verification/Huffman.thy ===== *)
theory Huffman
  imports Bytes "HOL-Library.Sublist"
begin

text \<open>
  The Huffman code of HPACK, \<^verbatim>\<open>src/http2/hpack.v\<close>: the five tables of the canonical code and the
  decoder over them, which keeps the pending bits in one 64-bit word. The decoder is shown to accept
  exactly the octets the code assigns to a string.
\<close>

section \<open>Tables\<close>

definition huff_len :: "nat list" where
  "huff_len = [5, 6, 7, 8, 10, 11, 12, 13, 14, 15, 19, 20, 21, 22, 23, 24, 25, 26, 27, 28, 30]"

definition huff_first :: "u32 list" where
  "huff_first = [0x0, 0x14, 0x5c, 0xf8, 0x3f8, 0x7fa, 0xffa, 0x1ff8, 0x3ffc, 0x7ffc, 0x7fff0, 0xfffe6, 0x1fffdc,
     0x3fffd2, 0x7fffd8, 0xffffea, 0x1ffffec, 0x3ffffe0, 0x7ffffde, 0xfffffe2, 0x3ffffffc]"

definition huff_count :: "nat list" where
  "huff_count = [10, 26, 32, 6, 5, 3, 2, 6, 2, 3, 3, 8, 13, 26, 29, 12, 4, 15, 19, 29, 4]"

definition huff_base :: "nat list" where
  "huff_base = [0, 10, 36, 68, 74, 79, 82, 84, 90, 92, 95, 98, 106, 119, 145, 174, 186, 190, 205, 224, 253]"

definition huff_symbol :: "nat list" where
  "huff_symbol =
    [48, 49, 50, 97, 99, 101, 105, 111, 115, 116, 32, 37, 45, 46, 47, 51, 52, 53, 54, 55, 56, 57, 61, 65,
     95, 98, 100, 102, 103, 104, 108, 109, 110, 112, 114, 117, 58, 66, 67, 68, 69, 70, 71, 72, 73, 74,
     75, 76, 77, 78, 79, 80, 81, 82, 83, 84, 85, 86, 87, 89, 106, 107, 113, 118, 119, 120, 121, 122, 38,
     42, 44, 59, 88, 90, 33, 34, 40, 41, 63, 39, 43, 124, 35, 62, 0, 36, 64, 91, 93, 126, 94, 125, 60,
     96, 123, 92, 195, 208, 128, 130, 131, 162, 184, 194, 224, 226, 153, 161, 167, 172, 176, 177, 179,
     209, 216, 217, 227, 229, 230, 129, 132, 133, 134, 136, 146, 154, 156, 160, 163, 164, 169, 170, 173,
     178, 181, 185, 186, 187, 189, 190, 196, 198, 228, 232, 233, 1, 135, 137, 138, 139, 140, 141, 143,
     147, 149, 150, 151, 152, 155, 157, 158, 165, 166, 168, 174, 175, 180, 182, 183, 188, 191, 197, 231,
     239, 9, 142, 144, 145, 148, 159, 171, 206, 215, 225, 236, 237, 199, 207, 234, 235, 192, 193, 200,
     201, 202, 205, 210, 213, 218, 219, 238, 240, 242, 243, 255, 203, 204, 211, 212, 214, 221, 222, 223,
     241, 244, 245, 246, 247, 248, 250, 251, 252, 253, 254, 2, 3, 4, 5, 6, 7, 8, 11, 12, 14, 15, 16, 17,
     18, 19, 20, 21, 23, 24, 25, 26, 27, 28, 29, 30, 31, 127, 220, 249, 10, 13, 22, 256]"

section \<open>Huffman decoding\<close>

text \<open>
  One turn of the match loop: the first length of the table whose code heads the pending bits. The index
  \<open>i\<close> runs over the lengths; the result is the symbol and the length.
\<close>

function huff_match :: "u64 \<Rightarrow> nat \<Rightarrow> nat \<Rightarrow> (nat \<times> nat) option" where
  "huff_match cur nbits i =
     (if i \<ge> length huff_len then None
      else
        (let l = huff_len ! i in
         if l > nbits then None
         else
           (let top = ucast (drop_bit (nbits - l) cur) :: u32 in
            if top \<ge> huff_first ! i \<and> top < huff_first ! i + of_nat (huff_count ! i)
            then Some (huff_symbol ! (huff_base ! i + unat (top - huff_first ! i)), l)
            else huff_match cur nbits (i + 1))))"
  by pat_completeness auto
termination by (relation "measure (\<lambda>(cur, nbits, i). length huff_len - i)") auto

declare huff_match.simps [simp del]

lemma huff_match_len: "huff_match cur nbits i = Some (s, l) \<Longrightarrow> 5 \<le> l \<and> l \<le> nbits"
proof (induction cur nbits i rule: huff_match.induct)
  case (1 cur nbits i)
  have "list_all ((\<le>) 5) huff_len" by (simp add: huff_len_def)
  then have "5 \<le> huff_len ! i" if "i < length huff_len" using that by (simp add: list_all_length)
  with 1 show ?case
    by (subst (asm) (2) huff_match.simps) (auto simp: Let_def split: if_splits)
qed

function huff_drain :: "u64 \<Rightarrow> nat \<Rightarrow> byte list \<Rightarrow> string option \<times> u64 \<times> nat \<times> byte list" where
  "huff_drain cur nbits out =
     (case huff_match cur nbits 0 of
        None \<Rightarrow> if nbits \<ge> 30 then (Some ''hpack: invalid huffman code'', cur, nbits, out) else (None, cur, nbits, out)
      | Some (s, l) \<Rightarrow>
          if s = 256 then (Some ''hpack: EOS symbol in huffman data'', cur, nbits, out)
          else (let nbits' = nbits - l in huff_drain (cur AND (push_bit nbits' 1 - 1)) nbits' (out @ [of_nat s])))"
  by pat_completeness auto
termination by (relation "measure (\<lambda>(cur, nbits, out). nbits)") (auto dest: huff_match_len)

declare huff_drain.simps [simp del]

fun huff_bytes :: "byte list \<Rightarrow> u64 \<Rightarrow> nat \<Rightarrow> byte list \<Rightarrow> string option \<times> u64 \<times> nat \<times> byte list" where
  "huff_bytes [] cur nbits out = (None, cur, nbits, out)"
| "huff_bytes (b # src) cur nbits out =
     (case huff_drain (push_bit 8 cur OR ucast b) (nbits + 8) out of
        (Some e, r) \<Rightarrow> (Some e, r)
      | (None, cur', nbits', out') \<Rightarrow> huff_bytes src cur' nbits' out')"

definition huffman_decode :: "byte list \<Rightarrow> byte list \<Rightarrow> string option \<times> byte list" where
  "huffman_decode src out =
     (case huff_bytes src 0 0 out of
        (Some e, cur, nbits, out') \<Rightarrow> (Some e, out')
      | (None, cur, nbits, out') \<Rightarrow>
          if nbits > 7 then (Some ''hpack: huffman padding longer than 7 bits'', out')
          else if cur \<noteq> push_bit nbits 1 - 1 then (Some ''hpack: invalid huffman padding'', out')
          else (None, out'))"

section \<open>Bit strings\<close>

definition bits :: "nat \<Rightarrow> 'a::semiring_bit_operations \<Rightarrow> bool list" where
  "bits n x = map (bit x) (rev [0..<n])"

lemma length_bits [simp]: "length (bits n x) = n"
  by (simp add: bits_def)

lemma nth_bits: "j < n \<Longrightarrow> bits n x ! j = bit x (n - 1 - j)"
  by (simp add: bits_def rev_nth)

lemma bits_eq_iff: "bits n (x :: nat) = bits n y \<longleftrightarrow> take_bit n x = take_bit n y"
proof -
  have "bits n x = bits n y \<longleftrightarrow> (\<forall>j < n. bit x j = bit y j)" by (auto simp: bits_def)
  also have "\<dots> \<longleftrightarrow> take_bit n x = take_bit n y" by (subst bit_eq_iff) (auto simp: bit_take_bit_iff)
  finally show ?thesis .
qed

lemma bits_unat: "bits n (w :: 'a::len word) = bits n (unat w)"
  by (simp add: bits_def bit_unsigned_iff)

lemma bits_add: "bits (n + m) x = bits n (drop_bit m x) @ bits m x"
  by (rule nth_equalityI) (auto simp: nth_bits nth_append bit_drop_bit_eq add.commute)

lemma take_bits: "l \<le> n \<Longrightarrow> take l (bits n x) = bits l (drop_bit (n - l) x)"
  using bits_add [of l "n - l" x] by simp

lemma drop_bits: "l \<le> n \<Longrightarrow> drop l (bits n x) = bits (n - l) x"
  using bits_add [of l "n - l" x] by simp

lemma bits_ones: "bits n (2 ^ n - 1 :: nat) = replicate n True"
  by (rule nth_equalityI) (auto simp: nth_bits bit_mask_iff mask_nat_def [symmetric] simp del: One_nat_def)

lemma bits_shift_in:
  assumes "n + 8 \<le> 64"
  shows "bits (n + 8) (push_bit 8 cur OR ucast (b :: byte) :: u64) = bits n cur @ bits 8 b"
  using assms
  by (intro nth_equalityI)
    (auto simp: nth_bits nth_append bit_or_iff bit_push_bit_iff bit_ucast_iff dest: bit_imp_le_length)

section \<open>The code\<close>

text \<open>
  The code of a symbol: it is the \<open>k\<close>-th of the length class \<open>i\<close>, and its code is the \<open>k\<close>-th from the first
  of the class.
\<close>

definition in_class :: "nat \<Rightarrow> nat \<Rightarrow> bool" where
  "in_class i k \<longleftrightarrow> i < length huff_len \<and> k < huff_count ! i"

definition huff_slots :: "(nat \<times> nat) list" where
  "huff_slots = concat (map (\<lambda>i. map (Pair i) [0..<huff_count ! i]) [0..<length huff_len])"

definition symbol_at :: "nat \<Rightarrow> nat \<Rightarrow> nat" where
  "symbol_at i k = huff_symbol ! (huff_base ! i + k)"

definition code_number :: "nat \<Rightarrow> nat \<Rightarrow> nat" where
  "code_number i k = unat (huff_first ! i) + k"

definition code_at :: "nat \<Rightarrow> nat \<Rightarrow> bool list" where
  "code_at i k = bits (huff_len ! i) (code_number i k)"

definition huff_code :: "nat \<Rightarrow> bool list" where
  "huff_code s = (case find (\<lambda>(i, k). symbol_at i k = s) huff_slots of None \<Rightarrow> [] | Some (i, k) \<Rightarrow> code_at i k)"

lemma length_huff_len [simp]: "length huff_len = 21"
  by (simp add: huff_len_def)

lemma set_huff_slots: "(i, k) \<in> set huff_slots \<longleftrightarrow> in_class i k"
  by (force simp: huff_slots_def in_class_def)

text \<open>The tables describe a canonical code: a class starts beyond every code of the shorter classes.\<close>

lemmas huff_tables = huff_len_def huff_first_def huff_count_def huff_base_def huff_symbol_def

lemma less_21: "i < (21 :: nat) \<longleftrightarrow> i \<in> set [0, 1, 2, 3, 4, 5, 6, 7, 8, 9, 10, 11, 12, 13, 14, 15, 16, 17, 18, 19, 20]"
  by (simp only: list.set insert_iff empty_iff) presburger

lemma class_fits: "i < 21 \<Longrightarrow> code_number i (huff_count ! i) \<le> 2 ^ (huff_len ! i)"
  unfolding less_21 by (auto simp: code_number_def huff_tables)

lemma class_next:
  "i < 20 \<Longrightarrow>
   huff_len ! i < huff_len ! (i + 1) \<and> huff_base ! (i + 1) = huff_base ! i + huff_count ! i \<and>
   code_number i (huff_count ! i) = code_number (i + 1) 0 div 2 ^ (huff_len ! (i + 1) - huff_len ! i)"
  using less_21 [of i] by (auto simp: code_number_def huff_tables)

lemma class_length: "i < 21 \<Longrightarrow> 5 \<le> huff_len ! i \<and> huff_len ! i \<le> 30"
  unfolding less_21 by (auto simp: huff_tables)

lemma short_class_not_ones: "i < 21 \<Longrightarrow> huff_len ! i \<le> 7 \<Longrightarrow> code_number i (huff_count ! i) < 2 ^ (huff_len ! i)"
  unfolding less_21 by (auto simp: code_number_def huff_tables)

lemma class_canonical:
  assumes "i < j" "j < 21"
  shows "huff_len ! i < huff_len ! j \<and>
    code_number i (huff_count ! i) \<le> code_number j 0 div 2 ^ (huff_len ! j - huff_len ! i)"
  using assms
proof (induction j)
  case (Suc j)
  note adj = class_next [of j]
  show ?case
  proof (cases "i = j")
    case True
    with adj Suc.prems show ?thesis by simp
  next
    case False
    with Suc have IH: "huff_len ! i < huff_len ! j"
        "code_number i (huff_count ! i) \<le> code_number j 0 div 2 ^ (huff_len ! j - huff_len ! i)" by simp_all
    note IH(2)
    also have "\<dots> \<le> code_number j (huff_count ! j) div 2 ^ (huff_len ! j - huff_len ! i)"
      by (intro div_le_mono) (simp add: code_number_def)
    also have "\<dots> = code_number (j + 1) 0 div 2 ^ (huff_len ! (j + 1) - huff_len ! i)"
      using adj IH(1) Suc.prems by (simp add: div_mult2_eq [symmetric] power_add [symmetric])
    finally show ?thesis using adj IH(1) Suc.prems by simp
  qed
qed simp

text \<open>The classes tile \<^const>\<open>huff_symbol\<close>, which lists each symbol once.\<close>

lemma base_tiles: "i < j \<Longrightarrow> j < 21 \<Longrightarrow> huff_base ! i + huff_count ! i \<le> huff_base ! j"
proof (induction j)
  case (Suc j)
  then show ?case using class_next [of j] by (cases "i = j") auto
qed simp

lemma base_inj: "in_class i k \<Longrightarrow> in_class j l \<Longrightarrow> huff_base ! i + k = huff_base ! j + l \<Longrightarrow> i = j \<and> k = l"
  using base_tiles [of i j] base_tiles [of j i] by (cases i j rule: linorder_cases) (auto simp: in_class_def)

lemma base_covers: "i < 21 \<Longrightarrow> x < huff_base ! i + huff_count ! i \<Longrightarrow> \<exists>j k. in_class j k \<and> x = huff_base ! j + k"
proof (induction i)
  case 0
  then show ?case by (intro exI [of _ 0] exI [of _ x]) (simp add: in_class_def huff_base_def)
next
  case (Suc i)
  show ?case
  proof (cases "x < huff_base ! Suc i")
    case True
    with Suc class_next [of i] show ?thesis by simp
  next
    case False
    with Suc.prems show ?thesis
      by (intro exI [of _ "Suc i"] exI [of _ "x - huff_base ! Suc i"]) (auto simp: in_class_def)
  qed
qed

lemma base_end: "in_class i k \<Longrightarrow> huff_base ! i + k < 257"
proof -
  have "huff_base ! 20 + huff_count ! 20 = 257" by (simp add: huff_tables)
  then show "in_class i k \<Longrightarrow> ?thesis" using base_tiles [of i 20] by (cases "i = 20") (auto simp: in_class_def)
qed

lemma symbol_table: "length huff_symbol = 257" "distinct huff_symbol" "set huff_symbol = {..256}"
proof -
  show len: "length huff_symbol = 257" by (simp add: huff_symbol_def)
  show dist: "distinct huff_symbol" by (simp add: huff_symbol_def)
  have "set huff_symbol \<subseteq> {..256}" by (simp add: huff_symbol_def)
  moreover have "card (set huff_symbol) = card {..256::nat}" using len dist by (simp add: distinct_card)
  ultimately show "set huff_symbol = {..256}" by (intro card_subset_eq) auto
qed

lemma symbol_inj: "in_class i k \<Longrightarrow> in_class j l \<Longrightarrow> symbol_at i k = symbol_at j l \<Longrightarrow> i = j \<and> k = l"
  using base_inj [of i k j l] by (auto simp: symbol_at_def nth_eq_iff_index_eq symbol_table base_end)

lemma symbol_surj: "s \<le> 256 \<Longrightarrow> \<exists>i k. in_class i k \<and> symbol_at i k = s"
proof -
  assume "s \<le> 256"
  then have "s \<in> set huff_symbol" by (simp add: symbol_table)
  then obtain x where x: "x < 257" "huff_symbol ! x = s" by (auto simp: in_set_conv_nth symbol_table(1))
  have "huff_base ! 20 + huff_count ! 20 = 257" by (simp add: huff_tables)
  then obtain i k where "in_class i k" "x = huff_base ! i + k" using base_covers [of 20 x] x by auto
  with x show ?thesis by (auto simp: symbol_at_def)
qed

lemma symbol_le: "in_class i k \<Longrightarrow> symbol_at i k \<le> 256"
  using nth_mem [of "huff_base ! i + k" huff_symbol] by (simp add: symbol_at_def symbol_table base_end)

lemma huff_code_at: "in_class i k \<Longrightarrow> huff_code (symbol_at i k) = code_at i k"
proof -
  assume ik: "in_class i k"
  then obtain j l where f: "find (\<lambda>(i', k'). symbol_at i' k' = symbol_at i k) huff_slots = Some (j, l)"
    by (cases "find (\<lambda>(i', k'). symbol_at i' k' = symbol_at i k) huff_slots")
      (auto simp: find_None_iff set_huff_slots)
  then have "(j, l) \<in> set huff_slots" "symbol_at j l = symbol_at i k"
    by (auto simp: find_Some_iff dest: nth_mem)
  with ik have "j = i \<and> l = k" by (intro symbol_inj) (auto simp: set_huff_slots)
  with f show ?thesis by (simp add: huff_code_def)
qed

lemma huff_code_class: "s \<le> 256 \<Longrightarrow> \<exists>i k. in_class i k \<and> symbol_at i k = s \<and> huff_code s = code_at i k"
  using symbol_surj [of s] huff_code_at by blast

section \<open>Prefix freeness\<close>

lemma code_number_less: "in_class i k \<Longrightarrow> code_number i k < 2 ^ (huff_len ! i)"
  using class_fits [of i] by (auto simp: in_class_def code_number_def)

lemma take_bit_small: "(x :: nat) < 2 ^ n \<Longrightarrow> take_bit n x = x"
  by (simp add: take_bit_nat_eq_self)

lemma code_take: "prefix (code_at i k) q \<Longrightarrow> take (huff_len ! i) q = code_at i k"
  by (auto simp: prefix_def code_at_def)

lemma code_prefix_free:
  assumes ik: "in_class i k" and jl: "in_class j l" and pre: "prefix (code_at i k) (code_at j l)"
  shows "i = j \<and> k = l"
proof (cases i j rule: linorder_cases)
  case equal
  with pre have "bits (huff_len ! i) (code_number i k) = bits (huff_len ! i) (code_number i l)"
    using code_take [OF pre] by (simp add: code_at_def)
  with ik jl equal show ?thesis
    using code_number_less [of i] by (auto simp: bits_eq_iff take_bit_small) (simp add: code_number_def)
next
  case less
  let ?n = "huff_len ! i" and ?m = "huff_len ! j"
  have lt: "?n < ?m" and can: "code_number i (huff_count ! i) \<le> code_number j 0 div 2 ^ (?m - ?n)"
    using class_canonical [OF less] jl by (auto simp: in_class_def)
  have "take ?n (code_at j l) = code_at i k"
    by (rule code_take [OF pre])
  then have "take_bit ?n (drop_bit (?m - ?n) (code_number j l)) = take_bit ?n (code_number i k)"
    using lt by (simp add: code_at_def take_bits bits_eq_iff)
  moreover have "code_number j l div 2 ^ (?m - ?n) < 2 ^ ?n"
    using code_number_less [OF jl] lt by (simp add: less_mult_imp_div_less power_add [symmetric])
  ultimately have "code_number j l div 2 ^ (?m - ?n) = code_number i k"
    using code_number_less [OF ik] by (simp add: take_bit_small drop_bit_eq_div)
  moreover have "code_number j 0 div 2 ^ (?m - ?n) \<le> code_number j l div 2 ^ (?m - ?n)"
    by (intro div_le_mono) (simp add: code_number_def)
  ultimately show ?thesis using can ik by (auto simp: in_class_def code_number_def)
next
  case greater
  then have "length (code_at j l) < length (code_at i k)"
    using class_canonical [OF greater] ik by (auto simp: in_class_def code_at_def)
  with pre show ?thesis by (auto dest: prefix_length_le)
qed

lemma huff_code_prefix_free: "s \<le> 256 \<Longrightarrow> t \<le> 256 \<Longrightarrow> prefix (huff_code s) (huff_code t) \<Longrightarrow> s = t"
  using huff_code_class [of s] huff_code_class [of t] code_prefix_free by metis

text \<open>A run of at most seven ones, the padding, has no code at its head.\<close>

lemma padding_no_code:
  assumes s: "s \<le> 256" and n: "n \<le> 7" shows "\<not> prefix (huff_code s) (replicate n True)"
proof
  assume pre: "prefix (huff_code s) (replicate n True)"
  from s obtain i k where ik: "in_class i k" and c: "huff_code s = code_at i k" using huff_code_class by blast
  let ?l = "huff_len ! i"
  have l: "?l \<le> n" using pre c by (auto simp: code_at_def dest: prefix_length_le)
  have "code_at i k = take ?l (replicate n True)"
    using code_take [of i k] pre c by metis
  also have "\<dots> = bits ?l (2 ^ ?l - 1 :: nat)" using l by (simp add: bits_ones min_def del: One_nat_def)
  finally have "code_number i k = 2 ^ ?l - 1"
    using code_number_less [OF ik] by (auto simp: code_at_def bits_eq_iff take_bit_small)
  moreover have "code_number i (huff_count ! i) < 2 ^ ?l"
    using short_class_not_ones [of i] ik l n by (auto simp: in_class_def)
  ultimately show False using ik by (auto simp: in_class_def code_number_def)
qed

section \<open>Encoding\<close>

definition codes :: "byte list \<Rightarrow> bool list" where
  "codes xs = concat (map (\<lambda>b. huff_code (unat b)) xs)"

lemma codes_simps [simp]: "codes [] = []" "codes (b # xs) = huff_code (unat b) @ codes xs"
    "codes (xs @ ys) = codes xs @ codes ys"
  by (simp_all add: codes_def)

lemma byte_le [simp]: "unat (b :: byte) \<le> 256"
  using unsigned_less [where 'a = nat, of b] by simp

lemma huff_code_not_Nil [simp]: "s \<le> 256 \<Longrightarrow> huff_code s \<noteq> []"
proof -
  assume "s \<le> 256"
  then obtain i k where "in_class i k" "huff_code s = code_at i k" using huff_code_class by blast
  then show ?thesis using class_length [of i] by (auto simp: code_at_def in_class_def bits_def)
qed

definition codeless :: "bool list \<Rightarrow> bool" where
  "codeless p \<longleftrightarrow> (\<forall>s \<le> 256. \<not> prefix (huff_code s) p)"

lemma codeless_padding: "n \<le> 7 \<Longrightarrow> codeless (replicate n True)"
  using padding_no_code by (auto simp: codeless_def)

lemma codeless_codes: "codeless (codes xs @ p) \<Longrightarrow> xs = []"
proof (cases xs)
  case (Cons b ys)
  then have "prefix (huff_code (unat b)) (codes xs @ p)" by simp
  then show "codeless (codes xs @ p) \<Longrightarrow> xs = []" using byte_le [of b] unfolding codeless_def by blast
qed simp

text \<open>A code at the head of an encoded string is the code of its first byte.\<close>

lemma code_head:
  assumes s: "s \<le> 256" and pre: "prefix (huff_code s) (codes xs @ p)" and p: "codeless p"
  shows "\<exists>b xs'. xs = b # xs' \<and> s = unat b"
proof (cases xs)
  case Nil
  with assms show ?thesis by (auto simp: codeless_def)
next
  case (Cons b xs')
  have "prefix (huff_code (unat b)) (codes xs @ p)" using Cons by simp
  with pre have "prefix (huff_code s) (huff_code (unat b)) \<or> prefix (huff_code (unat b)) (huff_code s)"
    by (rule prefix_same_cases)
  with s Cons show ?thesis by (auto dest: huff_code_prefix_free [OF s byte_le] huff_code_prefix_free [OF byte_le s])
qed

lemma codes_cancel:
  assumes "codes ys @ t = codes xs @ p" "codeless p"
  shows "\<exists>xs'. xs = ys @ xs' \<and> t = codes xs' @ p"
  using assms
proof (induction ys arbitrary: xs)
  case (Cons y ys)
  have "prefix (huff_code (unat y)) (codes xs @ p)" using Cons.prems(1) [symmetric] by simp
  with Cons.prems obtain xs1 where "xs = y # xs1" using code_head [OF byte_le] by (metis word_unat_eq_iff)
  with Cons show ?case by auto
qed simp

section \<open>The decoder\<close>

text \<open>The pending bits fit the word and nothing above them is set.\<close>

definition pending :: "u64 \<Rightarrow> nat \<Rightarrow> bool" where
  "pending cur nbits \<longleftrightarrow> nbits < 64 \<and> unat cur < 2 ^ nbits"

lemma unat_drop: "unat (drop_bit m (w :: 'a::len word)) = unat w div 2 ^ m"
  by (metis drop_bit_eq_div unat_drop_bit_eq)

lemma pending_top:
  assumes "pending cur nbits" "l \<le> nbits" "l \<le> 30"
  shows "unat (ucast (drop_bit (nbits - l) cur) :: u32) = unat cur div 2 ^ (nbits - l)"
    "unat cur div 2 ^ (nbits - l) < 2 ^ l"
proof -
  show lt: "unat cur div 2 ^ (nbits - l) < 2 ^ l"
    using assms by (simp add: pending_def less_mult_imp_div_less power_add [symmetric])
  also have "\<dots> \<le> (2 :: nat) ^ 30" using assms(3) by (intro power_increasing) auto
  finally have "unat cur div 2 ^ (nbits - l) < 2 ^ 32" by simp
  then show "unat (ucast (drop_bit (nbits - l) cur) :: u32) = unat cur div 2 ^ (nbits - l)"
    by (simp add: unsigned_ucast_eq unat_drop take_bit_small)
qed

text \<open>The test of the match loop at a length: the code of that place in the class heads the pending bits.\<close>

lemma match_at:
  assumes p: "pending cur nbits" and i: "i < 21" and l: "huff_len ! i \<le> nbits"
  defines "hd_bits \<equiv> ucast (drop_bit (nbits - huff_len ! i) cur) :: u32"
  shows "(hd_bits \<ge> huff_first ! i \<and> hd_bits < huff_first ! i + of_nat (huff_count ! i) \<and> unat (hd_bits - huff_first ! i) = k)
    \<longleftrightarrow> in_class i k \<and> take (huff_len ! i) (bits nbits cur) = code_at i k"
proof -
  note len = class_length [OF i]
  have top: "unat hd_bits = unat cur div 2 ^ (nbits - huff_len ! i)" "unat hd_bits < 2 ^ (huff_len ! i)"
    using pending_top [OF p l] len by (simp_all add: hd_bits_def)
  have fits: "unat (huff_first ! i) + huff_count ! i \<le> 2 ^ (huff_len ! i)"
    using class_fits [OF i] by (simp add: code_number_def)
  also have "\<dots> \<le> (2 :: nat) ^ 30" using len by (intro power_increasing) auto
  finally have nowrap: "unat (huff_first ! i + of_nat (huff_count ! i)) = unat (huff_first ! i) + huff_count ! i"
    by (simp add: unat_word_ariths unat_of_nat)
  have "take (huff_len ! i) (bits nbits cur) = bits (huff_len ! i) (unat hd_bits)"
    using l top(1) by (simp add: bits_unat take_bits drop_bit_eq_div)
  then have "take (huff_len ! i) (bits nbits cur) = code_at i k \<longleftrightarrow> unat hd_bits = code_number i k" if "in_class i k"
    using that top(2) code_number_less [OF that] by (simp add: code_at_def bits_eq_iff take_bit_small)
  then show ?thesis using i nowrap
    by (auto simp: word_le_nat_alt word_less_nat_alt unat_sub in_class_def code_number_def)
qed

lemma huff_match_sound:
  assumes "pending cur nbits" "huff_match cur nbits j = Some (s, l)"
  shows "\<exists>i k. in_class i k \<and> l = huff_len ! i \<and> l \<le> nbits \<and> take l (bits nbits cur) = code_at i k \<and> s = symbol_at i k"
  using assms
proof (induction cur nbits j rule: huff_match.induct)
  case (1 cur nbits j)
  let ?t = "ucast (drop_bit (nbits - huff_len ! j) cur) :: u32"
  have j: "j < 21" "huff_len ! j \<le> nbits" using 1(3) by (auto simp: huff_match.simps [of cur nbits j] Let_def split: if_splits)
  show ?case
  proof (cases "?t \<ge> huff_first ! j \<and> ?t < huff_first ! j + of_nat (huff_count ! j)")
    case True
    then have "l = huff_len ! j" "s = symbol_at j (unat (?t - huff_first ! j))"
      using 1(3) j by (auto simp: huff_match.simps [of cur nbits j] symbol_at_def Let_def)
    with True match_at [OF 1(2) j, of "unat (?t - huff_first ! j)"] j show ?thesis by blast
  next
    case False
    then have "huff_match cur nbits (j + 1) = Some (s, l)"
      using 1(3) j by (auto simp: huff_match.simps [of cur nbits j] Let_def split: if_splits)
    with 1(1) [of "huff_len ! j" ?t] 1(2) j False show ?thesis by simp
  qed
qed

lemma huff_match_complete:
  assumes "pending cur nbits" "in_class i k" "prefix (code_at i k) (bits nbits cur)" "j \<le> i"
  shows "huff_match cur nbits j \<noteq> None"
  using assms
proof (induction cur nbits j rule: huff_match.induct)
  case (1 cur nbits j)
  let ?t = "ucast (drop_bit (nbits - huff_len ! j) cur) :: u32"
  have i: "i < 21" "huff_len ! i \<le> nbits" using 1(3) prefix_length_le [OF 1(4)] by (auto simp: in_class_def code_at_def)
  then have j: "j < 21" "huff_len ! j \<le> nbits" using class_canonical [of j i] 1(5) by (cases "j = i"; simp)+
  show ?case
  proof (cases "?t \<ge> huff_first ! j \<and> ?t < huff_first ! j + of_nat (huff_count ! j)")
    case True
    then show ?thesis using j by (simp add: huff_match.simps [of cur nbits j] Let_def)
  next
    case False
    then have "j \<noteq> i" using match_at [OF 1(2) i, of k] 1(3) code_take [OF 1(4)] by auto
    with 1(1) [of "huff_len ! j" ?t] 1(2-5) j False
    show ?thesis by (subst huff_match.simps) (simp add: Let_def del: not_None_eq)
  qed
qed

lemma match_Some:
  assumes "pending cur nbits" "huff_match cur nbits 0 = Some (s, l)"
  shows "s \<le> 256 \<and> l \<le> nbits \<and> bits nbits cur = huff_code s @ bits (nbits - l) cur"
proof -
  obtain i k where ik: "in_class i k" "l = huff_len ! i" "l \<le> nbits" "take l (bits nbits cur) = code_at i k"
      "s = symbol_at i k"
    using huff_match_sound [OF assms] by blast
  then have "bits nbits cur = code_at i k @ drop l (bits nbits cur)" by (metis append_take_drop_id)
  with ik show ?thesis by (simp add: huff_code_at symbol_le drop_bits)
qed

lemma match_None: "pending cur nbits \<Longrightarrow> huff_match cur nbits 0 = None \<Longrightarrow> codeless (bits nbits cur)"
  unfolding codeless_def using huff_match_complete [of cur nbits _ _ 0] huff_code_class by (metis le0)

lemma pending_mask:
  assumes "pending cur nbits" "n \<le> nbits"
  shows "pending (cur AND (push_bit n 1 - 1)) n \<and> bits n (cur AND (push_bit n 1 - 1)) = bits n cur"
proof -
  have "unat (cur AND mask n) = take_bit n (unat cur)"
    by (simp add: take_bit_eq_mask [symmetric] unsigned_take_bit_eq)
  then show ?thesis using assms unfolding decr_mask
    by (simp add: pending_def take_bit_nat_less_exp bits_unat bits_eq_iff)
qed

text \<open>What the inner loop consumed is the codes of what it appended, and no code heads what it leaves.\<close>

lemma huff_drain_sound:
  assumes "pending cur nbits" "huff_drain cur nbits out = (None, cur', nbits', out')"
  shows "\<exists>ys. out' = out @ ys \<and> bits nbits cur = codes ys @ bits nbits' cur' \<and> pending cur' nbits' \<and> nbits' < 30 \<and>
    codeless (bits nbits' cur')"
  using assms
proof (induction cur nbits out rule: huff_drain.induct)
  case (1 cur nbits out)
  show ?case
  proof (cases "huff_match cur nbits 0")
    case None
    with 1(3) have "cur' = cur" "nbits' = nbits" "out' = out" "nbits < 30"
      by (auto simp: huff_drain.simps [of cur nbits out] split: if_splits)
    with 1(2) None match_None show ?thesis by simp
  next
    case (Some sl)
    then obtain s l where m: "huff_match cur nbits 0 = Some (s, l)" by (cases sl) auto
    let ?n = "nbits - l" and ?cur = "cur AND (push_bit (nbits - l) 1 - 1)"
    have rec: "huff_drain ?cur ?n (out @ [of_nat s]) = (None, cur', nbits', out')" and s: "s \<noteq> 256"
      using 1(3) m by (auto simp: huff_drain.simps [of cur nbits out] Let_def split: if_splits)
    note ms = match_Some [OF 1(2) m] and mask = pending_mask [OF 1(2), of ?n]
    obtain ys where "out' = out @ [of_nat s] @ ys" "bits ?n ?cur = codes ys @ bits nbits' cur'"
        "pending cur' nbits'" "nbits' < 30" "codeless (bits nbits' cur')"
      using 1(1) [OF m refl s refl] mask rec by auto
    moreover have "bits nbits cur = codes [of_nat s] @ bits ?n ?cur"
      using ms s mask by (simp add: unat_of_nat)
    ultimately show ?thesis by (intro exI [of _ "of_nat s # ys"]) auto
  qed
qed

lemma huff_drain_complete:
  assumes "pending cur nbits" "bits nbits cur @ r = codes xs @ replicate n True" "n \<le> 7"
  shows "fst (huff_drain cur nbits out) = None"
  using assms
proof (induction cur nbits out arbitrary: xs rule: huff_drain.induct)
  case (1 cur nbits out)
  note pad = codeless_padding [OF 1(4)]
  show ?case
  proof (cases "huff_match cur nbits 0")
    case None
    have "nbits < 30"
    proof (rule ccontr)
      assume n30: "\<not> nbits < 30"
      have "nbits + length r = length (codes xs) + n" using arg_cong [OF 1(3), of length] by simp
      then obtain b xs' where xs: "xs = b # xs'" using n30 1(4) by (cases xs) auto
      have "length (huff_code (unat b)) \<le> nbits"
        using huff_code_class [OF byte_le, of b] class_length n30 by (force simp: code_at_def in_class_def)
      moreover have "prefix (huff_code (unat b)) (bits nbits cur @ r)" using 1(3) xs by simp
      ultimately have "prefix (huff_code (unat b)) (bits nbits cur)"
        using prefix_length_prefix [of "huff_code (unat b)" "bits nbits cur @ r" "bits nbits cur"] by simp
      with match_None [OF 1(2) None] show False by (auto simp: codeless_def)
    qed
    then show ?thesis using None by (simp add: huff_drain.simps [of cur nbits out])
  next
    case (Some sl)
    then obtain s l where m: "huff_match cur nbits 0 = Some (s, l)" by (cases sl) auto
    let ?n = "nbits - l" and ?cur = "cur AND (push_bit (nbits - l) 1 - 1)"
    note ms = match_Some [OF 1(2) m] and mask = pending_mask [OF 1(2), of ?n]
    have "prefix (huff_code s) (codes xs @ replicate n True)" using ms 1(3) [symmetric] by simp
    then obtain b xs' where xs: "xs = b # xs'" "s = unat b" using code_head pad ms by blast
    then have "bits ?n ?cur @ r = codes xs' @ replicate n True" using ms mask 1(3) by simp
    moreover have s: "s \<noteq> 256" using xs unsigned_less [where 'a = nat, of b] by auto
    ultimately have "fst (huff_drain ?cur ?n (out @ [of_nat s])) = None"
      using 1(1) [OF m refl s refl] mask 1(4) by auto
    then show ?thesis using m s by (simp add: huff_drain.simps [of cur nbits out] Let_def)
  qed
qed

lemma pending_shift_in: "pending cur nbits \<Longrightarrow> nbits < 30 \<Longrightarrow> pending (push_bit 8 cur OR ucast (b :: byte)) (nbits + 8)"
proof -
  have eq: "pending w n \<longleftrightarrow> n < 64 \<and> take_bit n w = w" for w n
    unfolding pending_def by (metis take_bit_nat_eq_self_iff unsigned_take_bit_eq word_unat_eq_iff)
  assume "pending cur nbits" "nbits < 30"
  then have "bit cur j \<Longrightarrow> j < nbits" for j
    by (metis eq bit_take_bit_iff)
  then have "bit cur (j - 8) \<Longrightarrow> j < nbits + 8" for j by fastforce
  then show ?thesis using \<open>nbits < 30\<close>
    by (auto simp: eq bit_eq_iff bit_take_bit_iff bit_or_iff bit_push_bit_iff bit_ucast_iff dest: bit_imp_le_length)
qed

definition octet_bits :: "byte list \<Rightarrow> bool list" where
  "octet_bits src = concat (map (bits 8) src)"

lemma octet_bits_simps [simp]: "octet_bits [] = []" "octet_bits (b # src) = bits 8 b @ octet_bits src"
  by (simp_all add: octet_bits_def)

lemma huff_bytes_sound:
  assumes "pending cur nbits" "nbits < 30" "codeless (bits nbits cur)"
    "huff_bytes src cur nbits out = (None, cur', nbits', out')"
  shows "\<exists>ys. out' = out @ ys \<and> bits nbits cur @ octet_bits src = codes ys @ bits nbits' cur' \<and>
    pending cur' nbits' \<and> codeless (bits nbits' cur')"
  using assms
proof (induction src arbitrary: cur nbits out)
  case (Cons b src)
  let ?cur = "push_bit 8 cur OR ucast b :: u64"
  have in_bits: "bits (nbits + 8) ?cur = bits nbits cur @ bits 8 b" using bits_shift_in Cons.prems(2) by simp
  from Cons.prems(4) obtain c n o1 where d: "huff_drain ?cur (nbits + 8) out = (None, c, n, o1)"
      "huff_bytes src c n o1 = (None, cur', nbits', out')"
    by (auto split: prod.splits option.splits)
  from huff_drain_sound [OF pending_shift_in d(1)] Cons.prems(1,2) obtain ys where ys: "o1 = out @ ys"
      "bits nbits cur @ bits 8 b = codes ys @ bits n c" "pending c n" "n < 30" "codeless (bits n c)"
    by (auto simp: in_bits)
  from Cons.IH [OF ys(3-5) d(2)] obtain zs where "out' = o1 @ zs"
      "bits n c @ octet_bits src = codes zs @ bits nbits' cur'" "pending cur' nbits'" "codeless (bits nbits' cur')"
    by auto
  with ys show ?case by (intro exI [of _ "ys @ zs"]) (simp flip: append_assoc, simp)
qed simp

lemma huff_bytes_complete:
  assumes "pending cur nbits" "nbits < 30" "bits nbits cur @ octet_bits src = codes xs @ replicate n True" "n \<le> 7"
  shows "fst (huff_bytes src cur nbits out) = None"
  using assms
proof (induction src arbitrary: cur nbits out xs)
  case (Cons b src)
  let ?cur = "push_bit 8 cur OR ucast b :: u64"
  have in_bits: "bits (nbits + 8) ?cur = bits nbits cur @ bits 8 b" using bits_shift_in Cons.prems(2) by simp
  note pend = pending_shift_in [OF Cons.prems(1,2), of b]
  have all: "bits (nbits + 8) ?cur @ octet_bits src = codes xs @ replicate n True" using Cons.prems(3) in_bits by simp
  from huff_drain_complete [OF pend all Cons.prems(4), of out]
  obtain c m o1 where d: "huff_drain ?cur (nbits + 8) out = (None, c, m, o1)"
    by (cases "huff_drain ?cur (nbits + 8) out") auto
  from huff_drain_sound [OF pend d] obtain ys where ys: "bits (nbits + 8) ?cur = codes ys @ bits m c"
      "pending c m" "m < 30" by auto
  from all have "codes ys @ (bits m c @ octet_bits src) = codes xs @ replicate n True" using ys(1) by simp
  from codes_cancel [OF this codeless_padding [OF Cons.prems(4)]] obtain xs' where
    "bits m c @ octet_bits src = codes xs' @ replicate n True" by auto
  from Cons.IH [OF ys(2,3) this Cons.prems(4)] show ?case using d by simp
qed simp

function octets :: "bool list \<Rightarrow> byte list" where
  "octets bs = (if length bs < 8 then [] else horner_sum of_bool 2 (rev (take 8 bs)) # octets (drop 8 bs))"
  by pat_completeness auto
termination by (relation "measure length") auto

declare octets.simps [simp del]

text \<open>The octets of a string: its codes, then ones up to the octet boundary.\<close>

definition huff_encode :: "byte list \<Rightarrow> byte list" where
  "huff_encode xs = octets (codes xs @ replicate ((8 - length (codes xs) mod 8) mod 8) True)"

lemma bits_horner: "length bs = 8 \<Longrightarrow> bits 8 (horner_sum of_bool 2 (rev bs) :: byte) = bs"
  by (rule nth_equalityI) (auto simp: nth_bits bit_horner_sum_bit_word_iff rev_nth)

lemma octet_bits_octets: "length bs mod 8 = 0 \<Longrightarrow> octet_bits (octets bs) = bs"
proof (induction bs rule: octets.induct)
  case (1 bs)
  show ?case
  proof (cases "length bs < 8")
    case True
    with 1(2) show ?thesis by (subst octets.simps) simp
  next
    case False
    then have "length (drop 8 bs) mod 8 = 0" using 1(2) by (simp add: mod_if [of "length bs"])
    with 1(1) False show ?thesis by (subst octets.simps) (simp add: bits_horner)
  qed
qed

lemma bits_byte_inj: "bits 8 (a :: byte) = bits 8 b \<Longrightarrow> a = b"
  using unsigned_less [where 'a = nat, of a] unsigned_less [where 'a = nat, of b]
  by (simp add: bits_unat bits_eq_iff take_bit_small word_unat_eq_iff)

lemma octet_bits_inj: "octet_bits src = octet_bits src' \<Longrightarrow> src = src'"
proof (induction src arbitrary: src')
  case Nil
  then show ?case by (cases src') (auto dest: arg_cong [of _ _ length])
next
  case (Cons b src)
  then show ?case by (cases src') (auto dest: bits_byte_inj arg_cong [of _ _ length])
qed

lemma length_octet_bits: "length (octet_bits src) = 8 * length src"
  by (induction src) auto

lemma pad_length: "(n + (8 - n mod 8) mod 8) mod 8 = (0 :: nat)" "(8 - n mod 8) mod 8 \<le> (7 :: nat)"
proof -
  have "(n + (8 - n mod 8) mod 8) mod 8 = (n mod 8 + (8 - n mod 8)) mod 8"
    by (metis mod_add_left_eq mod_add_right_eq)
  then show "(n + (8 - n mod 8) mod 8) mod 8 = 0" by simp
  show "(8 - n mod 8) mod 8 \<le> 7" using mod_less_divisor [of 8 "8 - n mod 8"] by linarith
qed

lemma pad_unique:
  assumes "8 * m = k + n" "n \<le> (7 :: nat)" shows "n = (8 - k mod 8) mod 8"
proof -
  obtain r where r: "r = k mod 8" "r < 8" by simp
  have "(r + n) mod 8 = 0" using assms(1) r(1) by (metis mod_add_left_eq mod_mult_self1_is_0)
  then have "n = (8 - r) mod 8" using r(2) assms(2) by (cases "r = 0"; cases "r + n < 8") (auto simp: mod_if [of "r + n"])
  then show ?thesis using r(1) by simp
qed

lemma octet_bits_encode: "octet_bits (huff_encode xs) = codes xs @ replicate ((8 - length (codes xs) mod 8) mod 8) True"
  by (simp add: huff_encode_def octet_bits_octets pad_length)

lemma huff_encode_unique:
  assumes "octet_bits src = codes xs @ replicate n True" "n \<le> 7"
  shows "src = huff_encode xs"
proof -
  have "8 * length src = length (codes xs) + n" using arg_cong [OF assms(1), of length] by (simp add: length_octet_bits)
  with assms(2) have "n = (8 - length (codes xs) mod 8) mod 8" by (rule pad_unique [rotated])
  with assms show ?thesis using octet_bits_inj octet_bits_encode by metis
qed

lemma pending_ones: "pending cur n \<Longrightarrow> cur = push_bit n 1 - 1 \<longleftrightarrow> bits n cur = replicate n True"
proof -
  assume p: "pending cur n"
  then have "unat (mask n :: u64) = 2 ^ n - 1" by (simp add: pending_def unat_mask)
  then have "cur = push_bit n 1 - 1 \<longleftrightarrow> unat cur = 2 ^ n - 1" unfolding decr_mask by (simp add: word_unat_eq_iff)
  then show ?thesis using p
    by (simp add: pending_def bits_ones [symmetric] bits_unat bits_eq_iff take_bit_small del: One_nat_def)
qed

lemma pending_0: "pending 0 0" "codeless (bits 0 (0 :: u64))"
  by (auto simp: pending_def codeless_def bits_def)

text \<open>The decoder writes at most one byte for five bits, whatever the input and also when it fails.\<close>

lemma huff_drain_length:
  "huff_drain cur nbits out = (e, cur', nbits', out') \<Longrightarrow>
   (\<exists>ys. out' = out @ ys) \<and> 5 * length out' + nbits' \<le> 5 * length out + nbits"
proof (induction cur nbits out rule: huff_drain.induct)
  case (1 cur nbits out)
  show ?case using 1(2) 1(1)
    by (subst (asm) huff_drain.simps) (fastforce simp: Let_def split: option.splits if_splits dest: huff_match_len)
qed

lemma huff_bytes_length:
  "huff_bytes src cur nbits out = (e, cur', nbits', out') \<Longrightarrow>
   (\<exists>ys. out' = out @ ys) \<and> 5 * length out' + nbits' \<le> 5 * length out + nbits + 8 * length src"
proof (induction src arbitrary: cur nbits out)
  case (Cons b src)
  obtain e1 c n o1 where d: "huff_drain (push_bit 8 cur OR ucast b) (nbits + 8) out = (e1, c, n, o1)"
    using prod_cases4 by blast
  note L = huff_drain_length [OF d]
  show ?case
  proof (cases e1)
    case None
    then have "huff_bytes src c n o1 = (e, cur', nbits', out')" using Cons.prems d by simp
    from Cons.IH [OF this] L show ?thesis by auto
  next
    case (Some x)
    with Cons.prems d L show ?thesis by auto
  qed
qed simp

lemma huffman_decode_length:
  "huffman_decode src out = (e, out') \<Longrightarrow> (\<exists>ys. out' = out @ ys) \<and> 5 * length out' \<le> 5 * length out + 8 * length src"
  by (auto simp: huffman_decode_def split: prod.splits option.splits if_splits dest!: huff_bytes_length)

text \<open>
  C32. \<^const>\<open>huffman_decode\<close> inverts the code of its tables, and accepts nothing else: it appends \<open>xs\<close> without an
  error exactly when the octets are the codes of \<open>xs\<close> followed by ones up to the octet boundary. So padding
  of eight bits or more, padding with a zero, an incomplete code and the end-of-string symbol are all errors.
\<close>

theorem huffman_decode_exact: "huffman_decode src out = (None, out @ xs) \<longleftrightarrow> src = huff_encode xs"
proof
  assume dec: "huffman_decode src out = (None, out @ xs)"
  then obtain c n where b: "huff_bytes src 0 0 out = (None, c, n, out @ xs)" and n: "n \<le> 7" "c = push_bit n 1 - 1"
    by (auto simp: huffman_decode_def split: prod.splits option.splits if_splits)
  from huff_bytes_sound [OF pending_0(1) _ pending_0(2) b] have
    "octet_bits src = codes xs @ bits n c" "pending c n" by (auto simp: bits_def)
  with n show "src = huff_encode xs" using huff_encode_unique pending_ones by metis
next
  assume src: "src = huff_encode xs"
  let ?n = "(8 - length (codes xs) mod 8) mod 8"
  have ob: "octet_bits src = codes xs @ replicate ?n True" using src octet_bits_encode by simp
  from huff_bytes_complete [OF pending_0(1) _ _ pad_length(2) [of "length (codes xs)"], where src = src and xs = xs and out = out] ob
  obtain c n o1 where b: "huff_bytes src 0 0 out = (None, c, n, o1)"
    by (cases "huff_bytes src 0 0 out") (auto simp: bits_def)
  from huff_bytes_sound [OF pending_0(1) _ pending_0(2) b] obtain ys where ys: "o1 = out @ ys"
      "codes ys @ bits n c = codes xs @ replicate ?n True" "pending c n" "codeless (bits n c)"
    using ob by (auto simp: bits_def)
  from codes_cancel [OF ys(2) codeless_padding [OF pad_length(2)]] obtain xs' where
    xs': "xs = ys @ xs'" "bits n c = codes xs' @ replicate ?n True" by auto
  then have "xs' = []" using ys(4) codeless_codes by simp
  with xs' have "bits n c = replicate ?n True" "xs = ys" by simp_all
  moreover from this(1) have "n = ?n" by (metis length_bits length_replicate)
  ultimately show "huffman_decode src out = (None, out @ xs)"
    using b ys pending_ones [OF ys(3)] pad_length(2) [of "length (codes xs)"] by (simp add: huffman_decode_def)
qed

end
