(* ===== verification/Hpack.thy ===== *)
theory Hpack
  imports Huffman
begin

text \<open>
  HPACK header compression (RFC 7541), \<^verbatim>\<open>src/http2/hpack.v\<close>: pfx integers, string literals,
  the decoder with its dynamic table and its per-block arena, and the stateless encoder. A V
  string is its bytes; the views into the arena are the bytes they show.
\<close>

section \<open>Tables\<close>

definition static_name :: "string list" where
  "static_name =
    ['':authority'', '':method'', '':method'', '':path'', '':path'', '':scheme'', '':scheme'',
     '':status'', '':status'', '':status'', '':status'', '':status'', '':status'', '':status'',
     ''accept-charset'', ''accept-encoding'', ''accept-language'', ''accept-ranges'', ''accept'',
     ''access-control-allow-origin'', ''age'', ''allow'', ''authorization'', ''cache-control'',
     ''content-disposition'', ''content-encoding'', ''content-language'', ''content-length'',
     ''content-location'', ''content-range'', ''content-type'', ''cookie'', ''date'', ''etag'',
     ''expect'', ''expires'', ''from'', ''host'', ''if-match'', ''if-modified-since'', ''if-none-match'',
     ''if-range'', ''if-unmodified-since'', ''last-modified'', ''link'', ''location'', ''max-forwards'',
     ''proxy-authenticate'', ''proxy-authorization'', ''range'', ''referer'', ''refresh'',
     ''retry-after'', ''server'', ''set-cookie'', ''strict-transport-security'', ''transfer-encoding'',
     ''user-agent'', ''vary'', ''via'', ''www-authenticate'']"

definition static_value :: "string list" where
  "static_value =
    ['''', ''GET'', ''POST'', ''/'', ''/index.html'', ''http'', ''https'', ''200'', ''204'', ''206'',
     ''304'', ''400'', ''404'', ''500'', '''', ''gzip, deflate'', '''', '''', '''', '''', '''', '''',
     '''', '''', '''', '''', '''', '''', '''', '''', '''', '''', '''', '''', '''', '''', '''', '''',
     '''', '''', '''', '''', '''', '''', '''', '''', '''', '''', '''', '''', '''', '''', '''', '''',
     '''', '''', '''', '''', '''', '''', '''']"

section \<open>Integers\<close>

text \<open>The continuation bytes from \<open>p\<close>; the fvalue is accumulated in 64 bits.\<close>

function decode_int_from :: "byte list \<Rightarrow> nat \<Rightarrow> nat \<Rightarrow> u64 \<Rightarrow> string + u64 \<times> nat" where
  "decode_int_from block p shift v =
     (if p \<ge> length block then Inl ''hpack: truncated integer''
      else
        (let b = block ! p; v' = v + push_bit shift (ucast (b AND 0x7f)); shift' = shift + 7 in
         if shift' > 35 then Inl ''hpack: integer too long''
         else if b AND 0x80 = 0 then Inr (v', p + 1)
         else decode_int_from block (p + 1) shift' v'))"
  by pat_completeness auto
termination by (relation "measure (\<lambda>(block, p, shift, v). length block - p)") auto

declare decode_int_from.simps [simp del]

definition decode_int :: "byte list \<Rightarrow> nat \<Rightarrow> nat \<Rightarrow> string + u32 \<times> nat" where
  "decode_int block pos pfx =
     (if pos \<ge> length block then Inl ''hpack: truncated integer''
      else
        (let mask = push_bit pfx 1 - 1 :: u32; v = ucast (ucast (block ! pos) AND mask) :: u64 in
         if v < ucast mask then Inr (ucast v, pos + 1)
         else
           (case decode_int_from block (pos + 1) 0 v of
              Inl e \<Rightarrow> Inl e
            | Inr (v', p) \<Rightarrow>
                if v' > push_bit 28 1 then Inl ''hpack: integer too large'' else Inr (ucast v', p))))"

function encode_int_from :: "u32 \<Rightarrow> byte list" where
  "encode_int_from v = (if v \<ge> 0x80 then ucast ((v AND 0x7f) OR 0x80) # encode_int_from (drop_bit 7 v) else [ucast v])"
  by pat_completeness auto
termination
proof (relation "measure unat")
  fix v :: u32 assume "v \<ge> 0x80"
  then have "0 < unat v" by (auto simp: word_le_nat_alt)
  then show "(drop_bit 7 v, v) \<in> measure unat" by (simp add: drop_bit_eq_div unat_div)
qed simp

declare encode_int_from.simps [simp del]

definition encode_int :: "byte list \<Rightarrow> byte \<Rightarrow> nat \<Rightarrow> u32 \<Rightarrow> byte list" where
  "encode_int out flags pfx val =
     (let mask = push_bit pfx 1 - 1 :: u32 in
      if val < mask then out @ [flags OR ucast val]
      else out @ [flags OR ucast mask] @ encode_int_from (val - mask))"

section \<open>Decoder\<close>

record HeaderField =
  fname :: "byte list"
  fvalue :: "byte list"

definition max_decoded_block :: nat where
  "max_decoded_block = 256 * 1024"

text \<open>The arena is its bytes and the capacity it was allocated with.\<close>

record HpackDecoder =
  dyn :: "HeaderField list"
  dyn_size :: int
  max_size :: int
  cur_max :: int
  arena :: "byte list"
  arena_cap :: nat

definition new_decoder :: "int \<Rightarrow> HpackDecoder" where
  "new_decoder limit = \<lparr>dyn = [], dyn_size = 0, max_size = limit, cur_max = limit, arena = [], arena_cap = 0\<rparr>"

definition entry_size :: "HeaderField \<Rightarrow> int" where
  "entry_size f = int (length (fname f)) + int (length (fvalue f)) + 32"

definition entry :: "HpackDecoder \<Rightarrow> u32 \<Rightarrow> string + byte list \<times> byte list" where
  "entry d idx =
     (if idx = 0 then Inl ''hpack: index 0''
      else if idx \<le> 61 then Inr (ascii (static_name ! (unat idx - 1)), ascii (static_value ! (unat idx - 1)))
      else
        (let di = unat idx - 62 in
         if di \<ge> length (dyn d) then Inl ''hpack: index beyond table''
         else Inr (fname (dyn d ! di), fvalue (dyn d ! di))))"

function evict :: "HpackDecoder \<Rightarrow> HpackDecoder" where
  "evict d =
     (if dyn_size d > cur_max d \<and> length (dyn d) > 0
      then evict (d\<lparr>dyn := butlast (dyn d), dyn_size := dyn_size d - entry_size (last (dyn d))\<rparr>)
      else d)"
  by pat_completeness auto
termination by (relation "measure (\<lambda>d. length (dyn d))") auto

declare evict.simps [simp del]

definition add_entry :: "HpackDecoder \<Rightarrow> byte list \<Rightarrow> byte list \<Rightarrow> HpackDecoder" where
  "add_entry d n v =
     evict (d\<lparr>dyn := \<lparr>fname = n, fvalue = v\<rparr> # dyn d,
              dyn_size := dyn_size d + (int (length n) + int (length v) + 32)\<rparr>)"

text \<open>The decoder comes back with an error as well: a Huffman error leaves what it had appended.\<close>

definition decode_str :: "HpackDecoder \<Rightarrow> byte list \<Rightarrow> nat \<Rightarrow> HpackDecoder \<times> (string + byte list \<times> nat)" where
  "decode_str d block pos =
     (if pos \<ge> length block then (d, Inl ''hpack: truncated string'')
      else
        (let huff = (block ! pos AND 0x80 \<noteq> 0) in
         case decode_int block pos 7 of
           Inl e \<Rightarrow> (d, Inl e)
         | Inr (len, p) \<Rightarrow>
             (let n = unat len in
              if p + n > length block then (d, Inl ''hpack: string length beyond block'')
              else if n = 0 then (d, Inr ([], p))
              else
                (let start = length (arena d); src = take n (drop p block) in
                 case (if huff then huffman_decode src (arena d) else (None, arena d @ src)) of
                   (Some e, a) \<Rightarrow> (d\<lparr>arena := a\<rparr>, Inl e)
                 | (None, a) \<Rightarrow> (d\<lparr>arena := a\<rparr>, Inr (drop start a, p + n))))))"

text \<open>The name of a literal, by index or spelled out, then its value.\<close>

definition literal_name :: "HpackDecoder \<Rightarrow> byte list \<Rightarrow> u32 \<Rightarrow> nat \<Rightarrow> HpackDecoder \<times> (string + byte list \<times> nat)" where
  "literal_name d block idx pos =
     (if idx > 0 then (d, case entry d idx of Inl e \<Rightarrow> Inl e | Inr (n, _) \<Rightarrow> Inr (n, pos)) else decode_str d block pos)"

definition literal ::
    "HpackDecoder \<Rightarrow> byte list \<Rightarrow> nat \<Rightarrow> nat \<Rightarrow> nat \<Rightarrow> HpackDecoder \<times> (string + nat \<times> nat \<times> byte list \<times> byte list)" where
  "literal d block pos pfx decoded =
     (case decode_int block pos pfx of
        Inl e \<Rightarrow> (d, Inl e)
      | Inr (idx, p) \<Rightarrow>
          (case literal_name d block idx p of
             (d1, Inl e) \<Rightarrow> (d1, Inl e)
           | (d1, Inr (n, p1)) \<Rightarrow>
               (case decode_str d1 block p1 of
                  (d2, Inl e) \<Rightarrow> (d2, Inl e)
                | (d2, Inr (v, p2)) \<Rightarrow>
                    (let decoded' = decoded + length n + length v in
                     if decoded' > max_decoded_block then (d2, Inl ''hpack: header block too large decoded'')
                     else (d2, Inr (p2, decoded', n, v))))))"

text \<open>
  One instruction of a block: the decoder, and an error or the new position, the decoded size, whether a
  field has been seen, and the field.
\<close>

definition decode_one ::
    "HpackDecoder \<Rightarrow> byte list \<Rightarrow> nat \<Rightarrow> nat \<Rightarrow> bool \<Rightarrow>
       HpackDecoder \<times> (string + nat \<times> nat \<times> bool \<times> HeaderField list)" where
  "decode_one d block pos decoded fields_seen =
     (let b = block ! pos in
      if b AND 0x80 \<noteq> 0 then
        (case decode_int block pos 7 of
           Inl e \<Rightarrow> (d, Inl e)
         | Inr (idx, p) \<Rightarrow>
             (case entry d idx of
                Inl e \<Rightarrow> (d, Inl e)
              | Inr (n, v) \<Rightarrow>
                  (let decoded' = decoded + length n + length v in
                   if decoded' > max_decoded_block then (d, Inl ''hpack: header block too large decoded'')
                   else (d, Inr (p, decoded', True, [\<lparr>fname = n, fvalue = v\<rparr>])))))
      else if b AND 0xc0 = 0x40 then
        (case literal d block pos 6 decoded of
           (d', Inl e) \<Rightarrow> (d', Inl e)
         | (d', Inr (p, decoded', n, v)) \<Rightarrow> (add_entry d' n v, Inr (p, decoded', True, [\<lparr>fname = n, fvalue = v\<rparr>])))
      else if b AND 0xe0 = 0x20 then
        (if fields_seen then (d, Inl ''hpack: table size update after a header field'')
         else
           (case decode_int block pos 5 of
              Inl e \<Rightarrow> (d, Inl e)
            | Inr (sz, p) \<Rightarrow>
                if int (unat sz) > max_size d then (d, Inl ''hpack: table size update above SETTINGS limit'')
                else (evict (d\<lparr>cur_max := int (unat sz)\<rparr>), Inr (p, decoded, fields_seen, []))))
      else
        (case literal d block pos 4 decoded of
           (d', Inl e) \<Rightarrow> (d', Inl e)
         | (d', Inr (p, decoded', n, v)) \<Rightarrow> (d', Inr (p, decoded', True, [\<lparr>fname = n, fvalue = v\<rparr>]))))"

lemma decode_int_from_pos: "decode_int_from block p s v = Inr (w, p') \<Longrightarrow> p < p' \<and> p' \<le> length block"
proof (induction block p s v rule: decode_int_from.induct)
  case (1 block p s v)
  show ?case using 1(2) by (subst (asm) decode_int_from.simps) (auto simp: Let_def split: if_splits dest!: 1(1))
qed

lemma decode_int_pos: "decode_int block pos pfx = Inr (v, p) \<Longrightarrow> pos < p \<and> p \<le> length block"
  by (auto simp: decode_int_def Let_def split: if_splits sum.splits prod.splits dest!: decode_int_from_pos)

lemma decode_str_pos: "decode_str d block pos = (d', Inr (s, p)) \<Longrightarrow> pos < p \<and> p \<le> length block"
  by (auto simp: decode_str_def Let_def split: if_splits sum.splits prod.splits option.splits dest!: decode_int_pos)

lemma literal_pos:
  assumes "literal d block pos pfx decoded = (d', Inr (p, r))" shows "pos < p \<and> p \<le> length block"
  using assms
  by (auto simp: literal_def literal_name_def Let_def split: if_splits sum.splits prod.splits
      dest!: decode_int_pos decode_str_pos)

lemma decode_one_pos:
  assumes "decode_one d block pos decoded seen = (d', Inr (p, r))" shows "pos < p \<and> p \<le> length block"
  using assms
  by (auto simp: decode_one_def Let_def split: if_splits sum.splits prod.splits dest: decode_int_pos literal_pos)

function decode_from ::
    "HpackDecoder \<Rightarrow> byte list \<Rightarrow> nat \<Rightarrow> nat \<Rightarrow> bool \<Rightarrow> HeaderField list \<Rightarrow> HpackDecoder \<times> HeaderField list \<times> string option" where
  "decode_from d block pos decoded fields_seen out =
     (if pos < length block then
        (case decode_one d block pos decoded fields_seen of
           (d', Inl e) \<Rightarrow> (d', out, Some e)
         | (d', Inr (p, decoded', seen', fs)) \<Rightarrow> decode_from d' block p decoded' seen' (out @ fs))
      else (d, out, None))"
  by pat_completeness auto
termination
  by (relation "measure (\<lambda>(d, block, pos, _). length block - pos)") (auto dest!: decode_one_pos [OF sym])

declare decode_from.simps [simp del]

definition decode_into :: "HpackDecoder \<Rightarrow> byte list \<Rightarrow> HpackDecoder \<times> HeaderField list \<times> string option" where
  "decode_into d block =
     decode_from (d\<lparr>arena := [], arena_cap := (if arena_cap d < length block * 2 then length block * 2 else arena_cap d)\<rparr>)
       block 0 0 False []"

definition decode :: "HpackDecoder \<Rightarrow> byte list \<Rightarrow> HpackDecoder \<times> (string + HeaderField list)" where
  "decode d block = (case decode_into d block of (d', out, Some e) \<Rightarrow> (d', Inl e) | (d', out, None) \<Rightarrow> (d', Inr out))"

section \<open>Encoder\<close>

definition encode_str :: "byte list \<Rightarrow> byte list \<Rightarrow> byte list" where
  "encode_str out s = (let out = encode_int out 0x00 7 (of_nat (length s)) in if length s > 0 then out @ s else out)"

definition encode_indexed :: "byte list \<Rightarrow> nat \<Rightarrow> byte list" where
  "encode_indexed out idx = encode_int out 0x80 7 (of_nat idx)"

definition encode_literal_name_idx :: "byte list \<Rightarrow> nat \<Rightarrow> byte list \<Rightarrow> byte list" where
  "encode_literal_name_idx out name_idx v = encode_str (encode_int out 0x00 4 (of_nat name_idx)) v"

definition encode_literal :: "byte list \<Rightarrow> byte list \<Rightarrow> byte list \<Rightarrow> byte list" where
  "encode_literal out n v = encode_str (encode_str (out @ [0x00]) n) v"

definition encode_status :: "byte list \<Rightarrow> nat \<Rightarrow> byte list" where
  "encode_status out status =
     (if status = 200 then encode_indexed out 8
      else if status = 204 then encode_indexed out 9
      else if status = 206 then encode_indexed out 10
      else if status = 304 then encode_indexed out 11
      else if status = 400 then encode_indexed out 12
      else if status = 404 then encode_indexed out 13
      else if status = 500 then encode_indexed out 14
      else
        (let d0 = of_nat (48 + (status div 100) mod 10); d1 = of_nat (48 + (status div 10) mod 10);
             d2 = of_nat (48 + status mod 10) in
         encode_int (encode_int out 0x00 4 8) 0x00 7 3 @ [d0, d1, d2]))"

section \<open>The table and the arena\<close>

text \<open>The size is the sum of the entry sizes and stays within the current limit, itself within the advertised one.\<close>

definition table_ok :: "HpackDecoder \<Rightarrow> bool" where
  "table_ok d \<longleftrightarrow>
     dyn_size d = sum_list (map entry_size (dyn d)) \<and> 0 \<le> cur_max d \<and> dyn_size d \<le> cur_max d \<and> cur_max d \<le> max_size d"

lemma evict_ok:
  assumes "dyn_size d = sum_list (map entry_size (dyn d))" "0 \<le> cur_max d" "cur_max d \<le> max_size d"
  shows "table_ok (evict d) \<and> max_size (evict d) = max_size d \<and> arena (evict d) = arena d \<and> arena_cap (evict d) = arena_cap d"
  using assms
proof (induction d rule: evict.induct)
  case (1 d)
  show ?case
  proof (cases "dyn_size d > cur_max d \<and> length (dyn d) > 0")
    case True
    then obtain xs x where "dyn d = xs @ [x]" by (cases "dyn d" rule: rev_cases) auto
    with 1(1) [OF True] 1(2-4) True show ?thesis by (simp add: evict.simps [of d])
  next
    case False
    with 1(2-4) show ?thesis by (auto simp: evict.simps [of d] table_ok_def)
  qed
qed

lemma add_entry_ok:
  assumes "table_ok d"
  shows "table_ok (add_entry d n v) \<and> max_size (add_entry d n v) = max_size d \<and> arena (add_entry d n v) = arena d \<and>
    arena_cap (add_entry d n v) = arena_cap d"
  using assms evict_ok [of "d\<lparr>dyn := \<lparr>fname = n, fvalue = v\<rparr> # dyn d,
      dyn_size := dyn_size d + (int (length n) + int (length v) + 32)\<rparr>"]
  by (simp add: add_entry_def table_ok_def entry_size_def)

text \<open>A string costs the arena at most eight fifths of the octets it takes from the block.\<close>

definition grows :: "HpackDecoder \<Rightarrow> HpackDecoder \<Rightarrow> nat \<Rightarrow> bool" where
  "grows d d' n \<longleftrightarrow> (\<exists>ys. d' = d\<lparr>arena := arena d @ ys\<rparr> \<and> 5 * length ys \<le> 8 * n)"

lemma grows_refl [simp, intro]: "grows d d n"
  by (auto simp: grows_def intro!: exI [of _ "[]"])

lemma grows_trans: "grows d d1 m \<Longrightarrow> grows d1 d2 n \<Longrightarrow> m + n \<le> k \<Longrightarrow> grows d d2 k"
  unfolding grows_def by (elim exE conjE, rule_tac x = "ys @ ysa" in exI) auto

lemma decode_str_grows:
  assumes "decode_str d block pos = (d', r)"
  shows "grows d d' (case r of Inl _ \<Rightarrow> length block - pos | Inr (_, p) \<Rightarrow> p - pos)"
proof -
  have huff: "grows d (d\<lparr>arena := a\<rparr>) m"
    if "huffman_decode (take n (drop p block)) (arena d) = (e, a)" "n \<le> m" for n p e a m
    using huffman_decode_length [OF that(1)] that(2) by (auto simp: grows_def)
  have raw: "grows d (d\<lparr>arena := arena d @ take n (drop p block)\<rparr>) m" if "n \<le> m" for n p m
    using that by (auto simp: grows_def)
  show ?thesis using assms
    by (auto simp: decode_str_def Let_def split: if_splits sum.splits prod.splits option.splits
        dest!: decode_int_pos intro!: huff raw)
qed

lemma grows_mono: "grows d d' m \<Longrightarrow> m \<le> n \<Longrightarrow> grows d d' n"
  by (fastforce simp: grows_def)

lemma literal_name_grows:
  assumes "literal_name d block idx pos = (d', r)"
  shows "grows d d' (case r of Inl _ \<Rightarrow> length block - pos | Inr (_, p) \<Rightarrow> p - pos)"
    and "r = Inr (n, p) \<Longrightarrow> pos \<le> p \<and> (pos \<le> length block \<longrightarrow> p \<le> length block)"
  using assms
  by (auto simp: literal_name_def split: if_splits sum.splits prod.splits dest: decode_str_grows decode_str_pos)

lemma literal_grows:
  assumes "literal d block pos pfx decoded = (d', r)"
  shows "grows d d' (case r of Inl _ \<Rightarrow> length block - pos | Inr (p, _) \<Rightarrow> p - pos)"
    and "r = Inr (p, decoded', n, v) \<Longrightarrow> decoded' = decoded + length n + length v \<and> decoded' \<le> max_decoded_block"
proof -
  show "grows d d' (case r of Inl _ \<Rightarrow> length block - pos | Inr (p, _) \<Rightarrow> p - pos)"
  proof (cases "decode_int block pos pfx")
    case (Inl e)
    with assms show ?thesis by (auto simp: literal_def)
  next
    case (Inr ip)
    then obtain idx p0 where i: "decode_int block pos pfx = Inr (idx, p0)" by (cases ip) auto
    obtain d1 r1 where n1: "literal_name d block idx p0 = (d1, r1)" by fastforce
    note P0 = decode_int_pos [OF i] and G1 = literal_name_grows(1) [OF n1]
    show ?thesis
    proof (cases r1)
      case (Inl e)
      with assms i n1 G1 P0 show ?thesis by (auto simp: literal_def intro: grows_mono)
    next
      case (Inr np)
      then obtain n1' p1 where r1: "r1 = Inr (n1', p1)" by (cases np) auto
      note P1 = literal_name_grows(2) [OF n1 r1]
      obtain d2 r2 where s2: "decode_str d1 block p1 = (d2, r2)" by fastforce
      note G2 = decode_str_grows [OF s2]
      have "d' = d2 \<and> (case r of Inl _ \<Rightarrow> True | Inr (p, _) \<Rightarrow> \<exists>v. r2 = Inr (v, p))"
        using assms i n1 r1 s2 by (auto simp: literal_def Let_def split: sum.splits prod.splits if_splits)
      with G1 G2 P0 P1 r1 decode_str_pos [of d1 block p1 d2] s2 show ?thesis
        by (auto split: sum.splits prod.splits intro!: grows_trans [OF G1 G2])
    qed
  qed
  show "r = Inr (p, decoded', n, v) \<Longrightarrow> decoded' = decoded + length n + length v \<and> decoded' \<le> max_decoded_block"
    using assms by (auto simp: literal_def Let_def split: sum.splits prod.splits if_splits)
qed

text \<open>An instruction keeps the table's invariant and only appends to the arena.\<close>

definition advances :: "HpackDecoder \<Rightarrow> HpackDecoder \<Rightarrow> nat \<Rightarrow> bool" where
  "advances d d' n \<longleftrightarrow>
     table_ok d' \<and> max_size d' = max_size d \<and> arena_cap d' = arena_cap d \<and>
     (\<exists>ys. arena d' = arena d @ ys \<and> 5 * length ys \<le> 8 * n)"

lemma advances_refl: "table_ok d \<Longrightarrow> advances d d n"
  by (simp add: advances_def)

lemma advances_trans: "advances d d1 m \<Longrightarrow> advances d1 d2 n \<Longrightarrow> m + n \<le> k \<Longrightarrow> advances d d2 k"
  by (fastforce simp: advances_def)

lemma grows_advances: "grows d d' n \<Longrightarrow> table_ok d \<Longrightarrow> advances d d' n"
  by (auto simp: grows_def advances_def table_ok_def)

lemma grows_add_advances: "grows d d' n \<Longrightarrow> table_ok d \<Longrightarrow> advances d (add_entry d' nm v) n"
  using add_entry_ok [of d' nm v] grows_advances [of d d' n] by (auto simp: advances_def)

lemma resize_advances:
  "table_ok d \<Longrightarrow> 0 \<le> m \<Longrightarrow> m \<le> max_size d \<Longrightarrow> advances d (evict (d\<lparr>cur_max := m\<rparr>)) n"
  using evict_ok [of "d\<lparr>cur_max := m\<rparr>"] by (auto simp: advances_def table_ok_def)

definition fields_len :: "HeaderField list \<Rightarrow> nat" where
  "fields_len fs = sum_list (map (\<lambda>f. length (fname f) + length (fvalue f)) fs)"

lemma fields_len_simps [simp]: "fields_len [] = 0" "fields_len (fs @ gs) = fields_len fs + fields_len gs"
    "fields_len (f # fs) = length (fname f) + length (fvalue f) + fields_len fs"
  by (simp_all add: fields_len_def)

lemma decode_one_advances:
  assumes ok: "table_ok d" and step: "decode_one d block pos decoded seen = (d', r)"
  shows "advances d d' (case r of Inl _ \<Rightarrow> length block - pos | Inr (p, _) \<Rightarrow> p - pos)"
proof -
  note lit4 = literal_grows(1) [of d block pos 4 decoded] and lit6 = literal_grows(1) [of d block pos 6 decoded]
  show ?thesis using step ok
    by (auto simp: decode_one_def Let_def split: if_splits sum.splits prod.splits
        intro: advances_refl resize_advances grows_advances grows_add_advances dest!: lit4 lit6)
qed

lemma decode_one_decoded:
  assumes "decode_one d block pos decoded seen = (d', Inr (p, decoded', seen', fs))" "decoded \<le> max_decoded_block"
  shows "decoded' = decoded + fields_len fs \<and> decoded' \<le> max_decoded_block"
  using assms
  by (auto simp: decode_one_def Let_def split: if_splits sum.splits prod.splits dest!: literal_grows(2) [OF _ refl])

lemma decode_from_bounds:
  assumes "table_ok d" "decoded = fields_len out" "decoded \<le> max_decoded_block"
    "decode_from d block pos decoded seen out = (d', out', e)"
  shows "advances d d' (length block - pos) \<and> fields_len out' \<le> max_decoded_block"
  using assms
proof (induction d block pos decoded seen out rule: decode_from.induct)
  case (1 d block pos decoded seen out)
  show ?case
  proof (cases "pos < length block")
    case False
    with 1 show ?thesis by (auto simp: decode_from.simps [of d] advances_refl)
  next
    case True
    obtain d1 r where s: "decode_one d block pos decoded seen = (d1, r)" by fastforce
    note A = decode_one_advances [OF 1(2) s]
    show ?thesis
    proof (cases r)
      case (Inl x)
      with 1 True s A show ?thesis by (auto simp: decode_from.simps [of d])
    next
      case (Inr q)
      then obtain p dec1 seen1 fs where r: "r = Inr (p, dec1, seen1, fs)" by (cases q) auto
      note P = decode_one_pos [OF s [unfolded r]] and D = decode_one_decoded [OF s [unfolded r] 1(4)]
      have "decode_from d1 block p dec1 seen1 (out @ fs) = (d', out', e)"
        using 1(5) True s r by (simp add: decode_from.simps [of d])
      then have "advances d1 d' (length block - p) \<and> fields_len out' \<le> max_decoded_block"
        using 1(1) [OF True s [symmetric] r refl refl refl] A D 1(3) by (auto simp: advances_def)
      with A P r show ?thesis by (auto intro: advances_trans)
    qed
  qed
qed

text \<open>
  C33. Whatever header block arrives, and also when it is rejected, \<^const>\<open>decode_into\<close> keeps the dynamic table's
  size the exact sum of its entry sizes, within the current limit and the advertised maximum; the strings it
  returns total at most 256 KiB; and what it writes to the arena fits the capacity set at the start of
  the block, so the arena never moves under a string already handed out.
\<close>

theorem hpack_decoder_bounded:
  assumes "table_ok d" "decode_into d block = (d', out, e)"
  shows "table_ok d' \<and> max_size d' = max_size d \<and> fields_len out \<le> max_decoded_block \<and>
    5 * length (arena d') \<le> 8 * length block \<and> length (arena d') \<le> arena_cap d'"
proof -
  let ?d = "d\<lparr>arena := [], arena_cap := (if arena_cap d < length block * 2 then length block * 2 else arena_cap d)\<rparr>"
  have "table_ok ?d" using assms(1) by (simp add: table_ok_def)
  then have "advances ?d d' (length block) \<and> fields_len out \<le> max_decoded_block"
    using decode_from_bounds [of ?d 0 "[]" block 0 False d' out e] assms(2) by (simp add: decode_into_def)
  then show ?thesis by (auto simp: advances_def split: if_splits)
qed

lemma new_decoder_ok: "0 \<le> m \<Longrightarrow> table_ok (new_decoder m)"
  by (simp add: table_ok_def new_decoder_def)

theorem hpack_decoder_bounded_witness:
  "table_ok (fst (decode_into (new_decoder 4096) [0x40, 1, 0x61, 1, 0x62])) \<and>
   dyn_size (fst (decode_into (new_decoder 4096) [0x40, 1, 0x61, 1, 0x62])) = 34"
proof
  obtain d' out e where r: "decode_into (new_decoder 4096) [0x40, 1, 0x61, 1, 0x62] = (d', out, e)"
    using prod_cases3 by blast
  show "table_ok (fst (decode_into (new_decoder 4096) [0x40, 1, 0x61, 1, 0x62]))"
    using hpack_decoder_bounded [OF new_decoder_ok r] r by simp
  show "dyn_size (fst (decode_into (new_decoder 4096) [0x40, 1, 0x61, 1, 0x62])) = 34"
    by (simp add: new_decoder_def decode_into_def decode_from.simps decode_one_def literal_def literal_name_def
        decode_str_def decode_int_def add_entry_def evict.simps max_decoded_block_def Let_def)
qed

section \<open>What the encoder writes is read back\<close>

lemma encode_int_append: "encode_int out flags pfx v = out @ encode_int [] flags pfx v"
  by (simp add: encode_int_def Let_def)

lemma encode_str_append: "encode_str out t = out @ encode_str [] t"
  by (auto simp: encode_str_def Let_def encode_int_append [of out])

lemma encode_literal_append: "encode_literal out n v = out @ encode_literal [] n v"
  by (metis (no_types) append_Nil append_assoc encode_literal_def encode_str_append)

lemma byte_masks: "(0x7f :: byte) = mask 7" "(0x7f :: u32) = mask 7" "(0x80 :: byte) = 2 ^ 7" "(0x80 :: u32) = 2 ^ 7"
  by (simp_all add: mask_eq_exp_minus_1)

lemma bit_0x80: "bit (0x80 :: int) n \<longleftrightarrow> n = 7"
proof -
  have "(0x80 :: int) = 2 ^ 7" by simp
  then show ?thesis by (simp only: bit_exp_iff) auto
qed

lemma low_byte:
  assumes "w < 0x80"
  shows "ucast (w :: u32) AND 0x7f = (ucast w :: byte)" "(ucast w :: byte) AND 0x80 = 0" "ucast (ucast w :: byte) = (ucast w :: u64)"
proof -
  have "bit w j \<Longrightarrow> j < 7" for j using assms bit_less [of w 7] by (simp add: word_less_nat_alt)
  then show "ucast w AND 0x7f = (ucast w :: byte)" "(ucast w :: byte) AND 0x80 = 0" "ucast (ucast w :: byte) = (ucast w :: u64)"
    unfolding byte_masks and_exp_eq_0_iff_not_bit
    by (fastforce simp: bit_eq_iff bit_and_iff bit_mask_iff bit_ucast_iff)+
qed

lemma high_byte:
  fixes w :: u32
  shows "ucast ((w AND 0x7f) OR 0x80) AND 0x7f = (ucast (w AND 0x7f) :: byte)"
    "ucast ((w AND 0x7f) OR 0x80) AND 0x80 \<noteq> (0 :: byte)"
    "ucast (ucast (w AND 0x7f) :: byte) = (ucast (w AND 0x7f) :: u64)"
proof -
  show "ucast ((w AND 0x7f) OR 0x80) AND 0x7f = (ucast (w AND 0x7f) :: byte)"
    unfolding byte_masks(1,2) by (intro bit_word_eqI) (auto simp: bit_simps bit_0x80)
  have "bit (ucast ((w AND 0x7f) OR 0x80) AND 0x80 :: byte) 7" by (simp add: bit_simps bit_0x80)
  then show "ucast ((w AND 0x7f) OR 0x80) AND 0x80 \<noteq> (0 :: byte)" by force
  show "ucast (ucast (w AND 0x7f) :: byte) = (ucast (w AND 0x7f) :: u64)"
    unfolding byte_masks(1,2) by (intro bit_word_eqI) (auto simp: bit_simps)
qed

lemma ucast_split: "(ucast (w AND 0x7f) :: u64) + push_bit 7 (ucast (drop_bit 7 w)) = ucast (w :: u32)"
proof -
  have m: "unat (w AND 0x7f) = unat w mod 128"
    unfolding byte_masks(2) take_bit_eq_mask [symmetric] unsigned_take_bit_eq by (simp add: take_bit_eq_mod)
  have d: "unat (drop_bit 7 w) = unat w div 128" by (simp add: unat_drop)
  have "(ucast (w AND 0x7f) :: u64) + push_bit 7 (ucast (drop_bit 7 w)) =
      of_nat (unat (w AND 0x7f)) + of_nat (unat (drop_bit 7 w)) * 128"
    by (simp add: push_bit_eq_mult)
  also have "\<dots> = of_nat (unat w mod 128 + unat w div 128 * 128)"
    unfolding m d by (simp only: of_nat_add of_nat_mult of_nat_numeral)
  also have "\<dots> = of_nat (unat w)" by (simp only: mod_div_mult_eq)
  finally show ?thesis by simp
qed

lemma decode_int_from_encode:
  assumes "unat w < 2 ^ (35 - 7 * k)" "k \<le> 4"
  shows "decode_int_from (pre @ encode_int_from w @ suf) (length pre) (7 * k) acc =
    Inr (acc + push_bit (7 * k) (ucast w), length pre + length (encode_int_from w))"
  using assms
proof (induction w arbitrary: k pre acc rule: encode_int_from.induct)
  case (1 w)
  show ?case
  proof (cases "w \<ge> 0x80")
    case False
    then show ?thesis using low_byte [of w] 1(3)
      by (subst decode_int_from.simps) (simp add: encode_int_from.simps [of w] Let_def)
  next
    case True
    then have "2 ^ 7 < (2 :: nat) ^ (35 - 7 * k)" using 1(2) by (simp add: word_le_nat_alt)
    then have k: "k < 4" using 1(3) by (cases "k = 4") auto
    let ?b = "ucast ((w AND 0x7f) OR 0x80) :: byte"
    have "35 - 7 * k = 7 + (35 - 7 * (k + 1))" using k by simp
    then have "unat w < 2 ^ 7 * 2 ^ (35 - 7 * (k + 1))" using 1(2) by (metis power_add)
    then have "unat (drop_bit 7 w) < 2 ^ (35 - 7 * (k + 1))"
      by (simp add: unat_drop less_mult_imp_div_less mult.commute)
    from 1(1) [OF True this, of "pre @ [?b]" "acc + push_bit (7 * k) (ucast (w AND 0x7f))"] k
    have rec: "decode_int_from (pre @ ?b # encode_int_from (drop_bit 7 w) @ suf) (Suc (length pre)) (7 * k + 7)
        (acc + push_bit (7 * k) (ucast (w AND 0x7f))) =
      Inr (acc + push_bit (7 * k) (ucast (w AND 0x7f)) + push_bit (7 * k + 7) (ucast (drop_bit 7 w)),
        length pre + 1 + length (encode_int_from (drop_bit 7 w)))"
      by (simp add: algebra_simps)
    have "push_bit (7 * k) (ucast (w AND 0x7f)) + push_bit (7 * k + 7) (ucast (drop_bit 7 w)) =
        push_bit (7 * k) (ucast w :: u64)"
      by (simp add: ucast_split [of w, symmetric] push_bit_add push_bit_push_bit)
    with rec k True show ?thesis
      by (subst decode_int_from.simps)
        (simp add: encode_int_from.simps [of w] Let_def high_byte add.assoc)
  qed
qed

lemma prefix_byte:
  assumes "n \<le> 7" "\<And>j. j < n \<Longrightarrow> \<not> bit flags j" "(v :: u32) \<le> mask n"
  shows "ucast (flags OR ucast v :: byte) AND mask n = v"
proof -
  have "unat v \<le> 2 ^ n - 1" using assms(1,3) by (simp add: word_le_nat_alt unat_mask)
  then have "unat v < 2 ^ n" by (simp add: Suc_le_lessD le_diff_conv less_Suc_eq_le [symmetric])
  then have "bit v j \<Longrightarrow> j < n" for j by (rule bit_less)
  then show ?thesis using assms(1,2) by (intro bit_word_eqI) (fastforce simp: bit_simps)
qed

lemma unat_up: "unat (ucast (x :: u32) :: u64) = unat x"
  using unsigned_less [where 'a = nat, of x] by (simp add: unsigned_ucast_eq take_bit_nat_eq_self)

lemma ucast_up_less: "ucast (x :: u32) < (ucast y :: u64) \<longleftrightarrow> x < y"
  by (simp add: word_less_nat_alt unat_up)

lemma ucast_up_add: "m \<le> v \<Longrightarrow> ucast m + ucast (v - m :: u32) = (ucast v :: u64)"
  using unsigned_less [where 'a = nat, of v]
  by (simp add: word_unat_eq_iff unat_word_ariths unat_up unat_sub word_le_nat_alt)

lemma ucast_down_up: "ucast (ucast (x :: u32) :: u64) = x"
  by (rule bit_word_eqI) (auto simp: bit_simps)

lemma decode_int_encode:
  assumes n: "n \<le> 7" and flags: "\<And>j. j < n \<Longrightarrow> \<not> bit flags j" and v: "unat v \<le> 2 ^ 28"
  shows "decode_int (pre @ encode_int [] flags n v @ suf) (length pre) n =
    Inr (v, length pre + length (encode_int [] flags n v))"
proof (cases "v < mask n")
  case True
  then have "ucast (flags OR ucast v :: byte) AND mask n = v" using prefix_byte [OF n flags] by simp
  then show ?thesis using True unfolding decode_int_def encode_int_def decr_mask Let_def
    by (simp add: ucast_up_less ucast_down_up)
next
  case False
  then have le: "mask n \<le> v" by simp
  have "ucast (flags OR ucast (mask n :: u32) :: byte) AND mask n = (mask n :: u32)" by (rule prefix_byte [OF n flags]) auto
  moreover have "\<not> ucast v > (push_bit 28 1 :: u64)"
    using v by (simp add: word_less_nat_alt unat_up)
  moreover have "unat (v - mask n) < 2 ^ (35 - 7 * 0)" using v le by (simp add: unat_sub)
  note decode_int_from_encode [OF this, of "pre @ [flags OR ucast (mask n :: u32)]" suf "ucast (mask n :: u32)"]
  ultimately show ?thesis using False unfolding decode_int_def encode_int_def decr_mask Let_def
    by (simp add: ucast_up_add [OF le] ucast_down_up)
qed

lemma encode_int_head:
  obtains b rest where "encode_int [] 0 7 v = b # rest" "b AND 0x80 = 0"
proof (cases "v < mask 7")
  case True
  then have "v < 0x80" by (auto simp: mask_eq_exp_minus_1 word_less_nat_alt)
  then show ?thesis using that [of "ucast v" "[]"] True low_byte(2) [of v]
    unfolding encode_int_def decr_mask Let_def by simp
next
  case False
  then show ?thesis using that [of "0x7f" "encode_int_from (v - mask 7)"]
    unfolding encode_int_def decr_mask Let_def by (simp add: mask_eq_exp_minus_1)
qed

lemma decode_str_encode:
  assumes "length t \<le> 2 ^ 28"
  shows "decode_str d (pre @ encode_str [] t @ suf) (length pre) =
    (d\<lparr>arena := arena d @ t\<rparr>, Inr (t, length pre + length (encode_str [] t)))"
proof -
  let ?v = "of_nat (length t) :: u32"
  have v: "unat ?v = length t" using assms by (simp add: unat_of_nat)
  obtain b rest where hd: "encode_int [] 0 7 ?v = b # rest" "b AND 0x80 = 0" by (rule encode_int_head)
  have enc: "encode_str [] t = encode_int [] 0 7 ?v @ t" by (auto simp: encode_str_def Let_def)
  have "decode_int (pre @ encode_int [] 0 7 ?v @ t @ suf) (length pre) 7 =
      Inr (?v, length pre + length (encode_int [] 0 7 ?v))"
    by (rule decode_int_encode) (use v assms in auto)
  then show ?thesis using hd v
    by (auto simp: decode_str_def enc Let_def)
qed

lemma encode_literal_eq: "encode_literal [] n v = 0 # encode_str [] n @ encode_str [] v"
  unfolding encode_literal_def by (subst encode_str_append, subst encode_str_append) simp

lemma decode_literal_step:
  assumes "decoded + length n + length v \<le> max_decoded_block"
  shows "decode_one d (pre @ encode_literal [] n v @ suf) (length pre) decoded seen =
    (d\<lparr>arena := arena d @ n @ v\<rparr>,
     Inr (length pre + length (encode_literal [] n v), decoded + length n + length v, True, [\<lparr>fname = n, fvalue = v\<rparr>]))"
proof -
  have len: "length n \<le> 2 ^ 28" "length v \<le> 2 ^ 28" using assms by (auto simp: max_decoded_block_def)
  have "encode_int [] 0 4 0 = [0]" by (simp add: encode_int_def)
  then have i: "decode_int (pre @ 0 # encode_str [] n @ encode_str [] v @ suf) (length pre) 4 = Inr (0, Suc (length pre))"
    using decode_int_encode [of 4 0 0 pre "encode_str [] n @ encode_str [] v @ suf"] by simp
  note sn = decode_str_encode [OF len(1), of d "pre @ [0]" "encode_str [] v @ suf"]
  note sv = decode_str_encode [OF len(2), of "d\<lparr>arena := arena d @ n\<rparr>" "pre @ 0 # encode_str [] n" suf]
  show ?thesis using assms i sn sv
    by (simp add: decode_one_def encode_literal_eq literal_def literal_name_def Let_def)
qed

definition status_text :: "nat \<Rightarrow> byte list" where
  "status_text st = map (\<lambda>k. of_nat (48 + k)) [st div 100 mod 10, st div 10 mod 10, st mod 10]"

lemmas decode_ground = decode_one_def literal_def literal_name_def decode_str_def decode_int_def Let_def max_decoded_block_def

lemma status_entries:
  "entry d 8 = Inr (ascii '':status'', ascii ''200'')" "entry d 9 = Inr (ascii '':status'', ascii ''204'')"
  "entry d 10 = Inr (ascii '':status'', ascii ''206'')" "entry d 11 = Inr (ascii '':status'', ascii ''304'')"
  "entry d 12 = Inr (ascii '':status'', ascii ''400'')" "entry d 13 = Inr (ascii '':status'', ascii ''404'')"
  "entry d 14 = Inr (ascii '':status'', ascii ''500'')"
  by (simp_all add: entry_def static_name_def static_value_def)

lemma decode_status_step:
  "\<exists>x. decode_one d (encode_status [] st @ suf) 0 0 False =
    (d\<lparr>arena := arena d @ x\<rparr>,
     Inr (length (encode_status [] st), 10, True, [\<lparr>fname = ascii '':status'', fvalue = status_text st\<rparr>]))"
proof (cases "st \<in> {200, 204, 206, 304, 400, 404, 500}")
  case True
  then show ?thesis
    by (intro exI [of _ "[]"])
      (auto simp: encode_status_def encode_indexed_def encode_int_def decode_ground status_entries status_text_def ascii_def)
next
  case False
  then show ?thesis
    by (intro exI [of _ "status_text st"])
      (auto simp: encode_status_def encode_int_def decode_ground status_entries status_text_def ascii_def)
qed

lemma decode_literals:
  assumes "decoded + fields_len (map (\<lambda>(n, v). \<lparr>fname = n, fvalue = v\<rparr>) fs) \<le> max_decoded_block"
  shows "\<exists>a. decode_from d (pre @ concat (map (\<lambda>(n, v). encode_literal [] n v) fs)) (length pre) decoded seen out =
    (d\<lparr>arena := a\<rparr>, out @ map (\<lambda>(n, v). \<lparr>fname = n, fvalue = v\<rparr>) fs, None)"
  using assms
proof (induction fs arbitrary: d pre decoded seen out)
  case Nil
  show ?case by (subst decode_from.simps) (auto intro: exI [of _ "arena d"])
next
  case (Cons f fs)
  obtain n v where f: "f = (n, v)" by (cases f)
  let ?rest = "concat (map (\<lambda>(n, v). encode_literal [] n v) fs)"
  have "encode_literal [] n v \<noteq> []" by (simp add: encode_literal_eq)
  moreover have "decoded + length n + length v \<le> max_decoded_block" using Cons.prems f by simp
  note decode_literal_step [OF this, of d pre ?rest seen]
  moreover from Cons.IH [of "decoded + length n + length v" "d\<lparr>arena := arena d @ n @ v\<rparr>" "pre @ encode_literal [] n v" True
      "out @ [\<lparr>fname = n, fvalue = v\<rparr>]"] Cons.prems f
  obtain a where "decode_from (d\<lparr>arena := arena d @ n @ v\<rparr>) ((pre @ encode_literal [] n v) @ ?rest)
      (length (pre @ encode_literal [] n v)) (decoded + length n + length v) True (out @ [\<lparr>fname = n, fvalue = v\<rparr>]) =
      (d\<lparr>arena := a\<rparr>, out @ map (\<lambda>(n, v). \<lparr>fname = n, fvalue = v\<rparr>) (f # fs), None)"
    by auto
  ultimately show ?case by (subst decode_from.simps) (auto simp: f)
qed

lemma encode_literals: "foldl (\<lambda>out (n, v). encode_literal out n v) out fs = out @ concat (map (\<lambda>(n, v). encode_literal [] n v) fs)"
proof (induction fs arbitrary: out)
  case (Cons f fs)
  show ?case using Cons.IH [of "out @ encode_literal [] (fst f) (snd f)"] encode_literal_append [of out "fst f" "snd f"]
    by (cases f) simp
qed simp

text \<open>
  C34. A response head written with \<^const>\<open>encode_status\<close> and one \<^const>\<open>encode_literal\<close> per field is decoded, by any
  HPACK decoder state, to that \<open>:status\<close> pseudo-header and those fields in that order, and leaves the
  decoder's dynamic table as it was: the encoder needs no table of its own.
\<close>

theorem hpack_response_roundtrip:
  assumes "10 + fields_len (map (\<lambda>(n, v). \<lparr>fname = n, fvalue = v\<rparr>) fs) \<le> max_decoded_block"
  shows "\<exists>a c. decode_into d (foldl (\<lambda>out (n, v). encode_literal out n v) (encode_status [] st) fs) =
    (d\<lparr>arena_cap := c, arena := a\<rparr>,
     \<lparr>fname = ascii '':status'', fvalue = status_text st\<rparr> # map (\<lambda>(n, v). \<lparr>fname = n, fvalue = v\<rparr>) fs, None)"
proof -
  let ?rest = "concat (map (\<lambda>(n, v). encode_literal [] n v) fs)" and ?head = "encode_status [] st"
  let ?f = "\<lparr>fname = ascii '':status'', fvalue = status_text st\<rparr>"
  obtain c where start: "decode_into d (?head @ ?rest) =
      decode_from (d\<lparr>arena := [], arena_cap := c\<rparr>) (?head @ ?rest) 0 0 False []"
    unfolding decode_into_def by blast
  obtain x where x: "decode_one (d\<lparr>arena := [], arena_cap := c\<rparr>) (?head @ ?rest) 0 0 False =
      (d\<lparr>arena_cap := c, arena := x\<rparr>, Inr (length ?head, 10, True, [?f]))"
    using decode_status_step [of "d\<lparr>arena := [], arena_cap := c\<rparr>" st ?rest] by auto
  obtain a where "decode_from (d\<lparr>arena_cap := c, arena := x\<rparr>) (?head @ ?rest) (length ?head) 10 True [?f] =
      (d\<lparr>arena_cap := c, arena := a\<rparr>, ?f # map (\<lambda>(n, v). \<lparr>fname = n, fvalue = v\<rparr>) fs, None)"
    using decode_literals [OF assms, of "d\<lparr>arena_cap := c, arena := x\<rparr>" ?head True "[?f]"] by auto
  moreover have "?head \<noteq> []" using decode_one_pos [OF x] by auto
  ultimately show ?thesis unfolding encode_literals start using x by (subst decode_from.simps) auto
qed

theorem hpack_response_roundtrip_witness:
  "10 + fields_len [\<lparr>fname = [0x61], fvalue = [0x62]\<rparr>] \<le> max_decoded_block \<and>
   (\<exists>a c. decode_into (new_decoder 4096) (encode_literal (encode_status [] 418) [0x61] [0x62]) =
    ((new_decoder 4096)\<lparr>arena_cap := c, arena := a\<rparr>,
     [\<lparr>fname = ascii '':status'', fvalue = [0x34, 0x31, 0x38]\<rparr>, \<lparr>fname = [0x61], fvalue = [0x62]\<rparr>], None))"
  using hpack_response_roundtrip [of "[([0x61], [0x62])]" "new_decoder 4096" 418]
  by (simp add: max_decoded_block_def status_text_def)

end
