(* ===== verification/Vcam.thy ===== *)
theory Vcam
  imports Prelude
begin

text \<open>
  In-process camera capture, \<^verbatim>\<open>src/examples/video_stream/src/vcam.c\<close>: a V4L2 device whose frames arrive in
  memory-mapped buffers that the driver and the program pass to and fro. The kernel (descriptors, ioctls,
  mappings) and the allocator are a parameter; \<open>None\<close> is "does not return", as in \<^const>\<open>retry\<close>.
\<close>

section \<open>The device\<close>

datatype vioctl =
    VIDIOC_QUERYCAP
  | VIDIOC_S_FMT u32 u32 \<comment> \<open>width and height; the format asked for is MJPEG\<close>
  | VIDIOC_REQBUFS nat
  | VIDIOC_QUERYBUF nat
  | VIDIOC_QBUF nat
  | VIDIOC_DQBUF
  | VIDIOC_STREAMON
  | VIDIOC_STREAMOFF

text \<open>What the kernel writes back into the argument of an ioctl that succeeded; each request uses its own fields.\<close>

record vreply =
  capabilities :: u32
  pixelformat :: u32
  reqcount :: u32
  buflength :: u32
  bufoffset :: u32
  bufindex :: u32
  bytesused :: u32

record 'k camera =
  v_open :: "string \<Rightarrow> 'k \<Rightarrow> int sysret \<times> 'k"
  v_close :: "int \<Rightarrow> 'k \<Rightarrow> 'k"
  v_ioctl :: "int \<Rightarrow> vioctl \<Rightarrow> 'k \<Rightarrow> vreply sysret \<times> 'k"
  v_mmap :: "u32 \<Rightarrow> int \<Rightarrow> u32 \<Rightarrow> 'k \<Rightarrow> nat option \<times> 'k" \<comment> \<open>\<open>None\<close> is \<^verbatim>\<open>MAP_FAILED\<close>\<close>
  v_munmap :: "nat \<Rightarrow> u32 \<Rightarrow> 'k \<Rightarrow> 'k"
  v_calloc :: "'k \<Rightarrow> bool \<times> 'k"
  v_free :: "'k \<Rightarrow> 'k"

definition V4L2_CAP_VIDEO_CAPTURE :: u32 where "V4L2_CAP_VIDEO_CAPTURE = 0x00000001"
definition V4L2_CAP_STREAMING :: u32 where "V4L2_CAP_STREAMING = 0x04000000"
definition V4L2_PIX_FMT_MJPEG :: u32 where "V4L2_PIX_FMT_MJPEG = 0x47504a4d"

definition VCAM_NBUF :: nat where "VCAM_NBUF = 4"

datatype bufptr = NULL | MAP_FAILED | Mapped nat

record vcam =
  cam_fd :: int
  buf_start :: "bufptr list"
  buf_len :: "u32 list"
  n_buffers :: int
  current :: int
  cur_len :: int

section \<open>Operations\<close>

definition xioctl :: "'k camera \<Rightarrow> int \<Rightarrow> vioctl \<Rightarrow> 'k \<Rightarrow> (vreply sysret \<times> 'k) option" where
  "xioctl C fd req = retry (\<lambda>e. e = EINTR) (v_ioctl C fd req)"

definition vcam_unmap :: "'k camera \<Rightarrow> vcam \<Rightarrow> nat \<Rightarrow> 'k \<Rightarrow> 'k" where
  "vcam_unmap C c i k = (case buf_start c ! i of Mapped a \<Rightarrow> v_munmap C a (buf_len c ! i) k | _ \<Rightarrow> k)"

definition vcam_close :: "'k camera \<Rightarrow> vcam option \<Rightarrow> 'k \<Rightarrow> 'k option" where
  "vcam_close C cam k =
     (case cam of
        None \<Rightarrow> Some k
      | Some c \<Rightarrow> do {
          k1 \<leftarrow> (if cam_fd c \<ge> 0 then map_option snd (xioctl C (cam_fd c) VIDIOC_STREAMOFF k) else Some k);
          let k2 = fold (vcam_unmap C c) [0..<nat (n_buffers c)] k1;
          let k3 = (if cam_fd c \<ge> 0 then v_close C (cam_fd c) k2 else k2);
          Some (v_free C k3)
        })"

text \<open>\<^verbatim>\<open>{ vcam_close(c); return NULL; }\<close> and \<^verbatim>\<open>{ close(fd); return NULL; }\<close>\<close>

definition vcam_abandon :: "'k camera \<Rightarrow> vcam \<Rightarrow> 'k \<Rightarrow> (vcam option \<times> 'k) option" where
  "vcam_abandon C c k = map_option (Pair None) (vcam_close C (Some c) k)"

definition open_failed :: "'k camera \<Rightarrow> int \<Rightarrow> 'k \<Rightarrow> (vcam option \<times> 'k) option" where
  "open_failed C fd k = Some (None, v_close C fd k)"

text \<open>Query, map and queue the buffers \<open>i, \<dots>\<close>; then start the stream.\<close>

fun vcam_buffers :: "'k camera \<Rightarrow> nat list \<Rightarrow> vcam \<Rightarrow> 'k \<Rightarrow> (vcam option \<times> 'k) option" where
  "vcam_buffers C [] c k = do {
     (r, k1) \<leftarrow> xioctl C (cam_fd c) VIDIOC_STREAMON k;
     (case r of SysErr e \<Rightarrow> vcam_abandon C c k1 | SysOk b \<Rightarrow> Some (Some c, k1))
   }"
| "vcam_buffers C (i # is) c k = do {
     (r, k1) \<leftarrow> xioctl C (cam_fd c) (VIDIOC_QUERYBUF i) k;
     (case r of
        SysErr e \<Rightarrow> vcam_abandon C c k1
      | SysOk b \<Rightarrow>
          (let c1 = c\<lparr>buf_len := (buf_len c)[i := buflength b]\<rparr> in
           case v_mmap C (buflength b) (cam_fd c) (bufoffset b) k1 of
             (None, k2) \<Rightarrow> vcam_abandon C (c1\<lparr>buf_start := (buf_start c1)[i := MAP_FAILED]\<rparr>) k2
           | (Some a, k2) \<Rightarrow>
               (let c2 = c1\<lparr>buf_start := (buf_start c1)[i := Mapped a]\<rparr> in do {
                  (r2, k3) \<leftarrow> xioctl C (cam_fd c) (VIDIOC_QBUF i) k2;
                  (case r2 of SysErr e \<Rightarrow> vcam_abandon C c2 k3 | SysOk b2 \<Rightarrow> vcam_buffers C is c2 k3)
                })))
   }"

definition vcam_open :: "'k camera \<Rightarrow> string \<Rightarrow> int \<Rightarrow> int \<Rightarrow> 'k \<Rightarrow> (vcam option \<times> 'k) option" where
  "vcam_open C path width height k =
     (case v_open C path k of
        (SysErr e, k1) \<Rightarrow> Some (None, k1)
      | (SysOk fd, k1) \<Rightarrow> do {
          (cap, k2) \<leftarrow> xioctl C fd VIDIOC_QUERYCAP k1;
          (case cap of
             SysErr e \<Rightarrow> open_failed C fd k2
           | SysOk b \<Rightarrow>
               if capabilities b AND V4L2_CAP_VIDEO_CAPTURE = 0 \<or> capabilities b AND V4L2_CAP_STREAMING = 0
               then open_failed C fd k2
               else do {
                 (fmt, k3) \<leftarrow> xioctl C fd (VIDIOC_S_FMT (word_of_int width) (word_of_int height)) k2;
                 (case fmt of
                    SysErr e \<Rightarrow> open_failed C fd k3
                  | SysOk f \<Rightarrow>
                      if pixelformat f \<noteq> V4L2_PIX_FMT_MJPEG then open_failed C fd k3
                      else do {
                        (req, k4) \<leftarrow> xioctl C fd (VIDIOC_REQBUFS VCAM_NBUF) k3;
                        (case req of
                           SysErr e \<Rightarrow> open_failed C fd k4
                         | SysOk q \<Rightarrow>
                             if reqcount q < 1 then open_failed C fd k4
                             else
                               (case v_calloc C k4 of
                                  (False, k5) \<Rightarrow> open_failed C fd k5
                                | (True, k5) \<Rightarrow>
                                    (let n = sint (reqcount q);
                                         c = \<lparr>cam_fd = fd, buf_start = replicate VCAM_NBUF NULL,
                                              buf_len = replicate VCAM_NBUF 0,
                                              n_buffers = (if n > int VCAM_NBUF then int VCAM_NBUF else n),
                                              current = - 1, cur_len = 0\<rparr>
                                     in vcam_buffers C [0..<nat (n_buffers c)] c k5)))
                      })
               })
        })"

definition vcam_next :: "'k camera \<Rightarrow> vcam \<Rightarrow> 'k \<Rightarrow> (int \<times> vcam \<times> 'k) option" where
  "vcam_next C c k = do {
     (r, k1) \<leftarrow> xioctl C (cam_fd c) VIDIOC_DQBUF k;
     (case r of
        SysErr e \<Rightarrow> Some (- 1, c, k1)
      | SysOk b \<Rightarrow>
          (let c1 = c\<lparr>current := sint (bufindex b), cur_len := sint (bytesused b)\<rparr> in Some (cur_len c1, c1, k1)))
   }"

definition vcam_ptr :: "vcam \<Rightarrow> bufptr" where
  "vcam_ptr c = (if current c < 0 then NULL else buf_start c ! nat (current c))"

definition vcam_done :: "'k camera \<Rightarrow> vcam \<Rightarrow> 'k \<Rightarrow> (vcam \<times> 'k) option" where
  "vcam_done C c k =
     (if current c < 0 then Some (c, k)
      else do {
        (r, k1) \<leftarrow> xioctl C (cam_fd c) (VIDIOC_QBUF (nat (current c))) k;
        Some (c\<lparr>current := - 1\<rparr>, k1)
      })"

section \<open>What the code relies on\<close>

text \<open>
  The resources of the process: open descriptors, mappings (address and length), blocks on the heap, and for
  each descriptor the buffers its driver owns.
\<close>

record cam_view =
  vw_fds :: "int set"
  vw_maps :: "(nat \<times> u32) set"
  vw_heap :: nat
  vw_queued :: "int \<Rightarrow> nat set"

fun queue_after :: "vioctl \<Rightarrow> vreply \<Rightarrow> nat set \<Rightarrow> nat set" where
  "queue_after (VIDIOC_REQBUFS n) b q = {}"
| "queue_after (VIDIOC_QBUF i) b q = insert i q"
| "queue_after VIDIOC_DQBUF b q = q - {unat (bufindex b)}"
| "queue_after VIDIOC_STREAMOFF b q = {}"
| "queue_after _ b q = q"

definition set_queue :: "cam_view \<Rightarrow> int \<Rightarrow> nat set \<Rightarrow> cam_view" where
  "set_queue v fd q = v\<lparr>vw_queued := (vw_queued v)(fd := q)\<rparr>"

text \<open>
  The documented behaviour: \<^verbatim>\<open>open\<close> and \<^verbatim>\<open>mmap\<close> hand out what was free, \<^verbatim>\<open>close\<close> and \<^verbatim>\<open>munmap\<close> give it back, and an
  ioctl only moves buffers between the driver and the program: \<^verbatim>\<open>VIDIOC_DQBUF\<close> hands over one the driver owns.
\<close>

definition device_laws :: "'k camera \<Rightarrow> ('k \<Rightarrow> cam_view) \<Rightarrow> bool" where
  "device_laws C view \<longleftrightarrow>
     (\<forall>p k. case v_open C p k of
         (SysOk fd, k') \<Rightarrow> 0 \<le> fd \<and> fd \<notin> vw_fds (view k) \<and> view k' = (view k)\<lparr>vw_fds := insert fd (vw_fds (view k))\<rparr>
       | (SysErr e, k') \<Rightarrow> view k' = view k) \<and>
     (\<forall>fd k. view (v_close C fd k) = (view k)\<lparr>vw_fds := vw_fds (view k) - {fd}\<rparr>) \<and>
     (\<forall>fd req k. case v_ioctl C fd req k of
         (SysOk b, k') \<Rightarrow>
           view k' = set_queue (view k) fd (queue_after req b (vw_queued (view k) fd)) \<and>
           (req = VIDIOC_DQBUF \<longrightarrow> unat (bufindex b) \<in> vw_queued (view k) fd)
       | (SysErr e, k') \<Rightarrow> view k' = view k) \<and>
     (\<forall>l fd off k. case v_mmap C l fd off k of
         (Some a, k') \<Rightarrow> a \<notin> fst ` vw_maps (view k) \<and> view k' = (view k)\<lparr>vw_maps := insert (a, l) (vw_maps (view k))\<rparr>
       | (None, k') \<Rightarrow> view k' = view k) \<and>
     (\<forall>a l k. view (v_munmap C a l k) = (view k)\<lparr>vw_maps := vw_maps (view k) - {(a, l)}\<rparr>) \<and>
     (\<forall>k. case v_calloc C k of
         (True, k') \<Rightarrow> view k' = (view k)\<lparr>vw_heap := Suc (vw_heap (view k))\<rparr>
       | (False, k') \<Rightarrow> view k' = view k) \<and>
     (\<forall>k. view (v_free C k) = (view k)\<lparr>vw_heap := vw_heap (view k) - 1\<rparr>)"

text \<open>A signal interrupts an ioctl only finitely often.\<close>

definition ioctls_settle :: "'k camera \<Rightarrow> bool" where
  "ioctls_settle C \<longleftrightarrow> (\<forall>fd req k. settles (\<lambda>e. e = EINTR) (v_ioctl C fd req) k)"

lemma device_lawsD:
  assumes "device_laws C view"
  shows "v_open C p k = (SysOk fd, k') \<Longrightarrow>
      0 \<le> fd \<and> fd \<notin> vw_fds (view k) \<and> view k' = (view k)\<lparr>vw_fds := insert fd (vw_fds (view k))\<rparr>"
    and "v_open C p k = (SysErr e, k') \<Longrightarrow> view k' = view k"
    and "view (v_close C fd k) = (view k)\<lparr>vw_fds := vw_fds (view k) - {fd}\<rparr>"
    and "v_ioctl C fd req k = (SysOk b, k') \<Longrightarrow>
      view k' = set_queue (view k) fd (queue_after req b (vw_queued (view k) fd)) \<and>
      (req = VIDIOC_DQBUF \<longrightarrow> unat (bufindex b) \<in> vw_queued (view k) fd)"
    and "v_ioctl C fd req k = (SysErr e, k') \<Longrightarrow> view k' = view k"
    and "v_mmap C l fd off k = (Some a, k') \<Longrightarrow>
      a \<notin> fst ` vw_maps (view k) \<and> view k' = (view k)\<lparr>vw_maps := insert (a, l) (vw_maps (view k))\<rparr>"
    and "v_mmap C l fd off k = (None, k') \<Longrightarrow> view k' = view k"
    and "view (v_munmap C a l k) = (view k)\<lparr>vw_maps := vw_maps (view k) - {(a, l)}\<rparr>"
    and "v_calloc C k = (True, k') \<Longrightarrow> view k' = (view k)\<lparr>vw_heap := Suc (vw_heap (view k))\<rparr>"
    and "v_calloc C k = (False, k') \<Longrightarrow> view k' = view k"
    and "view (v_free C k) = (view k)\<lparr>vw_heap := vw_heap (view k) - 1\<rparr>"
proof -
  note laws = assms [unfolded device_laws_def]
  note opens = laws [THEN conjunct1] and rest = laws [THEN conjunct2]
  note closes = rest [THEN conjunct1] and rest = rest [THEN conjunct2]
  note ioctls = rest [THEN conjunct1] and rest = rest [THEN conjunct2]
  note mmaps = rest [THEN conjunct1] and rest = rest [THEN conjunct2]
  note munmaps = rest [THEN conjunct1] and rest = rest [THEN conjunct2]
  note callocs = rest [THEN conjunct1] and frees = rest [THEN conjunct2]
  show "v_open C p k = (SysOk fd, k') \<Longrightarrow>
      0 \<le> fd \<and> fd \<notin> vw_fds (view k) \<and> view k' = (view k)\<lparr>vw_fds := insert fd (vw_fds (view k))\<rparr>"
    and "v_open C p k = (SysErr e, k') \<Longrightarrow> view k' = view k"
    using opens [THEN spec [of _ p], THEN spec [of _ k]] by simp_all
  show "view (v_close C fd k) = (view k)\<lparr>vw_fds := vw_fds (view k) - {fd}\<rparr>"
    and "view (v_munmap C a l k) = (view k)\<lparr>vw_maps := vw_maps (view k) - {(a, l)}\<rparr>"
    and "view (v_free C k) = (view k)\<lparr>vw_heap := vw_heap (view k) - 1\<rparr>"
    using closes munmaps frees by blast+
  show "v_ioctl C fd req k = (SysOk b, k') \<Longrightarrow>
      view k' = set_queue (view k) fd (queue_after req b (vw_queued (view k) fd)) \<and>
      (req = VIDIOC_DQBUF \<longrightarrow> unat (bufindex b) \<in> vw_queued (view k) fd)"
    and "v_ioctl C fd req k = (SysErr e, k') \<Longrightarrow> view k' = view k"
    using ioctls [THEN spec [of _ fd], THEN spec [of _ req], THEN spec [of _ k]] by simp_all
  show "v_mmap C l fd off k = (Some a, k') \<Longrightarrow>
      a \<notin> fst ` vw_maps (view k) \<and> view k' = (view k)\<lparr>vw_maps := insert (a, l) (vw_maps (view k))\<rparr>"
    and "v_mmap C l fd off k = (None, k') \<Longrightarrow> view k' = view k"
    using mmaps [THEN spec [of _ l], THEN spec [of _ fd], THEN spec [of _ off], THEN spec [of _ k]] by simp_all
  show "v_calloc C k = (True, k') \<Longrightarrow> view k' = (view k)\<lparr>vw_heap := Suc (vw_heap (view k))\<rparr>"
    and "v_calloc C k = (False, k') \<Longrightarrow> view k' = view k"
    using callocs [THEN spec [of _ k]] by simp_all
qed

section \<open>Lemmas\<close>

lemma xioctl_view:
  assumes laws: "device_laws C view" and "ioctls_settle C"
  shows "\<exists>r k'. xioctl C fd req k = Some (r, k') \<and>
    (case r of
       SysOk b \<Rightarrow> view k' = set_queue (view k) fd (queue_after req b (vw_queued (view k) fd)) \<and>
         (req = VIDIOC_DQBUF \<longrightarrow> unat (bufindex b) \<in> vw_queued (view k) fd)
     | SysErr e \<Rightarrow> view k' = view k)"
proof -
  from assms(2) have "settles (\<lambda>e. e = EINTR) (v_ioctl C fd req) k" by (simp add: ioctls_settle_def)
  from settles_retry [OF this] obtain r k' where ret: "retry (\<lambda>e. e = EINTR) (v_ioctl C fd req) k = Some (r, k')"
    by blast
  have "case r of
       SysOk b \<Rightarrow> view k' = set_queue (view k) fd (queue_after req b (vw_queued (view k) fd)) \<and>
         (req = VIDIOC_DQBUF \<longrightarrow> unat (bufindex b) \<in> vw_queued (view k) fd)
     | SysErr e \<Rightarrow> view k' = view k"
  proof (rule retry_rule [OF ret, where I = "\<lambda>k'. view k' = view k"])
    fix k1 e assume "view k1 = view k" "fst (v_ioctl C fd req k1) = SysErr e"
    then show "view (snd (v_ioctl C fd req k1)) = view k"
      using device_lawsD(5) [OF laws, of fd req k1 e] by (cases "v_ioctl C fd req k1") simp
  next
    fix k1 assume v: "view k1 = view k"
    show "case fst (v_ioctl C fd req k1) of
       SysOk b \<Rightarrow> view (snd (v_ioctl C fd req k1)) = set_queue (view k) fd (queue_after req b (vw_queued (view k) fd)) \<and>
         (req = VIDIOC_DQBUF \<longrightarrow> unat (bufindex b) \<in> vw_queued (view k) fd)
     | SysErr e \<Rightarrow> view (snd (v_ioctl C fd req k1)) = view k"
      using device_lawsD(4,5) [OF laws, of fd req k1] v
      by (cases "v_ioctl C fd req k1" rule: syscall_cases) auto
  qed simp
  with ret show ?thesis unfolding xioctl_def by blast
qed

lemma xioctl_cases [consumes 2, case_names Ok Err]:
  assumes "device_laws C view" and "ioctls_settle C"
  obtains b k' where "xioctl C fd req k = Some (SysOk b, k')"
      "view k' = set_queue (view k) fd (queue_after req b (vw_queued (view k) fd))"
      "req = VIDIOC_DQBUF \<Longrightarrow> unat (bufindex b) \<in> vw_queued (view k) fd"
    | e k' where "xioctl C fd req k = Some (SysErr e, k')" "view k' = view k"
proof -
  obtain r k' where "xioctl C fd req k = Some (r, k')" "case r of
       SysOk b \<Rightarrow> view k' = set_queue (view k) fd (queue_after req b (vw_queued (view k) fd)) \<and>
         (req = VIDIOC_DQBUF \<longrightarrow> unat (bufindex b) \<in> vw_queued (view k) fd)
     | SysErr e \<Rightarrow> view k' = view k"
    using xioctl_view [OF assms] by blast
  with that show thesis by (cases r) auto
qed

lemma vw_set_queue [simp]:
  "vw_fds (set_queue v fd q) = vw_fds v" "vw_maps (set_queue v fd q) = vw_maps v"
  "vw_heap (set_queue v fd q) = vw_heap v" "vw_queued (set_queue v fd q) = (vw_queued v)(fd := q)"
  by (simp_all add: set_queue_def)

text \<open>What the program holds beyond the resources \<open>v0\<close>: the descriptor, the mapped buffers and one block.\<close>

definition mapped :: "vcam \<Rightarrow> (nat \<times> u32) set" where
  "mapped c = {(a, l). \<exists>i < nat (n_buffers c). buf_start c ! i = Mapped a \<and> buf_len c ! i = l}"

definition same_resources :: "cam_view \<Rightarrow> cam_view \<Rightarrow> bool" where
  "same_resources v v0 \<longleftrightarrow> vw_fds v = vw_fds v0 \<and> vw_maps v = vw_maps v0 \<and> vw_heap v = vw_heap v0"

definition holds :: "vcam \<Rightarrow> cam_view \<Rightarrow> cam_view \<Rightarrow> bool" where
  "holds c v0 v \<longleftrightarrow>
     0 \<le> cam_fd c \<and> cam_fd c \<notin> vw_fds v0 \<and> vw_fds v = insert (cam_fd c) (vw_fds v0) \<and>
     vw_maps v = vw_maps v0 \<union> mapped c \<and> mapped c \<inter> vw_maps v0 = {} \<and> vw_heap v = Suc (vw_heap v0)"

lemma unmap_all:
  assumes "device_laws C view"
  shows "view (fold (vcam_unmap C c) [0..<n] k) =
    (view k)\<lparr>vw_maps := vw_maps (view k) - {(a, l). \<exists>i < n. buf_start c ! i = Mapped a \<and> buf_len c ! i = l}\<rparr>"
proof (induction n)
  case (Suc n)
  show ?case
  proof (cases "buf_start c ! n")
    case (Mapped a)
    then show ?thesis
      using Suc by (simp add: vcam_unmap_def device_lawsD(8) [OF assms]) (rule cam_view.equality; auto simp: less_Suc_eq)
  qed (use Suc in \<open>simp_all add: vcam_unmap_def\<close>, (rule cam_view.equality; auto simp: less_Suc_eq)+)
qed simp

lemma unmap_mapped:
  "device_laws C view \<Longrightarrow>
   view (fold (vcam_unmap C c) [0..<nat (n_buffers c)] k) = (view k)\<lparr>vw_maps := vw_maps (view k) - mapped c\<rparr>"
  by (simp add: unmap_all mapped_def)

lemma vcam_close_releases:
  assumes laws: "device_laws C view" and settle: "ioctls_settle C" and "holds c v0 (view k)"
  shows "\<exists>k'. vcam_close C (Some c) k = Some k' \<and> same_resources (view k') v0"
proof -
  obtain r k1 where x: "xioctl C (cam_fd c) VIDIOC_STREAMOFF k = Some (r, k1)"
      and v: "vw_fds (view k1) = vw_fds (view k)" "vw_maps (view k1) = vw_maps (view k)" "vw_heap (view k1) = vw_heap (view k)"
    by (rule xioctl_cases [OF laws settle, of "cam_fd c" VIDIOC_STREAMOFF k]) auto
  let ?k2 = "fold (vcam_unmap C c) [0..<nat (n_buffers c)] k1"
  have "vcam_close C (Some c) k = Some (v_free C (v_close C (cam_fd c) ?k2))"
    using x assms(3) by (simp add: vcam_close_def holds_def)
  moreover have "same_resources (view (v_free C (v_close C (cam_fd c) ?k2))) v0"
    using assms(3) v unfolding device_lawsD(11) [OF laws] device_lawsD(3) [OF laws] unmap_mapped [OF laws]
    by (auto simp: same_resources_def holds_def)
  ultimately show ?thesis by blast
qed

lemma vcam_abandon_releases:
  assumes "device_laws C view" "ioctls_settle C" "holds c v0 (view k)"
  shows "\<exists>k'. vcam_abandon C c k = Some (None, k') \<and> same_resources (view k') v0"
  using vcam_close_releases [OF assms] by (auto simp: vcam_abandon_def)

text \<open>The camera with \<open>n\<close> buffers of which the first \<open>j\<close> are mapped.\<close>

definition buffers_ok :: "vcam \<Rightarrow> nat \<Rightarrow> nat \<Rightarrow> bool" where
  "buffers_ok c j n \<longleftrightarrow>
     length (buf_start c) = VCAM_NBUF \<and> length (buf_len c) = VCAM_NBUF \<and> nat (n_buffers c) = n \<and> n \<le> VCAM_NBUF \<and>
     (\<forall>i < j. \<exists>a. buf_start c ! i = Mapped a) \<and> (\<forall>i. j \<le> i \<longrightarrow> i < n \<longrightarrow> buf_start c ! i = NULL)"

lemma mapped_unmapped_slot:
  assumes "buffers_ok c j n" "j < n"
  shows "mapped (c\<lparr>buf_len := (buf_len c)[j := l], buf_start := (buf_start c)[j := MAP_FAILED]\<rparr>) = mapped c"
proof -
  have "(buf_start c)[j := MAP_FAILED] ! i = Mapped a \<and> (buf_len c)[j := l] ! i = m \<longleftrightarrow>
      buf_start c ! i = Mapped a \<and> buf_len c ! i = m" if "i < n" for i a m
    using assms that by (cases "i = j") (auto simp: buffers_ok_def)
  then show ?thesis using assms by (auto simp: mapped_def buffers_ok_def)
qed

lemma mapped_mapped_slot:
  assumes "buffers_ok c j n" "j < n"
  shows "mapped (c\<lparr>buf_len := (buf_len c)[j := l], buf_start := (buf_start c)[j := Mapped a]\<rparr>) = insert (a, l) (mapped c)"
proof -
  have nb: "nat (n_buffers c) = n" using assms(1) by (simp add: buffers_ok_def)
  have eq: "(buf_start c)[j := Mapped a] ! i = Mapped x \<and> (buf_len c)[j := l] ! i = m \<longleftrightarrow>
      (i = j \<and> x = a \<and> m = l) \<or> (buf_start c ! i = Mapped x \<and> buf_len c ! i = m)" if "i < n" for i x m
    using assms that by (cases "i = j") (auto simp: buffers_ok_def)
  have "mapped (c\<lparr>buf_len := (buf_len c)[j := l], buf_start := (buf_start c)[j := Mapped a]\<rparr>) =
      {(x, m). \<exists>i < n. (i = j \<and> x = a \<and> m = l) \<or> (buf_start c ! i = Mapped x \<and> buf_len c ! i = m)}"
    unfolding mapped_def by (simp add: nb eq cong: conj_cong)
  then show ?thesis using assms(2) by (auto simp: mapped_def nb)
qed

lemma buffers_ok_step:
  "buffers_ok c j n \<Longrightarrow> j < n \<Longrightarrow>
   buffers_ok (c\<lparr>buf_len := (buf_len c)[j := l], buf_start := (buf_start c)[j := Mapped a]\<rparr>) (Suc j) n"
  by (auto simp: buffers_ok_def nth_list_update less_Suc_eq)

lemma vcam_buffers_ok:
  assumes laws: "device_laws C view" and settle: "ioctls_settle C"
    and "buffers_ok c j n" "j \<le> n" "holds c v0 (view k)" "vw_queued (view k) (cam_fd c) = {0..<j}"
  shows "\<exists>r k'. vcam_buffers C [j..<n] c k = Some (r, k') \<and>
    (case r of
       None \<Rightarrow> same_resources (view k') v0
     | Some c' \<Rightarrow> buffers_ok c' n n \<and> holds c' v0 (view k') \<and> current c' = current c \<and> vw_queued (view k') (cam_fd c') = {0..<n})"
  using assms(3-6)
proof (induction "n - j" arbitrary: j c k)
  case 0
  note abandon = vcam_abandon_releases [OF laws settle]
  from 0 have j: "j = n" by simp
  from laws settle show ?case
  proof (cases rule: xioctl_cases [where fd = "cam_fd c" and req = VIDIOC_STREAMON and k = k])
    case (Ok b k1)
    with 0 j show ?thesis by (auto simp: holds_def)
  next
    case (Err e k1)
    with 0 j abandon [of c v0 k1] show ?thesis by auto
  qed
next
  case (Suc m)
  note abandon = vcam_abandon_releases [OF laws settle]
  from Suc have j: "j < n" by simp
  then have upt: "[j..<n] = j # [Suc j..<n]" by (simp add: upt_rec)
  from laws settle show ?case
  proof (cases rule: xioctl_cases [where fd = "cam_fd c" and req = "VIDIOC_QUERYBUF j" and k = k])
    case (Err e k1)
    with Suc upt abandon [of c v0 k1] show ?thesis by auto
  next
    case q: (Ok b k1)
    have h1: "holds c v0 (view k1)" and q1: "vw_queued (view k1) (cam_fd c) = {0..<j}"
      using Suc.prems(3,4) q(2) by (simp_all add: holds_def)
    let ?l = "buflength b"
    obtain m' k2 where mm: "v_mmap C ?l (cam_fd c) (bufoffset b) k1 = (m', k2)" by fastforce
    show ?thesis
    proof (cases m')
      case None
      let ?c = "c\<lparr>buf_len := (buf_len c)[j := ?l], buf_start := (buf_start c)[j := MAP_FAILED]\<rparr>"
      have "holds ?c v0 (view k2)"
        using h1 mapped_unmapped_slot [OF Suc.prems(1) j] device_lawsD(7) [OF laws mm [unfolded None]] by (simp add: holds_def)
      from abandon [OF this] q(1) mm None upt show ?thesis by auto
    next
      case (Some a)
      let ?c = "c\<lparr>buf_len := (buf_len c)[j := ?l], buf_start := (buf_start c)[j := Mapped a]\<rparr>"
      note M = device_lawsD(6) [OF laws mm [unfolded Some]]
      have fresh: "(a, ?l) \<notin> vw_maps v0" using M h1 by (force simp: holds_def)
      have h2: "holds ?c v0 (view k2)" and q2: "vw_queued (view k2) (cam_fd c) = {0..<j}"
        using h1 q1 M fresh mapped_mapped_slot [OF Suc.prems(1) j] by (auto simp: holds_def)
      from laws settle show ?thesis
      proof (cases rule: xioctl_cases [where fd = "cam_fd c" and req = "VIDIOC_QBUF j" and k = k2])
        case (Err e k3)
        with abandon [of ?c v0 k3] h2 q(1) mm Some upt show ?thesis by auto
      next
        case (Ok b2 k3)
        have inv: "holds ?c v0 (view k3)" "vw_queued (view k3) (cam_fd ?c) = {0..<Suc j}"
          using Ok(2) h2 q2 by (auto simp: holds_def)
        have "m = n - Suc j" "Suc j \<le> n" using Suc.hyps(2) j by simp_all
        from Suc.hyps(1) [OF this(1) buffers_ok_step [OF Suc.prems(1) j] this(2) inv] q(1) mm Some Ok(1) upt
        show ?thesis by (simp cong: option.case_cong)
      qed
    qed
  qed
qed

text \<open>Up to the allocation \<^const>\<open>vcam_open\<close> holds the descriptor only.\<close>

definition fd_opened :: "int \<Rightarrow> cam_view \<Rightarrow> cam_view \<Rightarrow> bool" where
  "fd_opened fd v0 v \<longleftrightarrow>
     0 \<le> fd \<and> fd \<notin> vw_fds v0 \<and> vw_fds v = insert fd (vw_fds v0) \<and> vw_maps v = vw_maps v0 \<and> vw_heap v = vw_heap v0"

lemma open_failed_releases:
  assumes "device_laws C view" "fd_opened fd v0 (view k)"
  shows "\<exists>k'. open_failed C fd k = Some (None, k') \<and> same_resources (view k') v0"
  using assms by (auto simp: open_failed_def fd_opened_def same_resources_def device_lawsD(3) [OF assms(1)])

lemma xioctl_opened:
  assumes "device_laws C view" "ioctls_settle C" "fd_opened fd v0 (view k)"
  obtains r k' where "xioctl C fd req k = Some (r, k')" "fd_opened fd v0 (view k')"
    "\<And>n b. req = VIDIOC_REQBUFS n \<Longrightarrow> r = SysOk b \<Longrightarrow> vw_queued (view k') fd = {}"
  using assms(1,2)
  by (cases rule: xioctl_cases [where fd = fd and req = req and k = k]) (use assms(3) that in \<open>auto simp: fd_opened_def\<close>)

definition open_result :: "cam_view \<Rightarrow> vcam option \<Rightarrow> cam_view \<Rightarrow> bool" where
  "open_result v0 r v \<longleftrightarrow>
     (case r of
        None \<Rightarrow> same_resources v v0
      | Some c \<Rightarrow> (\<exists>n. buffers_ok c n n \<and> vw_queued v (cam_fd c) = {0..<n}) \<and> holds c v0 v \<and> current c = - 1)"

lemma fresh_camera_ok:
  assumes laws: "device_laws C view" and settle: "ioctls_settle C"
    and op: "fd_opened fd v0 (view k)" and q: "vw_queued (view k) fd = {}" and al: "v_calloc C k = (True, k1)"
    and c: "c = \<lparr>cam_fd = fd, buf_start = replicate VCAM_NBUF NULL, buf_len = replicate VCAM_NBUF 0,
        n_buffers = (if n > int VCAM_NBUF then int VCAM_NBUF else n), current = - 1, cur_len = 0\<rparr>"
  shows "\<exists>r k'. vcam_buffers C [0..<nat (n_buffers c)] c k1 = Some (r, k') \<and> open_result v0 r (view k')"
proof -
  have ok: "buffers_ok c 0 (nat (n_buffers c))" by (auto simp: c buffers_ok_def VCAM_NBUF_def)
  then have "mapped c = {}" by (auto simp: mapped_def buffers_ok_def)
  then have "holds c v0 (view k1)" "vw_queued (view k1) (cam_fd c) = {0..<0}"
    using op q device_lawsD(9) [OF laws al] by (auto simp: holds_def fd_opened_def c)
  from vcam_buffers_ok [OF laws settle ok le0 this] obtain r k' where
    r: "vcam_buffers C [0..<nat (n_buffers c)] c k1 = Some (r, k')"
    and P: "case r of
      None \<Rightarrow> same_resources (view k') v0
    | Some c' \<Rightarrow> buffers_ok c' (nat (n_buffers c)) (nat (n_buffers c)) \<and> holds c' v0 (view k') \<and>
        current c' = current c \<and> vw_queued (view k') (cam_fd c') = {0..<nat (n_buffers c)}" by blast
  have "open_result v0 r (view k')"
  proof (cases r)
    case None
    with P show ?thesis by (simp add: open_result_def)
  next
    case (Some c')
    have "current c = - 1" by (simp add: c)
    with P Some show ?thesis by (auto simp: open_result_def)
  qed
  with r show ?thesis by blast
qed

lemma vcam_open_ok:
  assumes laws: "device_laws C view" and settle: "ioctls_settle C"
  shows "\<exists>r k'. vcam_open C path w h k = Some (r, k') \<and> open_result (view k) r (view k')"
proof (cases "v_open C path k" rule: syscall_cases)
  case (Err e k1)
  then show ?thesis
    using device_lawsD(2) [OF laws Err] by (simp add: vcam_open_def open_result_def same_resources_def)
next
  case o: (Ok fd k1)
  have o1: "fd_opened fd (view k) (view k1)" using device_lawsD(1) [OF laws o] by (simp add: fd_opened_def)
  obtain cap k2 where c2: "xioctl C fd VIDIOC_QUERYCAP k1 = Some (cap, k2)" and o2: "fd_opened fd (view k) (view k2)"
    by (rule xioctl_opened [OF laws settle o1])
  obtain fmt k3 where c3: "xioctl C fd (VIDIOC_S_FMT (word_of_int w) (word_of_int h)) k2 = Some (fmt, k3)"
    and o3: "fd_opened fd (view k) (view k3)"
    by (rule xioctl_opened [OF laws settle o2])
  obtain req k4 where c4: "xioctl C fd (VIDIOC_REQBUFS VCAM_NBUF) k3 = Some (req, k4)"
    and o4: "fd_opened fd (view k) (view k4)" and q4: "\<And>b. req = SysOk b \<Longrightarrow> vw_queued (view k4) fd = {}"
    by (rule xioctl_opened [OF laws settle o3, of "VIDIOC_REQBUFS VCAM_NBUF"]) blast
  obtain al k5 where ca: "v_calloc C k4 = (al, k5)" by fastforce
  have o5: "\<not> al \<Longrightarrow> fd_opened fd (view k) (view k5)" using device_lawsD(10) [OF laws, of k4 k5] ca o4 by simp
  show ?thesis
  proof (cases "\<exists>b f q. cap = SysOk b \<and> \<not> (capabilities b AND V4L2_CAP_VIDEO_CAPTURE = 0 \<or> capabilities b AND V4L2_CAP_STREAMING = 0) \<and>
      fmt = SysOk f \<and> pixelformat f = V4L2_PIX_FMT_MJPEG \<and> req = SysOk q \<and> \<not> reqcount q < 1 \<and> al")
    case False
    then have "\<exists>k'. fd_opened fd (view k) (view k') \<and> vcam_open C path w h k = open_failed C fd k'"
      using o c2 c3 c4 ca o2 o3 o4 o5 by (cases cap; cases fmt; cases req; cases al) (auto simp: vcam_open_def)
    then obtain k' where k': "fd_opened fd (view k) (view k')" "vcam_open C path w h k = open_failed C fd k'" by blast
    from open_failed_releases [OF laws k'(1)] k'(2) show ?thesis by (auto simp: open_result_def)
  next
    case True
    from True obtain q where q: "req = SysOk q" by auto
    from True ca have al: "v_calloc C k4 = (True, k5)" by auto
    let ?n = "sint (reqcount q)"
    let ?c = "\<lparr>cam_fd = fd, buf_start = replicate VCAM_NBUF NULL, buf_len = replicate VCAM_NBUF 0,
        n_buffers = (if ?n > int VCAM_NBUF then int VCAM_NBUF else ?n), current = - 1, cur_len = 0\<rparr>"
    have run: "vcam_open C path w h k = vcam_buffers C [0..<nat (n_buffers ?c)] ?c k5"
      using True o c2 c3 c4 ca q by (auto simp: vcam_open_def Let_def)
    show ?thesis unfolding run by (rule fresh_camera_ok [OF laws settle o4 q4 [OF q] al refl])
  qed
qed

text \<open>What a client does between open and close.\<close>

datatype cam_op = Next_Frame | Frame_Done

primrec cam_run :: "'k camera \<Rightarrow> cam_op list \<Rightarrow> vcam \<Rightarrow> 'k \<Rightarrow> (vcam \<times> 'k) option" where
  "cam_run C [] c k = Some (c, k)"
| "cam_run C (x # xs) c k =
     Option.bind (case x of Next_Frame \<Rightarrow> map_option snd (vcam_next C c k) | Frame_Done \<Rightarrow> vcam_done C c k)
       (\<lambda>(c', k'). cam_run C xs c' k')"

text \<open>The buffer in the program's hands is a mapped one the driver does not own.\<close>

definition cam_inv :: "vcam \<Rightarrow> cam_view \<Rightarrow> cam_view \<Rightarrow> bool" where
  "cam_inv c v0 v \<longleftrightarrow> holds c v0 v \<and>
     (\<exists>n. buffers_ok c n n \<and> vw_queued v (cam_fd c) \<subseteq> {0..<n} \<and>
       (0 \<le> current c \<longrightarrow> nat (current c) < n \<and> nat (current c) \<notin> vw_queued v (cam_fd c)))"

lemma sint_index: "unat (w :: u32) < VCAM_NBUF \<Longrightarrow> sint w = int (unat w)"
proof -
  assume "unat w < VCAM_NBUF"
  then have "unat w \<in> {0, 1, 2, 3}" by (auto simp: VCAM_NBUF_def)
  then have "w = of_nat 0 \<or> w = of_nat 1 \<or> w = of_nat 2 \<or> w = of_nat 3" by (auto simp: word_unat_eq_iff)
  then show ?thesis by auto
qed

lemma holds_current [simp]:
  "holds (c\<lparr>current := x, cur_len := y\<rparr>) v0 v = holds c v0 v" "holds (c\<lparr>current := x\<rparr>) v0 v = holds c v0 v"
  "buffers_ok (c\<lparr>current := x, cur_len := y\<rparr>) j n = buffers_ok c j n" "buffers_ok (c\<lparr>current := x\<rparr>) j n = buffers_ok c j n"
  by (simp_all add: holds_def mapped_def buffers_ok_def)

lemma holds_queue [simp]: "holds c v0 (set_queue v fd q) = holds c v0 v"
  by (simp add: holds_def)

lemma vcam_next_inv:
  assumes laws: "device_laws C view" and settle: "ioctls_settle C" and inv: "cam_inv c v0 (view k)"
  shows "\<exists>r c' k'. vcam_next C c k = Some (r, c', k') \<and> cam_inv c' v0 (view k')"
proof -
  from inv obtain n where n: "buffers_ok c n n" "vw_queued (view k) (cam_fd c) \<subseteq> {0..<n}" by (auto simp: cam_inv_def)
  from laws settle show ?thesis
  proof (cases rule: xioctl_cases [where fd = "cam_fd c" and req = VIDIOC_DQBUF and k = k])
    case (Ok b k1)
    then have i: "unat (bufindex b) \<in> {0..<n}" using n(2) by auto
    then have "sint (bufindex b) = int (unat (bufindex b))"
      using n(1) by (intro sint_index) (auto simp: buffers_ok_def)
    then have "nat (sint (bufindex b)) = unat (bufindex b)" by simp
    then have "cam_inv (c\<lparr>current := sint (bufindex b), cur_len := sint (bytesused b)\<rparr>) v0 (view k1)"
      using inv n i Ok(2) unfolding cam_inv_def by auto
    then show ?thesis using Ok(1) by (simp add: vcam_next_def)
  next
    case (Err e k1)
    then show ?thesis using inv by (simp add: vcam_next_def)
  qed
qed

lemma vcam_done_inv:
  assumes laws: "device_laws C view" and settle: "ioctls_settle C" and inv: "cam_inv c v0 (view k)"
  shows "\<exists>c' k'. vcam_done C c k = Some (c', k') \<and> cam_inv c' v0 (view k')"
proof (cases "current c < 0")
  case True
  with inv show ?thesis by (simp add: vcam_done_def)
next
  case False
  from laws settle show ?thesis
    by (cases rule: xioctl_cases [where fd = "cam_fd c" and req = "VIDIOC_QBUF (nat (current c))" and k = k])
      (use inv False in \<open>auto simp: vcam_done_def cam_inv_def\<close>)
qed

lemma cam_run_inv:
  assumes "device_laws C view" "ioctls_settle C" "cam_inv c v0 (view k)"
  shows "\<exists>c' k'. cam_run C ops c k = Some (c', k') \<and> cam_inv c' v0 (view k')"
  using assms(3)
proof (induction ops arbitrary: c k)
  case (Cons x xs)
  show ?case
  proof (cases x)
    case Next_Frame
    with vcam_next_inv [OF assms(1,2) Cons.prems] Cons.IH show ?thesis by fastforce
  next
    case Frame_Done
    with vcam_done_inv [OF assms(1,2) Cons.prems] Cons.IH show ?thesis by fastforce
  qed
qed simp

lemma vcam_open_inv:
  assumes "device_laws C view" "ioctls_settle C"
  shows "\<exists>r k'. vcam_open C path w h k = Some (r, k') \<and>
    (case r of None \<Rightarrow> same_resources (view k') (view k) | Some c \<Rightarrow> cam_inv c (view k) (view k') \<and> current c = - 1)"
  using vcam_open_ok [OF assms, of path w h k] by (fastforce simp: cam_inv_def open_result_def split: option.splits)

section \<open>A device for the witnesses\<close>

definition two_buffers :: vreply where
  "two_buffers = \<lparr>capabilities = 0x04000001, pixelformat = 0x47504a4d, reqcount = 2, buflength = 4096, bufoffset = 0,
     bufindex = 0, bytesused = 100\<rparr>"

definition test_camera :: "cam_view camera" where
  "test_camera =
     \<lparr>v_open = (\<lambda>p k. if 5 \<in> vw_fds k then (SysErr 24, k) else (SysOk 5, k\<lparr>vw_fds := insert 5 (vw_fds k)\<rparr>)),
      v_close = (\<lambda>fd k. k\<lparr>vw_fds := vw_fds k - {fd}\<rparr>),
      v_ioctl = (\<lambda>fd req k.
        if req = VIDIOC_DQBUF \<and> 0 \<notin> vw_queued k fd then (SysErr 11, k)
        else (SysOk two_buffers, set_queue k fd (queue_after req two_buffers (vw_queued k fd)))),
      v_mmap = (\<lambda>l fd off k.
        if 1000 \<notin> fst ` vw_maps k then (Some 1000, k\<lparr>vw_maps := insert (1000, l) (vw_maps k)\<rparr>)
        else if 2000 \<notin> fst ` vw_maps k then (Some 2000, k\<lparr>vw_maps := insert (2000, l) (vw_maps k)\<rparr>)
        else (None, k)),
      v_munmap = (\<lambda>a l k. k\<lparr>vw_maps := vw_maps k - {(a, l)}\<rparr>),
      v_calloc = (\<lambda>k. (True, k\<lparr>vw_heap := Suc (vw_heap k)\<rparr>)),
      v_free = (\<lambda>k. k\<lparr>vw_heap := vw_heap k - 1\<rparr>)\<rparr>"

lemma test_camera_laws: "device_laws test_camera (\<lambda>k. k)" "ioctls_settle test_camera"
  by (auto simp: device_laws_def test_camera_def two_buffers_def ioctls_settle_def settles_def intro!: exI [of _ 0])

lemma test_camera_calls:
  "v_open test_camera p k = (if 5 \<in> vw_fds k then (SysErr 24, k) else (SysOk 5, k\<lparr>vw_fds := insert 5 (vw_fds k)\<rparr>))"
  "v_ioctl test_camera fd req k =
     (if req = VIDIOC_DQBUF \<and> 0 \<notin> vw_queued k fd then (SysErr 11, k)
      else (SysOk two_buffers, set_queue k fd (queue_after req two_buffers (vw_queued k fd))))"
  "v_mmap test_camera l fd off k =
     (if 1000 \<notin> fst ` vw_maps k then (Some 1000, k\<lparr>vw_maps := insert (1000, l) (vw_maps k)\<rparr>)
      else if 2000 \<notin> fst ` vw_maps k then (Some 2000, k\<lparr>vw_maps := insert (2000, l) (vw_maps k)\<rparr>)
      else (None, k))"
  "v_calloc test_camera k = (True, k\<lparr>vw_heap := Suc (vw_heap k)\<rparr>)"
  by (simp_all add: test_camera_def)

lemma test_xioctl: "xioctl test_camera fd req k = Some (v_ioctl test_camera fd req k)"
  unfolding xioctl_def by (rule retry_stop) (auto simp: test_camera_calls split: if_splits)

definition empty_view :: cam_view where
  "empty_view = \<lparr>vw_fds = {0, 1, 2}, vw_maps = {}, vw_heap = 7, vw_queued = (\<lambda>_. {})\<rparr>"

definition test_cam :: vcam where
  "test_cam = \<lparr>cam_fd = 5, buf_start = [Mapped 1000, Mapped 2000, NULL, NULL], buf_len = [4096, 4096, 0, 0],
     n_buffers = 2, current = - 1, cur_len = 0\<rparr>"

definition test_view :: cam_view where
  "test_view = \<lparr>vw_fds = {5, 0, 1, 2}, vw_maps = {(2000, 4096), (1000, 4096)}, vw_heap = 8,
     vw_queued = (\<lambda>_. {})(5 := {1, 0})\<rparr>"

lemma replicate_4: "replicate 4 x = [x, x, x, x]"
  by (simp add: eval_nat_numeral)

lemma test_open: "vcam_open test_camera ''/dev/video0'' 640 480 empty_view = Some (Some test_cam, test_view)"
  by (simp add: vcam_open_def test_xioctl test_camera_calls two_buffers_def empty_view_def V4L2_CAP_VIDEO_CAPTURE_def
      V4L2_CAP_STREAMING_def V4L2_PIX_FMT_MJPEG_def VCAM_NBUF_def set_queue_def upt_rec test_cam_def test_view_def replicate_4)

section \<open>Properties\<close>

text \<open>
  C36. Opening the camera returns, and a failure at any step, whichever ioctl, mapping or allocation it is, leaves
  every descriptor, mapping and heap block as before. After a success any sequence of frames taken and given
  back can follow, and closing then releases exactly what opening acquired.
\<close>

theorem vcam_no_leak:
  assumes "device_laws C view" and "ioctls_settle C"
  shows "\<exists>r k1. vcam_open C path w h k = Some (r, k1) \<and>
    (case r of
       None \<Rightarrow> same_resources (view k1) (view k)
     | Some c \<Rightarrow> \<forall>ops. \<exists>c2 k2 k3. cam_run C ops c k1 = Some (c2, k2) \<and> vcam_close C (Some c2) k2 = Some k3 \<and>
         same_resources (view k3) (view k))"
proof -
  have close: "\<exists>k3. vcam_close C (Some c) k' = Some k3 \<and> same_resources (view k3) (view k)"
    if "cam_inv c (view k) (view k')" for c k'
    using that vcam_close_releases [OF assms] by (auto simp: cam_inv_def)
  from vcam_open_inv [OF assms, of path w h k] obtain r k1 where r: "vcam_open C path w h k = Some (r, k1)"
    "case r of None \<Rightarrow> same_resources (view k1) (view k) | Some c \<Rightarrow> cam_inv c (view k) (view k1) \<and> current c = - 1" by blast
  show ?thesis
  proof (cases r)
    case None
    with r show ?thesis by simp
  next
    case (Some c)
    with r(2) have "cam_inv c (view k) (view k1)" by simp
    from cam_run_inv [OF assms this] have "\<forall>ops. \<exists>c2 k2 k3. cam_run C ops c k1 = Some (c2, k2) \<and>
        vcam_close C (Some c2) k2 = Some k3 \<and> same_resources (view k3) (view k)" using close by blast
    with r(1) Some show ?thesis by auto
  qed
qed

theorem vcam_no_leak_witness:
  "\<exists>r k1. vcam_open test_camera ''/dev/video0'' 640 480 empty_view = Some (r, k1) \<and>
   (case r of
      None \<Rightarrow> same_resources k1 empty_view
    | Some c \<Rightarrow> \<forall>ops. \<exists>c2 k2 k3. cam_run test_camera ops c k1 = Some (c2, k2) \<and> vcam_close test_camera (Some c2) k2 = Some k3 \<and>
        same_resources k3 empty_view)"
  by (rule vcam_no_leak [OF test_camera_laws])

text \<open>
  C37. Between open and close, in every order of \<^verbatim>\<open>vcam_next\<close> and \<^verbatim>\<open>vcam_done\<close>, the pointer \<^verbatim>\<open>vcam_ptr\<close> hands out is
  \<^verbatim>\<open>NULL\<close> or the start of a buffer that is mapped and that the driver does not own: no frame is read while the
  driver may write it.
\<close>

theorem vcam_frame_owned:
  assumes laws: "device_laws C view" and settle: "ioctls_settle C"
    and opn: "vcam_open C path w h k = Some (Some c, k1)" and run: "cam_run C ops c k1 = Some (c2, k2)"
  shows "(current c2 < 0 \<and> vcam_ptr c2 = NULL) \<or>
    (\<exists>a. vcam_ptr c2 = Mapped a \<and> (a, buf_len c2 ! nat (current c2)) \<in> vw_maps (view k2) \<and>
      nat (current c2) \<notin> vw_queued (view k2) (cam_fd c2))"
proof -
  from vcam_open_inv [OF laws settle, of path w h k] opn have "cam_inv c (view k) (view k1)" by simp
  from cam_run_inv [OF laws settle this, of ops] run have inv: "cam_inv c2 (view k) (view k2)" by simp
  show ?thesis
  proof (cases "current c2 < 0")
    case True
    then show ?thesis by (simp add: vcam_ptr_def)
  next
    case False
    with inv obtain n where n: "buffers_ok c2 n n" "nat (current c2) < n" "nat (current c2) \<notin> vw_queued (view k2) (cam_fd c2)"
      by (auto simp: cam_inv_def)
    then obtain a where a: "buf_start c2 ! nat (current c2) = Mapped a" by (auto simp: buffers_ok_def)
    then have "(a, buf_len c2 ! nat (current c2)) \<in> mapped c2" using n by (auto simp: mapped_def buffers_ok_def)
    with inv have "(a, buf_len c2 ! nat (current c2)) \<in> vw_maps (view k2)" by (auto simp: cam_inv_def holds_def)
    with False a n show ?thesis by (simp add: vcam_ptr_def)
  qed
qed

theorem vcam_frame_owned_witness:
  "vcam_open test_camera ''/dev/video0'' 640 480 empty_view = Some (Some test_cam, test_view) \<and>
   cam_run test_camera [Next_Frame] test_cam test_view =
     Some (test_cam\<lparr>current := 0, cur_len := 100\<rparr>, set_queue test_view 5 {1}) \<and>
   vcam_ptr (test_cam\<lparr>current := 0, cur_len := 100\<rparr>) = Mapped 1000 \<and> (1000, 4096) \<in> vw_maps test_view \<and>
   0 \<notin> vw_queued (set_queue test_view 5 {1}) 5"
proof -
  have run: "cam_run test_camera [Next_Frame] test_cam test_view =
      Some (test_cam\<lparr>current := 0, cur_len := 100\<rparr>, set_queue test_view 5 {1})"
    by (auto simp: vcam_next_def test_xioctl test_camera_calls two_buffers_def test_cam_def test_view_def set_queue_def insert_Diff_if)
  from vcam_frame_owned [OF test_camera_laws test_open run] test_open run show ?thesis
    by (simp add: vcam_ptr_def test_cam_def)
qed

end
