(* ===== verification/Respond.thy ===== *)
theory Respond
  imports Bytes
begin

text \<open>
  The response-building strategies measured by \<^verbatim>\<open>src/bench/micro.c\<close>, which are the ones the server can choose
  from: a precomputed response, a raw write into the batch buffer, the gutter writer that places the body
  first and slides it to its header, and the build in a fresh block with or without a copy. Buffers are lists
  of fixed length; a write past the end would change the length.
\<close>

section \<open>Rendering a response\<close>

definition crlf :: "byte list" where
  "crlf = [13, 10]"

definition PREFIX :: "byte list" where
  "PREFIX = ascii ''HTTP/1.1 200 OK'' @ crlf @ ascii ''Content-Type: text/plain'' @ crlf @ ascii ''Content-Length: ''"

text \<open>\<^verbatim>\<open>tmp\<close>: the decimal digits, least significant first.\<close>

function itoa_tmp :: "nat \<Rightarrow> byte list" where
  "itoa_tmp v = (let d = of_nat (48 + v mod 10); v' = v div 10 in if v' = 0 then [d] else d # itoa_tmp v')"
  by pat_completeness auto
termination by (relation "measure id") auto

declare itoa_tmp.simps [simp del]

text \<open>The copy loop \<^verbatim>\<open>dst[i] = tmp[n - 1 - i]\<close> for \<open>i < n\<close>, and \<open>n\<close>, the length.\<close>

definition itoa10 :: "nat \<Rightarrow> byte list" where
  "itoa10 v = (let tmp = itoa_tmp v; n = length tmp in map (\<lambda>i. tmp ! (n - 1 - i)) [0..<n])"

text \<open>The four copies that write a response at \<open>p\<close>, and where they end.\<close>

definition build_into :: "byte list \<Rightarrow> nat \<Rightarrow> byte list \<Rightarrow> byte list \<times> nat" where
  "build_into out p body =
     (let out1 = memcpy_at out p PREFIX; p1 = p + length PREFIX;
          out2 = memcpy_at out1 p1 (itoa10 (length body)); p2 = p1 + length (itoa10 (length body));
          out3 = memcpy_at out2 p2 (crlf @ crlf); p3 = p2 + 4;
          out4 = memcpy_at out3 p3 body; p4 = p3 + length body
      in (out4, p4))"

section \<open>Strategies\<close>

definition batch_size :: nat where
  "batch_size = 2 ^ 20"

definition GUTTER :: nat where
  "GUTTER = 256"

text \<open>One iteration of each loop: the batch buffer and the offset in it.\<close>

definition static_step :: "byte list \<Rightarrow> byte list \<times> nat \<Rightarrow> byte list \<times> nat" where
  "static_step resp = (\<lambda>(out, off).
     let off = (if off + length resp > batch_size then 0 else off) in
     (memcpy_at out off resp, off + length resp))"

definition raw_step :: "byte list \<Rightarrow> byte list \<times> nat \<Rightarrow> byte list \<times> nat" where
  "raw_step body = (\<lambda>(out, off).
     let off = (if off + GUTTER + length body > batch_size then 0 else off) in build_into out off body)"

definition gutter_step :: "byte list \<Rightarrow> byte list \<times> nat \<Rightarrow> byte list \<times> nat" where
  "gutter_step body = (\<lambda>(out, off).
     let off = (if off + GUTTER + length body + 256 > batch_size then 0 else off);
         out1 = memcpy_at out (off + GUTTER) body;
         (hdr, h) = (let hdr0 = memcpy_at (replicate GUTTER 0) 0 PREFIX; h0 = length PREFIX;
                         hdr1 = memcpy_at hdr0 h0 (itoa10 (length body)); h1 = h0 + length (itoa10 (length body));
                         hdr2 = memcpy_at hdr1 h1 (crlf @ crlf); h2 = h1 + 4
                     in (hdr2, h2));
         out2 = memcpy_at out1 (off + h) (segment (off + GUTTER) (off + GUTTER + length body) out1);
         out3 = memcpy_at out2 off (take h hdr)
     in (out3, off + (h + length body)))"

text \<open>A fresh block's content is whatever \<^verbatim>\<open>malloc\<close> left there, \<open>junk\<close>.\<close>

definition fresh_block :: "(nat \<Rightarrow> byte) \<Rightarrow> nat \<Rightarrow> byte list" where
  "fresh_block junk n = map junk [0..<n]"

definition alloc_build :: "(nat \<Rightarrow> byte) \<Rightarrow> byte list \<Rightarrow> byte list \<times> nat" where
  "alloc_build junk body = build_into (fresh_block junk (length PREFIX + 16 + length body)) 0 body"

definition alloc_step :: "(nat \<Rightarrow> byte) \<Rightarrow> byte list \<Rightarrow> u64 \<Rightarrow> u64" where
  "alloc_step junk body acc = (case alloc_build junk body of (p0, n) \<Rightarrow> acc + (ucast (p0 ! 4) + of_nat n))"

definition alloc_copy_step :: "(nat \<Rightarrow> byte) \<Rightarrow> byte list \<Rightarrow> byte list \<times> nat \<Rightarrow> byte list \<times> nat" where
  "alloc_copy_step junk body = (\<lambda>(out, off).
     case alloc_build junk body of (p0, len) \<Rightarrow>
       let off = (if off + len > batch_size then 0 else off) in
       (memcpy_at out off (take len p0), off + len))"

definition bench_static :: "byte list \<Rightarrow> byte list \<Rightarrow> nat \<Rightarrow> byte list \<times> nat" where
  "bench_static out resp iters = (static_step resp ^^ iters) (out, 0)"

definition bench_raw :: "byte list \<Rightarrow> byte list \<Rightarrow> nat \<Rightarrow> byte list \<times> nat" where
  "bench_raw out body iters = (raw_step body ^^ iters) (out, 0)"

definition bench_gutter :: "byte list \<Rightarrow> byte list \<Rightarrow> nat \<Rightarrow> byte list \<times> nat" where
  "bench_gutter out body iters = (gutter_step body ^^ iters) (out, 0)"

definition bench_alloc :: "(nat \<Rightarrow> byte) \<Rightarrow> byte list \<Rightarrow> nat \<Rightarrow> u64" where
  "bench_alloc junk body iters = (alloc_step junk body ^^ iters) 0"

definition bench_alloc_copy :: "(nat \<Rightarrow> byte) \<Rightarrow> byte list \<Rightarrow> byte list \<Rightarrow> nat \<Rightarrow> byte list \<times> nat" where
  "bench_alloc_copy junk out body iters = (alloc_copy_step junk body ^^ iters) (out, 0)"

section \<open>The request's read buffer\<close>

text \<open>
  The growing buffer: \<^verbatim>\<open>realloc\<close> to the doubled capacity keeps the content and leaves the rest unspecified;
  one simulated receive takes what fits.
\<close>

partial_function (option) reqbuf_fill :: "(nat \<Rightarrow> byte) \<Rightarrow> byte list \<Rightarrow> nat \<Rightarrow> byte list \<Rightarrow> nat \<Rightarrow> (byte list \<times> nat) option" where
  "reqbuf_fill junk wire req_len buf len =
     (if len < req_len then
        (let buf' = (if len = length buf then buf @ fresh_block junk (length buf) else buf);
             spare = length buf' - len; n = (if req_len - len > spare then spare else req_len - len)
         in reqbuf_fill junk wire req_len (memcpy_at buf' len (segment len (len + n) wire)) (len + n))
      else Some (buf, len))"

primrec bench_reqbuf_grow :: "(nat \<Rightarrow> byte) \<Rightarrow> byte list \<Rightarrow> nat \<Rightarrow> nat \<Rightarrow> u64 option" where
  "bench_reqbuf_grow junk wire req_len 0 = Some 0"
| "bench_reqbuf_grow junk wire req_len (Suc iters) = do {
     acc \<leftarrow> bench_reqbuf_grow junk wire req_len iters;
     (buf, len) \<leftarrow> reqbuf_fill junk wire req_len (fresh_block junk 256) 0;
     Some (acc + ucast (buf ! (len - 1)))
   }"

primrec bench_reqbuf_persistent :: "byte list \<Rightarrow> byte list \<Rightarrow> nat \<Rightarrow> nat \<Rightarrow> byte list \<times> u64" where
  "bench_reqbuf_persistent conn_buf wire req_len 0 = (conn_buf, 0)"
| "bench_reqbuf_persistent conn_buf wire req_len (Suc iters) =
     (case bench_reqbuf_persistent conn_buf wire req_len iters of (buf, acc) \<Rightarrow>
        let buf' = memcpy_at buf 0 (take req_len wire) in (buf', acc + ucast (buf' ! (req_len - 1))))"

section \<open>Lemmas\<close>

lemma length_itoa10: "0 < n \<Longrightarrow> v < 10 ^ n \<Longrightarrow> length (itoa10 v) \<le> n"
proof -
  have "0 < n \<Longrightarrow> v < 10 ^ n \<Longrightarrow> length (itoa_tmp v) \<le> n"
  proof (induction v arbitrary: n rule: itoa_tmp.induct)
    case (1 v)
    show ?case
    proof (cases "v div 10 = 0")
      case True
      with 1 show ?thesis by (simp add: itoa_tmp.simps [of v])
    next
      case False
      then obtain m where m: "n = Suc m" "0 < m" using 1(2,3) by (cases n; cases "n = 1") auto
      then have "v div 10 < 10 ^ m" using 1(3) by (simp add: less_mult_imp_div_less mult.commute)
      with 1(1) [OF refl refl False m(2)] m False show ?thesis by (simp add: itoa_tmp.simps [of v])
    qed
  qed
  then show "0 < n \<Longrightarrow> v < 10 ^ n \<Longrightarrow> length (itoa10 v) \<le> n" by (simp add: itoa10_def Let_def)
qed

text \<open>The response, with the decimal notation of the body's length written down independently of the code.\<close>

fun decimal :: "nat \<Rightarrow> string" where
  "decimal n = (if n < 10 then [''0123456789'' ! n] else decimal (n div 10) @ [''0123456789'' ! (n mod 10)])"

declare decimal.simps [simp del]

definition response :: "byte list \<Rightarrow> byte list" where
  "response body = PREFIX @ ascii (decimal (length body)) @ crlf @ crlf @ body"

lemma rev_map_nth: "map (\<lambda>i. xs ! (length xs - 1 - i)) [0..<length xs] = rev xs"
  by (rule nth_equalityI) (simp_all add: rev_nth)

lemma itoa10_rev: "itoa10 v = rev (itoa_tmp v)"
  using rev_map_nth [of "itoa_tmp v"] by (simp add: itoa10_def Let_def)

lemma ascii_digit: "d < 10 \<Longrightarrow> ascii [''0123456789'' ! d] = [of_nat (48 + d)]"
  by (auto simp: ascii_def less_Suc_eq numeral_eq_Suc)

lemma itoa10_decimal: "itoa10 v = ascii (decimal v)"
  unfolding itoa10_rev
proof (induction v rule: itoa_tmp.induct)
  case (1 v)
  show ?case
  proof (cases "v < 10")
    case True
    with ascii_digit [OF True] show ?thesis by (simp add: itoa_tmp.simps [of v] decimal.simps [of v])
  next
    case False
    then have "0 < v div 10" by (simp add: div_greater_zero_iff)
    with False 1 ascii_digit [of "v mod 10"] show ?thesis
      by (simp add: itoa_tmp.simps [of v] decimal.simps [of v] ascii_def Let_def)
  qed
qed

lemma response_itoa10: "response body = PREFIX @ itoa10 (length body) @ crlf @ crlf @ body"
  by (simp add: response_def itoa10_decimal)

lemma length_crlf [simp]: "length crlf = 2"
  by (simp add: crlf_def)

lemma build_into_eq:
  assumes "p + length (response body) \<le> length out"
  shows "build_into out p body = (memcpy_at out p (response body), p + length (response body))"
proof -
  let ?d = "itoa10 (length body)"
  have len: "p + length PREFIX + length ?d + 4 + length body \<le> length out"
    using assms by (simp add: response_itoa10)
  then have "memcpy_at (memcpy_at out p PREFIX) (p + length PREFIX) ?d = memcpy_at out p (PREFIX @ ?d)"
    by (intro memcpy_at_append) simp
  moreover have "memcpy_at (memcpy_at out p (PREFIX @ ?d)) (p + length PREFIX + length ?d) (crlf @ crlf) =
      memcpy_at out p ((PREFIX @ ?d) @ crlf @ crlf)"
    using memcpy_at_append [of p "PREFIX @ ?d" "crlf @ crlf" out] len by (simp add: add.assoc)
  moreover have "memcpy_at (memcpy_at out p ((PREFIX @ ?d) @ crlf @ crlf)) (p + length PREFIX + length ?d + 4) body =
      memcpy_at out p (response body)"
    using memcpy_at_append [of p "(PREFIX @ ?d) @ crlf @ crlf" body out] len by (simp add: response_itoa10 add.assoc)
  ultimately show ?thesis by (simp add: build_into_def Let_def response_itoa10)
qed

text \<open>
  The batch buffer holds whole responses up to the offset, at least one after at least one iteration.
\<close>

definition batch_ok :: "byte list \<Rightarrow> nat \<Rightarrow> byte list \<times> nat \<Rightarrow> bool" where
  "batch_ok resp iters = (\<lambda>(out, off). length out = batch_size \<and> off \<le> batch_size \<and>
     (\<exists>k. (0 < iters \<longrightarrow> 0 < k) \<and> off = k * length resp \<and> take off out = concat (replicate k resp)))"

lemma concat_replicate_snoc: "concat (replicate k r) @ r = concat (replicate (Suc k) r)"
  by (induction k) auto

lemma batch_ok_append:
  assumes "batch_ok resp n (out, off)" and off': "off' = off \<or> off' = 0"
    and "length out' = batch_size" "off' + length resp \<le> batch_size"
    and "take (off' + length resp) out' = take off' out @ resp"
  shows "batch_ok resp (Suc n) (out', off' + length resp)"
proof -
  obtain k where k: "off' = k * length resp" "take off' out = concat (replicate k resp)"
    using assms(1) off' by (fastforce simp: batch_ok_def)
  then have "take (off' + length resp) out' = concat (replicate (Suc k) resp)"
    using assms(5) concat_replicate_snoc by metis
  with k assms(3,4) show ?thesis by (auto simp: batch_ok_def intro!: exI [of _ "Suc k"])
qed

lemma batch_ok_iterate:
  assumes "\<And>n s. batch_ok resp n s \<Longrightarrow> batch_ok resp (Suc n) (step s)" "length out = batch_size"
  shows "batch_ok resp n ((step ^^ n) (out, 0))"
  using assms(2) by (induction n) (auto simp: batch_ok_def [of _ 0] intro: assms(1) exI [of _ 0])

lemma PREFIX_length: "length PREFIX = 59"
  by (simp add: PREFIX_def crlf_def ascii_def)

lemma response_length:
  assumes "length body + 512 \<le> batch_size"
  shows "length (response body) = 63 + length (itoa10 (length body)) + length body" "length (itoa10 (length body)) \<le> 7"
  using assms length_itoa10 [of 7 "length body"] by (simp_all add: response_itoa10 PREFIX_length batch_size_def)

lemma raw_step_ok:
  assumes "batch_ok (response body) n s" and len: "length body + 512 \<le> batch_size"
  shows "batch_ok (response body) (Suc n) (raw_step body s)"
proof -
  obtain out off where s: "s = (out, off)" by fastforce
  define off' where "off' = (if off + GUTTER + length body > batch_size then 0 else off)"
  have o: "length out = batch_size" using assms(1) s by (simp add: batch_ok_def)
  have fits: "off' + length (response body) \<le> length out"
    using response_length [OF len] len o by (auto simp: off'_def GUTTER_def)
  have "raw_step body s = (memcpy_at out off' (response body), off' + length (response body))"
    using build_into_eq [OF fits] by (simp add: raw_step_def s Let_def flip: off'_def)
  moreover have "off' = off \<or> off' = 0" by (simp add: off'_def)
  ultimately show ?thesis
    using batch_ok_append [of "response body" n out off off'] assms(1) s o fits take_memcpy_at [OF fits] by simp
qed

lemma static_step_ok:
  assumes "batch_ok resp n s" and len: "length resp \<le> batch_size"
  shows "batch_ok resp (Suc n) (static_step resp s)"
proof -
  obtain out off where s: "s = (out, off)" by fastforce
  define off' where "off' = (if off + length resp > batch_size then 0 else off)"
  have o: "length out = batch_size" using assms(1) s by (simp add: batch_ok_def)
  have fits: "off' + length resp \<le> length out" using len o by (auto simp: off'_def)
  have "off' = off \<or> off' = 0" by (simp add: off'_def)
  then show ?thesis
    using batch_ok_append [of resp n out off off'] assms(1) s o fits take_memcpy_at [OF fits]
    by (simp add: static_step_def Let_def flip: off'_def)
qed

lemma gutter_header:
  assumes "length (body :: byte list) + 512 \<le> batch_size"
  shows "memcpy_at (memcpy_at (memcpy_at (replicate GUTTER 0) 0 PREFIX) (length PREFIX) (itoa10 (length body)))
      (length PREFIX + length (itoa10 (length body))) (crlf @ crlf) =
    memcpy_at (replicate GUTTER 0) 0 (PREFIX @ itoa10 (length body) @ crlf @ crlf)"
proof -
  let ?d = "itoa10 (length body)" and ?z = "replicate GUTTER 0 :: byte list"
  have len: "length PREFIX + length ?d + 4 \<le> GUTTER"
    using response_length(2) [OF assms] by (simp add: PREFIX_length GUTTER_def)
  then have "memcpy_at (memcpy_at ?z 0 PREFIX) (length PREFIX) ?d = memcpy_at ?z 0 (PREFIX @ ?d)"
    using memcpy_at_append [of 0 PREFIX ?d ?z] by simp
  moreover have "memcpy_at (memcpy_at ?z 0 (PREFIX @ ?d)) (length PREFIX + length ?d) (crlf @ crlf) =
      memcpy_at ?z 0 (PREFIX @ ?d @ crlf @ crlf)"
    using len memcpy_at_append [of 0 "PREFIX @ ?d" "crlf @ crlf" ?z] by simp
  ultimately show ?thesis by simp
qed

lemma gutter_step_ok:
  assumes "batch_ok (response body) n s" and len: "length body + 512 \<le> batch_size"
  shows "batch_ok (response body) (Suc n) (gutter_step body s)"
proof -
  obtain out off where s: "s = (out, off)" by fastforce
  define off' where "off' = (if off + GUTTER + length body + 256 > batch_size then 0 else off)"
  let ?h = "PREFIX @ itoa10 (length body) @ crlf @ crlf"
  have o: "length out = batch_size" using assms(1) s by (simp add: batch_ok_def)
  have resp: "response body = ?h @ body" by (simp add: response_itoa10)
  have h: "length ?h \<le> GUTTER" using response_length(2) [OF len] by (simp add: PREFIX_length GUTTER_def)
  have fits: "off' + GUTTER + length body \<le> length out" using len o by (auto simp: off'_def GUTTER_def)
  let ?out1 = "memcpy_at out (off' + GUTTER) body"
  have body: "segment (off' + GUTTER) (off' + GUTTER + length body) ?out1 = body" by (rule segment_memcpy_at [OF fits])
  have len1: "length ?out1 = batch_size" using fits o by simp
  have "gutter_step body s = (memcpy_at (memcpy_at ?out1 (off' + length ?h) body) off' ?h, off' + (length ?h + length body))"
    using body take_memcpy_at_0 [of ?h "replicate GUTTER 0"]
    unfolding gutter_step_def s case_prod_conv off'_def [symmetric]
    by (simp add: Let_def gutter_header [OF len] add.assoc)
  also have "\<dots> = (memcpy_at ?out1 off' (response body), off' + length (response body))"
    using memcpy_at_before [of off' ?h body ?out1] fits h o len1 by (simp add: resp)
  finally have step: "gutter_step body s = (memcpy_at ?out1 off' (response body), off' + length (response body))" .
  have fit2: "off' + length (response body) \<le> length ?out1" using fits h len1 o by (simp add: resp)
  have "take off' ?out1 = take off' out" using fits by (intro take_before_memcpy_at) auto
  moreover have "off' = off \<or> off' = 0" by (simp add: off'_def)
  ultimately show ?thesis unfolding step
    using batch_ok_append [of "response body" n out off off'] assms(1) s len1 fit2 take_memcpy_at [OF fit2] by simp
qed

lemma alloc_build_eq:
  assumes "length body + 512 \<le> batch_size"
  shows "alloc_build junk body =
    (memcpy_at (fresh_block junk (length PREFIX + 16 + length body)) 0 (response body), length (response body))"
  unfolding alloc_build_def using response_length [OF assms]
  by (subst build_into_eq) (simp_all add: fresh_block_def PREFIX_length)

lemma alloc_copy_step_ok:
  assumes "batch_ok (response body) n s" and len: "length body + 512 \<le> batch_size"
  shows "batch_ok (response body) (Suc n) (alloc_copy_step junk body s)"
proof -
  have "alloc_copy_step junk body = static_step (response body)"
    by (rule ext) (simp add: alloc_copy_step_def static_step_def alloc_build_eq [OF len] split: prod.splits)
  moreover have "length (response body) \<le> batch_size" using response_length [OF len] len by simp
  ultimately show ?thesis using static_step_ok [OF assms(1)] by simp
qed

lemma alloc_step_eq:
  assumes "length body + 512 \<le> batch_size"
  shows "alloc_step junk body acc = acc + (0x2f + of_nat (length (response body)))"
proof -
  have "take 5 (memcpy_at b 0 (response body)) = take 5 (response body)" for b
    using response_length [OF assms] by (simp add: memcpy_at_def)
  then have "memcpy_at b 0 (response body) ! 4 = response body ! 4" for b
    by (metis nth_take lessI eval_nat_numeral(3) numeral_eq_Suc)
  moreover have "response body ! 4 = 0x2f" by (simp add: response_itoa10 PREFIX_def ascii_def nth_append)
  ultimately show ?thesis by (simp add: alloc_step_def alloc_build_eq [OF assms])
qed

lemma length_fresh_block [simp]: "length (fresh_block junk n) = n" "fresh_block junk n = [] \<longleftrightarrow> n = 0"
  by (simp_all add: fresh_block_def)

lemma reqbuf_fill_ok:
  assumes "len \<le> length buf" "buf \<noteq> []" "len \<le> req_len" "req_len \<le> length wire" "take len buf = take len wire"
  shows "\<exists>buf'. reqbuf_fill junk wire req_len buf len = Some (buf', req_len) \<and> req_len \<le> length buf' \<and>
    take req_len buf' = take req_len wire"
  using assms
proof (induction "req_len - len" arbitrary: buf len rule: less_induct)
  case less
  show ?case
  proof (cases "len < req_len")
    case False
    with less.prems show ?thesis by (subst reqbuf_fill.simps) auto
  next
    case True
    define b where "b = (if len = length buf then buf @ fresh_block junk (length buf) else buf)"
    define n where "n = (if req_len - len > length b - len then length b - len else req_len - len)"
    let ?b = "memcpy_at b len (segment len (len + n) wire)"
    have b: "len < length b" "b \<noteq> []" "take len b = take len wire"
      using less.prems by (auto simp: b_def)
    have n: "0 < n" "len + n \<le> length b" "len + n \<le> req_len" using b True by (auto simp: n_def)
    have seg: "length (segment len (len + n) wire) = n" using n less.prems(4) by simp
    have "take (len + n) ?b = take len wire @ segment len (len + n) wire"
      using take_memcpy_at [of len "segment len (len + n) wire" b] n(2) seg b(3) by simp
    also have "\<dots> = take (len + n) wire" by (simp add: segment_def take_add)
    finally have "take (len + n) ?b = take (len + n) wire" .
    moreover have lb: "length ?b = length b" using n(2) seg by simp
    moreover from lb have "?b \<noteq> []" "req_len - (len + n) < req_len - len" using b(1,2) n(1) True by (auto simp flip: length_0_conv)
    moreover have "reqbuf_fill junk wire req_len buf len = reqbuf_fill junk wire req_len ?b (len + n)"
      using True by (subst reqbuf_fill.simps) (simp add: b_def n_def Let_def)
    ultimately show ?thesis using less.hyps [of "len + n" ?b] n b less.prems(4) True by auto
  qed
qed

lemma grow_equals_persistent:
  assumes "0 < req_len" "req_len \<le> length wire" "req_len \<le> length conn_buf"
  shows "bench_reqbuf_grow junk wire req_len iters = Some (snd (bench_reqbuf_persistent conn_buf wire req_len iters)) \<and>
    length (fst (bench_reqbuf_persistent conn_buf wire req_len iters)) = length conn_buf"
proof (induction iters)
  case (Suc iters)
  obtain pb acc where p: "bench_reqbuf_persistent conn_buf wire req_len iters = (pb, acc)" by fastforce
  have last: "xs ! (req_len - 1) = wire ! (req_len - 1)" if "take req_len xs = take req_len wire" for xs
    using arg_cong [OF that, of "\<lambda>l. l ! (req_len - 1)"] assms(1) by simp
  obtain gb where g: "reqbuf_fill junk wire req_len (fresh_block junk 256) 0 = Some (gb, req_len)"
      "take req_len gb = take req_len wire"
    using reqbuf_fill_ok [of 0 "fresh_block junk 256" req_len wire junk] assms(2) by auto
  have m: "take req_len (memcpy_at pb 0 (take req_len wire)) = take req_len wire"
    using assms(2) by (simp add: memcpy_at_def)
  show ?case using Suc p g(1) last [OF g(2)] last [OF m] assms by (simp add: Let_def)
qed simp

section \<open>Properties\<close>

text \<open>
  C38. Every strategy writes the same responses: after any number of iterations the precomputed copy, the raw
  write, the gutter writer and the build-and-copy each leave the batch buffer, written nowhere past its end,
  holding a whole number of copies of the response (status line, headers with the body's decimal length,
  blank line, body), at least one; and the build in a fresh block measures that same response.
\<close>

theorem responses_equivalent:
  assumes "length out = batch_size" "length body + 512 \<le> batch_size"
  shows "batch_ok (response body) iters (bench_static out (response body) iters) \<and>
    batch_ok (response body) iters (bench_raw out body iters) \<and>
    batch_ok (response body) iters (bench_gutter out body iters) \<and>
    batch_ok (response body) iters (bench_alloc_copy junk out body iters) \<and>
    bench_alloc junk body iters = of_nat iters * (0x2f + of_nat (length (response body)))"
proof (intro conjI)
  have "length (response body) \<le> batch_size" using response_length [OF assms(2)] assms(2) by simp
  then show "batch_ok (response body) iters (bench_static out (response body) iters)"
    unfolding bench_static_def using batch_ok_iterate assms(1) static_step_ok by blast
  show "batch_ok (response body) iters (bench_raw out body iters)"
    unfolding bench_raw_def using batch_ok_iterate assms raw_step_ok by blast
  show "batch_ok (response body) iters (bench_gutter out body iters)"
    unfolding bench_gutter_def using batch_ok_iterate assms gutter_step_ok by blast
  show "batch_ok (response body) iters (bench_alloc_copy junk out body iters)"
    unfolding bench_alloc_copy_def using batch_ok_iterate assms alloc_copy_step_ok by blast
  show "bench_alloc junk body iters = of_nat iters * (0x2f + of_nat (length (response body)))"
    unfolding bench_alloc_def by (induction iters) (simp_all add: alloc_step_eq [OF assms(2)] algebra_simps)
qed

theorem responses_equivalent_witness:
  "length (ascii ''Hello, World!'') + 512 \<le> batch_size \<and>
   batch_ok (response (ascii ''Hello, World!'')) 3 (bench_gutter (replicate batch_size 0) (ascii ''Hello, World!'') 3) \<and>
   bench_alloc (\<lambda>_. 0) (ascii ''Hello, World!'') 3 = 3 * (0x2f + of_nat (length (response (ascii ''Hello, World!''))))"
proof -
  have "length (ascii ''Hello, World!'') + 512 \<le> batch_size" by (simp add: ascii_def batch_size_def)
  with responses_equivalent [OF length_replicate this, of 3 0 "\<lambda>_. 0"] show ?thesis by simp
qed

text \<open>
  The growing read buffer and the persistent one see the same request: whatever a fresh block holds, the
  doubling buffer returns and is filled with the bytes of the wire, so the two loops compute the same sum.
\<close>

theorem reqbuf_strategies_agree:
  assumes "0 < req_len" "req_len \<le> length wire" "req_len \<le> length conn_buf"
  shows "bench_reqbuf_grow junk wire req_len iters = Some (snd (bench_reqbuf_persistent conn_buf wire req_len iters))"
  using grow_equals_persistent [OF assms] by blast

theorem reqbuf_strategies_agree_witness:
  "bench_reqbuf_grow (\<lambda>_. 0) (replicate 512 0x72) 512 4 =
     Some (snd (bench_reqbuf_persistent (replicate 8192 0) (replicate 512 0x72) 512 4))"
  by (rule reqbuf_strategies_agree) simp_all

end
