(* ===== verification/Pipeline.thy ===== *)
theory Pipeline
  imports Respond Sys
begin

text \<open>
  The three connection models of \<^verbatim>\<open>src/bench/e2e.c\<close>, a pipelining HTTP server: persistent buffers with one send per
  batch, responses written in place (mode 1) or built in a block and copied (mode 2), and a fresh growing
  buffer per event with one send per response (mode 3). An event is the list of answers \<^verbatim>\<open>recv\<close> gives until it
  would block; the result lists the buffers handed to \<^verbatim>\<open>send_all\<close>.
\<close>

section \<open>Framing\<close>

definition BODY :: "byte list" where
  "BODY = ascii ''Hello, World!''"

function req_end_from :: "byte list \<Rightarrow> nat \<Rightarrow> nat option" where
  "req_end_from b i =
     (if i < length b then
        (if b ! (i - 3) = 13 \<and> b ! (i - 2) = 10 \<and> b ! (i - 1) = 13 \<and> b ! i = 10 then Some (i + 1)
         else req_end_from b (i + 1))
      else None)"
  by pat_completeness auto
termination by (relation "measure (\<lambda>(b, i). length b - i)") auto

declare req_end_from.simps [simp del]

text \<open>\<open>None\<close> is the answer \<open>-1\<close>.\<close>

definition find_req_end :: "byte list \<Rightarrow> nat option" where
  "find_req_end b = req_end_from b 3"

lemma req_end_from_bounds: "req_end_from b i = Some n \<Longrightarrow> i < n \<and> n \<le> length b"
proof (induction b i rule: req_end_from.induct)
  case (1 b i)
  show ?case using 1(2) by (subst (asm) req_end_from.simps) (auto split: if_splits dest!: 1(1))
qed

lemma find_req_end_bounds: "find_req_end b = Some n \<Longrightarrow> 3 < n \<and> n \<le> length b"
  unfolding find_req_end_def by (rule req_end_from_bounds)

section \<open>Connections\<close>

record conn_t =
  rbuf :: "byte list" \<comment> \<open>16384 bytes\<close>
  rlen :: nat
  wbuf :: "byte list" \<comment> \<open>65536 bytes\<close>

text \<open>
  What the socket has for an event: bytes, the peer's close, or nothing more (\<open>r < 0\<close>, also at the end of the
  list). A \<^verbatim>\<open>recv\<close> for \<open>spare\<close> bytes takes at most that many and leaves the rest; for none it answers \<open>0\<close>.
\<close>

datatype answer = Got "byte list" | Closed | Would_Block

datatype recv_ret = Bytes "byte list" | Zero | Negative

fun recv_from :: "nat \<Rightarrow> answer list \<Rightarrow> recv_ret \<times> answer list" where
  "recv_from spare (Got bs # as) =
     (if spare = 0 \<or> bs = [] then (Zero, Got bs # as)
      else (Bytes (take spare bs), if spare < length bs then Got (drop spare bs) # as else as))"
| "recv_from spare (Closed # as) = (Zero, as)"
| "recv_from spare (Would_Block # as) = (if spare = 0 then Zero else Negative, as)"
| "recv_from spare [] = (if spare = 0 then Zero else Negative, [])"

definition queued :: "answer list \<Rightarrow> nat" where
  "queued as = sum_list (map (\<lambda>a. case a of Got bs \<Rightarrow> length bs | _ \<Rightarrow> 0) as)"

lemma recv_from_queued: "recv_from spare as = (Bytes bs, as') \<Longrightarrow> queued as' < queued as"
  by (induction spare as rule: recv_from.induct) (auto simp: queued_def split: if_splits)

text \<open>The receive loop into a buffer of fixed size: the buffer, its length, and whether the peer is gone.\<close>

function drain :: "byte list \<Rightarrow> nat \<Rightarrow> answer list \<Rightarrow> byte list \<times> nat \<times> bool" where
  "drain buf len as =
     (case recv_from (length buf - len) as of
        (Bytes bs, as') \<Rightarrow> drain (memcpy_at buf len bs) (len + length bs) as'
      | (Zero, as') \<Rightarrow> (buf, len, True)
      | (Negative, as') \<Rightarrow> (buf, len, False))"
  by pat_completeness auto
termination
  by (relation "measure (\<lambda>(buf, len, as). queued as)") (auto dest!: recv_from_queued [OF sym])

declare drain.simps [simp del]

text \<open>The requests of the buffer answered into \<^verbatim>\<open>wbuf\<close>: in place (mode 1), or built in a block and copied.\<close>

function batch_loop :: "(nat \<Rightarrow> byte) \<Rightarrow> nat \<Rightarrow> byte list \<Rightarrow> nat \<Rightarrow> byte list \<Rightarrow> nat \<Rightarrow> nat \<Rightarrow> byte list \<times> nat \<times> nat" where
  "batch_loop junk mode rb rl wb pos woff =
     (case find_req_end (segment pos rl rb) of
        None \<Rightarrow> (wb, pos, woff)
      | Some used \<Rightarrow>
          (let (wb', woff') =
             (if mode = 1 then build_into wb woff BODY
              else (case alloc_build junk BODY of (resp, n) \<Rightarrow> (memcpy_at wb woff (take n resp), woff + n)))
           in batch_loop junk mode rb rl wb' (pos + used) woff'))"
  by pat_completeness auto
termination
  by (relation "measure (\<lambda>(junk, mode, rb, rl, wb, pos, woff). length rb - pos)")
    (auto simp: segment_def dest!: find_req_end_bounds)

declare batch_loop.simps [simp del]

definition handle_batch :: "(nat \<Rightarrow> byte) \<Rightarrow> nat \<Rightarrow> conn_t \<Rightarrow> answer list \<Rightarrow> conn_t option \<times> byte list list" where
  "handle_batch junk mode cs as =
     (case drain (rbuf cs) (rlen cs) as of (rb, rl, dead) \<Rightarrow>
       case batch_loop junk mode rb rl (wbuf cs) 0 0 of (wb, pos, woff) \<Rightarrow>
         (let cs' = (if pos > 0 then cs\<lparr>rbuf := memcpy_at rb 0 (segment pos rl rb), rlen := rl - pos, wbuf := wb\<rparr>
                     else cs\<lparr>rbuf := rb, rlen := rl, wbuf := wb\<rparr>)
          in (if dead then None else Some cs', if woff > 0 then [take woff wb] else [])))"

text \<open>Mode 3: the capacity that holds the saved bytes, the receive loop that doubles the buffer, a send per response.\<close>

function grow_cap :: "nat \<Rightarrow> nat \<Rightarrow> nat" where
  "grow_cap n cap = (if n > cap \<and> cap > 0 then grow_cap n (cap * 2) else cap)"
  by pat_completeness auto
termination by (relation "measure (\<lambda>(n, cap). n - cap)") auto

declare grow_cap.simps [simp del]

definition room :: "(nat \<Rightarrow> byte) \<Rightarrow> byte list \<Rightarrow> nat \<Rightarrow> byte list" where
  "room junk buf len = (if len = length buf then buf @ fresh_block junk (length buf) else buf)"

function drain_grow :: "(nat \<Rightarrow> byte) \<Rightarrow> byte list \<Rightarrow> nat \<Rightarrow> answer list \<Rightarrow> byte list \<times> nat \<times> bool" where
  "drain_grow junk buf len as =
     (let buf' = room junk buf len in
      case recv_from (length buf' - len) as of
        (Bytes bs, as') \<Rightarrow> drain_grow junk (memcpy_at buf' len bs) (len + length bs) as'
      | (Zero, as') \<Rightarrow> (buf', len, True)
      | (Negative, as') \<Rightarrow> (buf', len, False))"
  by pat_completeness auto
termination
  by (relation "measure (\<lambda>(junk, buf, len, as). queued as)") (auto dest!: recv_from_queued [OF sym])

declare drain_grow.simps [simp del]

function single_loop :: "(nat \<Rightarrow> byte) \<Rightarrow> byte list \<Rightarrow> nat \<Rightarrow> nat \<Rightarrow> byte list list \<Rightarrow> nat \<times> byte list list" where
  "single_loop junk buf len pos sends =
     (case find_req_end (segment pos len buf) of
        None \<Rightarrow> (pos, sends)
      | Some used \<Rightarrow>
          (case alloc_build junk BODY of (resp, n) \<Rightarrow> single_loop junk buf len (pos + used) (sends @ [take n resp])))"
  by pat_completeness auto
termination
  by (relation "measure (\<lambda>(junk, buf, len, pos, sends). length buf - pos)")
    (auto simp: segment_def dest!: find_req_end_bounds)

declare single_loop.simps [simp del]

definition handle_single :: "(nat \<Rightarrow> byte) \<Rightarrow> conn_t \<Rightarrow> answer list \<Rightarrow> conn_t option \<times> byte list list" where
  "handle_single junk sv as =
     (let buf0 = fresh_block junk 256;
          (buf1, len1, sv1) =
            (if rlen sv > 0
             then (let cap = grow_cap (rlen sv) 256
                   in (memcpy_at (take cap (buf0 @ fresh_block junk cap)) 0 (take (rlen sv) (rbuf sv)),
                       rlen sv, sv\<lparr>rlen := 0\<rparr>))
             else (buf0, 0, sv))
      in case drain_grow junk buf1 len1 as of (buf, len, dead) \<Rightarrow>
           if dead then (None, [])
           else
             (case single_loop junk buf len 0 [] of (pos, sends) \<Rightarrow>
                (Some (if len > pos
                       then sv1\<lparr>rlen := len - pos, rbuf := memcpy_at (rbuf sv1) 0 (segment pos len buf)\<rparr> else sv1),
                 sends)))"

text \<open>
  An event of a connection, and a sequence of them: \<open>None\<close> is a connection closed and freed, \<^verbatim>\<open>conns[fd] = NULL\<close>,
  whose descriptor has no further events.
\<close>

definition handle_event :: "(nat \<Rightarrow> byte) \<Rightarrow> nat \<Rightarrow> conn_t \<Rightarrow> answer list \<Rightarrow> conn_t option \<times> byte list list" where
  "handle_event junk mode cs as = (if mode = 3 then handle_single junk cs as else handle_batch junk mode cs as)"

fun serve :: "(nat \<Rightarrow> byte) \<Rightarrow> nat \<Rightarrow> conn_t option \<Rightarrow> answer list list \<Rightarrow> conn_t option \<times> byte list list" where
  "serve junk mode (Some cs) (as # evs) =
     (case handle_event junk mode cs as of (slot, sends) \<Rightarrow>
        case serve junk mode slot evs of (slot', rest) \<Rightarrow> (slot', sends @ rest))"
| "serve junk mode slot evs = (slot, [])"

text \<open>\<^verbatim>\<open>calloc\<close> of the accept loop.\<close>

definition fresh_conn :: conn_t where
  "fresh_conn = \<lparr>rbuf = replicate 16384 0, rlen = 0, wbuf = replicate 65536 0\<rparr>"

section \<open>Sending\<close>

text \<open>The loop spins while the socket is full, so it may not return; a failed send gives the rest up.\<close>

partial_function (option) send_all :: "'k kernel \<Rightarrow> int \<Rightarrow> byte list \<Rightarrow> nat \<Rightarrow> nat \<Rightarrow> 'k \<Rightarrow> 'k option" where
  "send_all K fd b len off k =
     (if off < len then
        (case k_send K fd (segment off len b) [MSG_NOSIGNAL] k of (r, k') \<Rightarrow>
           (case r of
              SysOk n \<Rightarrow> if n > 0 then send_all K fd b len (off + n) k' else Some k'
            | SysErr e \<Rightarrow> if e = EAGAIN \<or> e = EWOULDBLOCK then send_all K fd b len off k' else Some k'))
      else Some k)"

text \<open>The calls of an event, in order.\<close>

fun send_each :: "'k kernel \<Rightarrow> int \<Rightarrow> byte list list \<Rightarrow> 'k \<Rightarrow> 'k option" where
  "send_each K fd [] k = Some k"
| "send_each K fd (b # bs) k = Option.bind (send_all K fd b (length b) 0 k) (send_each K fd bs)"

text \<open>A peer that stays and reads: a send of some bytes fails only with \<^verbatim>\<open>EAGAIN\<close>, not for ever, and sends some.\<close>

definition peer_reads :: "'k kernel \<Rightarrow> int \<Rightarrow> bool" where
  "peer_reads K fd \<longleftrightarrow>
     (\<forall>bs fl k. bs \<noteq> [] \<longrightarrow> settles (\<lambda>e. e = EAGAIN) (k_send K fd bs fl) k \<and>
        (case fst (k_send K fd bs fl k) of SysOk n \<Rightarrow> n > 0 | SysErr e \<Rightarrow> e = EAGAIN))"

section \<open>Specification\<close>

text \<open>The complete requests of a byte stream, and what is left of it.\<close>

function split_requests :: "byte list \<Rightarrow> nat \<times> byte list" where
  "split_requests b =
     (case find_req_end b of
        None \<Rightarrow> (0, b)
      | Some n \<Rightarrow> (case split_requests (drop n b) of (k, r) \<Rightarrow> (Suc k, r)))"
  by pat_completeness auto
termination by (relation "measure length") (auto dest!: find_req_end_bounds)

declare split_requests.simps [simp del]

fun received :: "answer list \<Rightarrow> byte list" where
  "received (Got bs # as) = bs @ received as"
| "received as = []"

fun keeps_open :: "answer list \<Rightarrow> bool" where
  "keeps_open [] = True"
| "keeps_open (Got bs # as) = (bs \<noteq> [] \<and> keeps_open as)"
| "keeps_open (Closed # as) = False"
| "keeps_open (Would_Block # as) = True"

text \<open>
  Events the buffers are large enough for, from pending bytes \<open>p\<close>: a receive buffer that fills up makes the
  next \<^verbatim>\<open>recv\<close> ask for no byte, and its answer \<open>0\<close> reads as a close.
\<close>

fun fits :: "byte list \<Rightarrow> answer list list \<Rightarrow> bool" where
  "fits p [] = True"
| "fits p (as # evs) =
     (keeps_open as \<and> length (p @ received as) < 16384 \<and>
      fst (split_requests (p @ received as)) * length (response BODY) \<le> 65536 \<and>
      fits (snd (split_requests (p @ received as))) evs)"

definition pending :: "conn_t \<Rightarrow> byte list" where
  "pending cs = take (rlen cs) (rbuf cs)"

definition conn_ok :: "conn_t \<Rightarrow> bool" where
  "conn_ok cs \<longleftrightarrow> length (rbuf cs) = 16384 \<and> rlen cs \<le> 16384 \<and> length (wbuf cs) = 65536"

section \<open>Lemmas\<close>

lemma req_end_from_append: "req_end_from b i = Some n \<Longrightarrow> req_end_from (b @ c) i = Some n"
proof (induction b i rule: req_end_from.induct)
  case (1 b i)
  let ?m = "\<lambda>b. b ! (i - 3) = 13 \<and> b ! (i - 2) = 10 \<and> b ! (i - 1) = 13 \<and> b ! i = (10 :: byte)"
  have i: "i < length b" using 1(2) req_end_from.simps [of b i] by (auto split: if_splits)
  then have "(b @ c) ! j = b ! j" if "j \<le> i" for j using that by (simp add: nth_append)
  then have m: "?m (b @ c) = ?m b" by simp
  show ?case
  proof (cases "?m b")
    case True
    with 1(2) i m show ?thesis by (simp add: req_end_from.simps [of b i] req_end_from.simps [of "b @ c" i])
  next
    case False
    then have "req_end_from b (i + 1) = Some n" using 1(2) i req_end_from.simps [of b i] by (simp only: if_True if_False)
    then have "req_end_from (b @ c) (i + 1) = Some n" by (rule 1(1) [OF i False])
    with False i m show ?thesis
      using req_end_from.simps [of "b @ c" i] by (simp only: length_append trans_less_add1 if_True if_False)
  qed
qed

lemma find_req_end_append: "find_req_end b = Some n \<Longrightarrow> find_req_end (b @ c) = Some n"
  unfolding find_req_end_def by (rule req_end_from_append)

lemma split_requests_append:
  "split_requests (b @ c) =
     (case split_requests b of (k, r) \<Rightarrow> case split_requests (r @ c) of (k', r') \<Rightarrow> (k + k', r'))"
proof (induction b rule: split_requests.induct)
  case (1 b)
  show ?case
  proof (cases "find_req_end b")
    case None
    then show ?thesis by (simp add: split_requests.simps [of b] split: prod.splits)
  next
    case (Some n)
    then have "n \<le> length b" using find_req_end_bounds by blast
    with 1 [OF Some] Some find_req_end_append [OF Some, of c] show ?thesis
      by (simp add: split_requests.simps [of b] split_requests.simps [of "b @ c"] split: prod.splits)
  qed
qed

lemma BODY_response: "length BODY + 512 \<le> batch_size" "0 < length (response BODY)"
  by (simp_all add: BODY_def ascii_def batch_size_def response_itoa10)

lemma alloc_build_BODY: "(case alloc_build junk BODY of (resp, n) \<Rightarrow> (take n resp, n)) = (response BODY, length (response BODY))"
  by (simp add: alloc_build_eq [OF BODY_response(1)])

lemma segment_drop: "segment (pos + n) hi xs = drop n (segment pos hi xs)"
  by (simp add: segment_def drop_take ac_simps)

text \<open>Both modes of the batch loop append one response to \<^verbatim>\<open>wbuf\<close>.\<close>

lemma batch_loop_step:
  assumes "find_req_end (segment pos rl rb) = Some used" "woff + length (response BODY) \<le> length wb"
  shows "batch_loop junk mode rb rl wb pos woff =
    batch_loop junk mode rb rl (memcpy_at wb woff (response BODY)) (pos + used) (woff + length (response BODY))"
  using assms alloc_build_BODY [of junk]
  by (subst batch_loop.simps) (auto simp: build_into_eq split: prod.splits)

lemma batch_loop_ok:
  assumes "split_requests (segment pos rl rb) = (k, r)" "rl \<le> length rb"
    and "woff + k * length (response BODY) \<le> length wb"
  shows "\<exists>wb' pos'. batch_loop junk mode rb rl wb pos woff = (wb', pos', woff + k * length (response BODY)) \<and>
    segment pos' rl rb = r \<and> length wb' = length wb \<and> pos \<le> pos' \<and> (pos \<le> rl \<longrightarrow> pos' \<le> rl) \<and>
    take (woff + k * length (response BODY)) wb' = take woff wb @ concat (replicate k (response BODY))"
  using assms
proof (induction k arbitrary: pos wb woff)
  case 0
  then have "find_req_end (segment pos rl rb) = None" "r = segment pos rl rb"
    by (auto simp: split_requests.simps [of "segment pos rl rb"] split: option.splits prod.splits)
  then show ?case by (subst batch_loop.simps) simp
next
  case (Suc k)
  then obtain n where n: "find_req_end (segment pos rl rb) = Some n"
      and rest: "split_requests (segment (pos + n) rl rb) = (k, r)"
    by (auto simp: split_requests.simps [of "segment pos rl rb"] segment_drop split: option.splits prod.splits)
  let ?L = "length (response BODY)" and ?wb = "memcpy_at wb woff (response BODY)"
  have fit: "woff + ?L \<le> length wb" using Suc.prems(3) by simp
  have le: "pos \<le> rl \<Longrightarrow> pos + n \<le> rl" using find_req_end_bounds [OF n] Suc.prems(2) by (simp add: le_diff_conv2)
  have "woff + ?L + k * ?L \<le> length ?wb" using Suc.prems(3) fit by simp
  from Suc.IH [OF rest Suc.prems(2) this] obtain wb' pos' where
    ih: "batch_loop junk mode rb rl ?wb (pos + n) (woff + ?L) = (wb', pos', woff + ?L + k * ?L)"
      "segment pos' rl rb = r" "length wb' = length ?wb" "pos + n \<le> pos'" "pos + n \<le> rl \<longrightarrow> pos' \<le> rl"
      "take (woff + ?L + k * ?L) wb' = take (woff + ?L) ?wb @ concat (replicate k (response BODY))"
    by blast
  show ?case
    using batch_loop_step [OF n fit, of junk mode] ih le fit take_memcpy_at [OF fit]
    by (auto simp: add.assoc)
qed

lemma single_loop_ok:
  assumes "split_requests (segment pos len buf) = (k, r)" "len \<le> length buf"
  shows "\<exists>pos'. single_loop junk buf len pos sends = (pos', sends @ replicate k (response BODY)) \<and>
    segment pos' len buf = r \<and> (pos \<le> len \<longrightarrow> pos' \<le> len)"
  using assms
proof (induction k arbitrary: pos sends)
  case 0
  then have "find_req_end (segment pos len buf) = None" "r = segment pos len buf"
    by (auto simp: split_requests.simps [of "segment pos len buf"] split: option.splits prod.splits)
  then show ?case by (subst single_loop.simps) simp
next
  case (Suc k)
  then obtain n where n: "find_req_end (segment pos len buf) = Some n"
      and rest: "split_requests (segment (pos + n) len buf) = (k, r)"
    by (auto simp: split_requests.simps [of "segment pos len buf"] segment_drop split: option.splits prod.splits)
  have le: "pos \<le> len \<Longrightarrow> pos + n \<le> len" using find_req_end_bounds [OF n] Suc.prems(2) by (simp add: le_diff_conv2)
  have "single_loop junk buf len pos sends = single_loop junk buf len (pos + n) (sends @ [response BODY])"
    using n alloc_build_BODY [of junk] by (subst single_loop.simps) (auto split: prod.splits)
  with Suc.IH [OF rest Suc.prems(2), of "sends @ [response BODY]"] le show ?case by auto
qed

lemma recv_from_open:
  assumes "keeps_open as" "0 < spare"
  shows "(\<exists>bs as'. recv_from spare as = (Bytes bs, as') \<and> received as = bs @ received as' \<and> keeps_open as' \<and>
      length bs \<le> spare) \<or>
    (\<exists>as'. recv_from spare as = (Negative, as') \<and> received as = [])"
  using assms by (cases "(spare, as)" rule: recv_from.cases) auto

lemma drain_ok:
  assumes "keeps_open as" "len + length (received as) < length buf"
  shows "\<exists>buf'. drain buf len as = (buf', len + length (received as), False) \<and> length buf' = length buf \<and>
    take (len + length (received as)) buf' = take len buf @ received as"
  using assms
proof (induction buf len as rule: drain.induct)
  case step: (1 buf len as)
  from recv_from_open [OF step(2), of "length buf - len"] step(3) consider
      (bytes) bs as' where "recv_from (length buf - len) as = (Bytes bs, as')" "received as = bs @ received as'"
        "keeps_open as'" "length bs \<le> length buf - len"
    | (none) as' where "recv_from (length buf - len) as = (Negative, as')" "received as = []"
    by auto
  then show ?case
  proof cases
    case bytes
    have fit: "len + length bs \<le> length buf" using bytes(4) step(3) by simp
    then have "len + length bs + length (received as') < length (memcpy_at buf len bs)" using step(3) bytes(2) by simp
    from step(1) [OF bytes(1) [symmetric] refl bytes(3) this] show ?thesis
      using bytes fit take_memcpy_at [OF fit] by (subst drain.simps) (auto simp: add.assoc)
  next
    case none
    then show ?thesis by (subst drain.simps) simp
  qed
qed

lemma room_ok:
  assumes "len \<le> length buf" "0 < length buf"
  shows "len < length (room junk buf len)" "take len (room junk buf len) = take len buf"
  using assms by (auto simp: room_def)

lemma drain_grow_ok:
  assumes "keeps_open as" "len \<le> length buf" "0 < length buf"
  shows "\<exists>buf'. drain_grow junk buf len as = (buf', len + length (received as), False) \<and>
    len + length (received as) \<le> length buf' \<and>
    take (len + length (received as)) buf' = take len buf @ received as"
  using assms
proof (induction junk buf len as rule: drain_grow.induct)
  case step: (1 junk buf len as)
  let ?b = "room junk buf len"
  note room = room_ok [OF step(3,4), of junk]
  from recv_from_open [OF step(2), of "length ?b - len"] room(1) consider
      (bytes) bs as' where "recv_from (length ?b - len) as = (Bytes bs, as')" "received as = bs @ received as'"
        "keeps_open as'" "length bs \<le> length ?b - len"
    | (none) as' where "recv_from (length ?b - len) as = (Negative, as')" "received as = []"
    by auto
  then show ?case
  proof cases
    case bytes
    have fit: "len + length bs \<le> length ?b" using bytes(4) room(1) by simp
    then have "len + length bs \<le> length (memcpy_at ?b len bs)" "0 < length (memcpy_at ?b len bs)" using room(1) by auto
    from step(1) [OF refl bytes(1) [symmetric] refl bytes(3) this] show ?thesis
      using bytes fit room take_memcpy_at [OF fit] by (subst drain_grow.simps) (auto simp: Let_def add.assoc)
  next
    case none
    with room show ?thesis by (subst drain_grow.simps) (simp add: Let_def)
  qed
qed

lemma grow_cap_ok: "0 < cap \<Longrightarrow> n \<le> grow_cap n cap \<and> cap \<le> grow_cap n cap"
proof (induction n cap rule: grow_cap.induct)
  case (1 n cap)
  then show ?case by (cases "n > cap") (auto simp: grow_cap.simps [of n cap])
qed

text \<open>What an event does to a connection, in every mode.\<close>

definition event_ok :: "conn_t \<Rightarrow> answer list \<Rightarrow> conn_t option \<times> byte list list \<Rightarrow> bool" where
  "event_ok cs as res \<longleftrightarrow>
     (case split_requests (pending cs @ received as) of (k, r) \<Rightarrow>
        \<exists>cs' sends. res = (Some cs', sends) \<and> conn_ok cs' \<and> pending cs' = r \<and>
          concat sends = concat (replicate k (response BODY)))"

lemma take_segment_0: "take n xs = segment 0 n xs"
  by (simp add: segment_def)

lemma handle_batch_ok:
  assumes "conn_ok cs" "fits (pending cs) [as]"
  shows "event_ok cs as (handle_batch junk mode cs as)"
proof -
  let ?n = "rlen cs + length (received as)" and ?L = "length (response BODY)"
  have len: "length (pending cs) = rlen cs" using assms(1) by (simp add: pending_def conn_ok_def)
  obtain k r where kr: "split_requests (pending cs @ received as) = (k, r)" by fastforce
  have small: "keeps_open as" "?n < length (rbuf cs)" "0 + k * ?L \<le> length (wbuf cs)"
    using assms kr len by (auto simp: conn_ok_def)
  obtain rb where rb: "drain (rbuf cs) (rlen cs) as = (rb, ?n, False)" "length rb = length (rbuf cs)"
      "take ?n rb = pending cs @ received as"
    using drain_ok [OF small(1,2)] by (auto simp: pending_def)
  have "split_requests (segment 0 ?n rb) = (k, r)" using kr rb(3) by (simp add: take_segment_0)
  from batch_loop_ok [OF this _ small(3), of junk mode] small(2) rb(2) obtain wb pos where
    loop: "batch_loop junk mode rb ?n (wbuf cs) 0 0 = (wb, pos, k * ?L)" "segment pos ?n rb = r"
      "length wb = length (wbuf cs)" "pos \<le> ?n" "take (k * ?L) wb = concat (replicate k (response BODY))"
    by auto
  have r: "length r = ?n - pos" using loop(2) small(2) rb(2) by auto
  show ?thesis
  proof (cases "pos = 0")
    case True
    then show ?thesis using loop rb(1,2) assms(1) kr r small(2) BODY_response(2)
      by (auto simp: event_ok_def handle_batch_def conn_ok_def pending_def Let_def take_segment_0)
  next
    case False
    then show ?thesis using loop rb(1,2) assms(1) kr r small(2) take_memcpy_at_0 [of r rb] BODY_response(2)
      by (auto simp: event_ok_def handle_batch_def conn_ok_def pending_def Let_def)
  qed
qed

lemma handle_single_ok:
  assumes "conn_ok cs" "fits (pending cs) [as]"
  shows "event_ok cs as (handle_single junk cs as)"
proof -
  let ?n = "rlen cs + length (received as)"
  define cap where "cap = grow_cap (rlen cs) 256"
  define buf1 where "buf1 = (if rlen cs > 0
    then memcpy_at (take cap (fresh_block junk 256 @ fresh_block junk cap)) 0 (take (rlen cs) (rbuf cs))
    else fresh_block junk 256)"
  define sv1 where "sv1 = (if rlen cs > 0 then cs\<lparr>rlen := 0\<rparr> else cs)"
  have len: "length (pending cs) = rlen cs" using assms(1) by (simp add: pending_def conn_ok_def)
  have cap: "rlen cs \<le> cap" "256 \<le> cap" using grow_cap_ok [of 256 "rlen cs"] by (simp_all add: cap_def)
  have "length buf1 = (if rlen cs > 0 then cap else 256)" using cap len by (simp add: buf1_def pending_def)
  then have buf1: "rlen cs \<le> length buf1" "0 < length buf1" using cap by (auto split: if_splits)
  have take1: "take (rlen cs) buf1 = pending cs"
    using len take_memcpy_at_0 [of "pending cs"] by (auto simp: buf1_def pending_def)
  obtain k r where kr: "split_requests (pending cs @ received as) = (k, r)" by fastforce
  have small: "keeps_open as" "?n < 16384" using assms len by auto
  obtain buf where d: "drain_grow junk buf1 (rlen cs) as = (buf, ?n, False)" "?n \<le> length buf"
      "take ?n buf = pending cs @ received as"
    using drain_grow_ok [OF small(1) buf1, of junk] take1 by auto
  have "split_requests (segment 0 ?n buf) = (k, r)" using kr d(3) by (simp add: take_segment_0)
  from single_loop_ok [OF this d(2), of junk "[]"] obtain pos where
    loop: "single_loop junk buf ?n 0 [] = (pos, replicate k (response BODY))" "segment pos ?n buf = r" "pos \<le> ?n"
    by auto
  have r: "length r = ?n - pos" using loop(2) d(2) by auto
  have eq: "handle_single junk cs as =
      (Some (if ?n > pos then sv1\<lparr>rlen := ?n - pos, rbuf := memcpy_at (rbuf sv1) 0 r\<rparr> else sv1),
       replicate k (response BODY))"
    using d(1) loop unfolding handle_single_def buf1_def sv1_def cap_def by (auto simp: Let_def)
  have sv1: "rlen sv1 = 0" "length (rbuf sv1) = 16384" "length (wbuf sv1) = 65536"
    using assms(1) by (auto simp: sv1_def conn_ok_def)
  show ?thesis unfolding eq event_ok_def kr
    using sv1 r small(2) take_memcpy_at_0 [of r "rbuf sv1"] by (auto simp: conn_ok_def pending_def)
qed

lemma handle_event_ok:
  assumes "conn_ok cs" "fits (pending cs) [as]"
  shows "event_ok cs as (handle_event junk mode cs as)"
  using handle_batch_ok [OF assms] handle_single_ok [OF assms] by (simp add: handle_event_def)

lemma split_requests_idem: "split_requests b = (k, r) \<Longrightarrow> split_requests r = (0, r)"
proof (induction b arbitrary: k rule: split_requests.induct)
  case (1 b)
  show ?case
  proof (cases "find_req_end b")
    case None
    then show ?thesis using 1(2) by (simp add: split_requests.simps [of b]) (simp add: split_requests.simps)
  next
    case (Some n)
    with 1(2) obtain k' where "split_requests (drop n b) = (k', r)"
      by (auto simp: split_requests.simps [of b] split: prod.splits)
    then show ?thesis by (rule 1(1) [OF Some])
  qed
qed

lemma serve_ok:
  assumes "conn_ok cs" "fits (pending cs) evs" "split_requests (pending cs) = (0, pending cs)"
  shows "\<exists>cs' sends. serve junk mode (Some cs) evs = (Some cs', sends) \<and> conn_ok cs' \<and>
    (case split_requests (pending cs @ concat (map received evs)) of (k, r) \<Rightarrow>
       pending cs' = r \<and> concat sends = concat (replicate k (response BODY)))"
  using assms
proof (induction evs arbitrary: cs)
  case (Cons as evs)
  obtain k r where kr: "split_requests (pending cs @ received as) = (k, r)" by fastforce
  have "fits (pending cs) [as]" using Cons.prems(2) by simp
  from handle_event_ok [OF Cons.prems(1) this, of junk mode] kr obtain cs1 s1 where
    ev: "handle_event junk mode cs as = (Some cs1, s1)" "conn_ok cs1" "pending cs1 = r"
      "concat s1 = concat (replicate k (response BODY))"
    by (auto simp: event_ok_def)
  have "fits (pending cs1) evs" using Cons.prems(2) kr ev(3) by simp
  from Cons.IH [OF ev(2) this] split_requests_idem [OF kr] ev(3) obtain cs2 s2 where
    rest: "serve junk mode (Some cs1) evs = (Some cs2, s2)" "conn_ok cs2"
      "case split_requests (r @ concat (map received evs)) of (k', r') \<Rightarrow>
         pending cs2 = r' \<and> concat s2 = concat (replicate k' (response BODY))"
    by auto
  show ?case using ev rest kr split_requests_append [of "pending cs @ received as" "concat (map received evs)"]
    by (auto simp: replicate_add split: prod.splits)
qed simp

lemma send_all_ok:
  assumes sock: "send_socket K fd wire" and reads: "peer_reads K fd" and "off \<le> length b"
  shows "\<exists>k'. send_all K fd b (length b) off k = Some k' \<and> wire k' = wire k @ drop off b"
  using assms(3)
proof (induction "length b - off" arbitrary: off k rule: less_induct)
  case less
  let ?call = "k_send K fd (segment off (length b) b) [MSG_NOSIGNAL]"
  show ?case
  proof (cases "off < length b")
    case False
    with less.prems show ?thesis by (subst send_all.simps) simp
  next
    case True
    have seg: "segment off (length b) b = drop off b" by (simp add: segment_def)
    then have ne: "segment off (length b) b \<noteq> []" using True by simp
    have law: "case fst (?call k) of SysOk n \<Rightarrow> n > 0 | SysErr e \<Rightarrow> e = EAGAIN"
        and settle: "settles (\<lambda>e. e = EAGAIN) ?call k" for k
      using reads ne unfolding peer_reads_def by simp_all
    from settle [of k] show ?thesis
    proof (induction rule: settles_induct)
      case (stop k)
      have "case fst (?call k) of SysOk n \<Rightarrow> n > 0 | SysErr e \<Rightarrow> e = EAGAIN" by (rule law)
      then obtain m k' where m: "?call k = (SysOk m, k')" "0 < m"
        using stop by (cases "?call k" rule: syscall_cases) auto
      have w: "m \<le> length b - off" "wire k' = wire k @ take m (drop off b)"
        using send_socketD(1) [OF sock m(1)] by (simp_all add: seg)
      have "length b - (off + m) < length b - off" "off + m \<le> length b" using m(2) w(1) True by linarith+
      from less.hyps [OF this, of k'] obtain k2 where
        "send_all K fd b (length b) (off + m) k' = Some k2" "wire k2 = wire k' @ drop (off + m) b" by (elim exE conjE)
      moreover have "take m (drop off b) @ drop (off + m) b = drop off b"
        by (metis append_take_drop_id drop_drop add.commute)
      ultimately show ?case using m True w(2) by (subst send_all.simps) simp
    next
      case (restart k e k1)
      with True send_socketD(2) [OF sock restart(1)] show ?case by (subst send_all.simps) simp
    qed
  qed
qed

lemma send_each_ok:
  assumes "send_socket K fd wire" "peer_reads K fd"
  shows "\<exists>k'. send_each K fd bs k = Some k' \<and> wire k' = wire k @ concat bs"
proof (induction bs arbitrary: k)
  case (Cons b bs)
  obtain k1 where k1: "send_all K fd b (length b) 0 k = Some k1" "wire k1 = wire k @ b"
    using send_all_ok [OF assms, of 0 b k] by auto
  with Cons.IH [of k1] show ?case by auto
qed simp

lemma fresh_conn_ok: "conn_ok fresh_conn" "pending fresh_conn = []"
  by (simp_all add: fresh_conn_def conn_ok_def pending_def)

lemma split_requests_Nil: "split_requests [] = (0, [])"
  by (simp add: split_requests.simps find_req_end_def req_end_from.simps)

text \<open>The smallest request, for the witnesses.\<close>

lemma split_requests_crlf: "split_requests (crlf @ crlf) = (1, [])"
proof -
  have "find_req_end (crlf @ crlf) = Some 4"
    by (simp add: find_req_end_def crlf_def req_end_from.simps [of _ 3])
  then show ?thesis by (subst split_requests.simps) (simp add: crlf_def split_requests_Nil)
qed

lemma split_requests_cr: "split_requests crlf = (0, crlf)"
proof -
  have "find_req_end crlf = None" by (simp add: find_req_end_def crlf_def req_end_from.simps [of _ 3])
  then show ?thesis by (subst split_requests.simps) simp
qed

lemma queue_kernel_reads: "peer_reads queue_kernel fd"
  by (auto simp: peer_reads_def queue_kernel_def intro!: settles_at_once)

lemma fits_crlf: "fits [] [[Got crlf], [Got crlf, Would_Block]]"
proof -
  have "length (response BODY) \<le> 1000"
    using response_length [OF BODY_response(1)] by (simp add: BODY_def ascii_def)
  moreover have "crlf \<noteq> []" by (simp add: crlf_def)
  ultimately show ?thesis by (simp add: split_requests_cr split_requests_crlf [unfolded One_nat_def])
qed

section \<open>Properties\<close>

text \<open>
  C35. The three modes of the server are the same server: however the bytes of a connection arrive, in whatever
  pieces and events, as long as the peer stays and the buffers are large enough, in-place batches, copied
  batches and one send per response put the same bytes on the wire, one response per complete request of the
  stream in order, and keep the same unfinished request for the next event, whatever \<^verbatim>\<open>malloc\<close> hands out.
\<close>

theorem e2e_modes_agree:
  assumes "fits [] evs" "send_socket K fd wire" "peer_reads K fd"
  shows "\<exists>cs sends k'. serve junk mode (Some fresh_conn) evs = (Some cs, sends) \<and>
    send_each K fd sends k = Some k' \<and> conn_ok cs \<and>
    pending cs = snd (split_requests (concat (map received evs))) \<and>
    wire k' = wire k @ concat (replicate (fst (split_requests (concat (map received evs)))) (response BODY))"
proof -
  obtain cs sends where "serve junk mode (Some fresh_conn) evs = (Some cs, sends)" "conn_ok cs"
      "pending cs = snd (split_requests (concat (map received evs)))"
      "concat sends = concat (replicate (fst (split_requests (concat (map received evs)))) (response BODY))"
    using serve_ok [OF fresh_conn_ok(1), of evs junk mode] assms(1) split_requests_Nil
    by (auto simp: fresh_conn_ok(2) case_prod_beta)
  with send_each_ok [OF assms(2,3), of sends k] show ?thesis by auto
qed

theorem e2e_modes_agree_witness:
  "fits [] [[Got crlf], [Got crlf, Would_Block]] \<and>
   (\<exists>cs sends k'. serve (\<lambda>_. 0) 3 (Some fresh_conn) [[Got crlf], [Got crlf, Would_Block]] = (Some cs, sends) \<and>
      send_each queue_kernel 7 sends ([], []) = Some k' \<and> pending cs = [] \<and> snd k' = response BODY)"
proof -
  note e2e_modes_agree [OF fits_crlf queue_kernel_send [of 7] queue_kernel_reads [of 7], of "\<lambda>_. 0" 3 "([], [])"]
  with fits_crlf split_requests_crlf show ?thesis by auto
qed

text \<open>
  A receive buffer filled to its last byte reads as a close: the next \<^verbatim>\<open>recv\<close> asks for no byte and answers \<open>0\<close>.
\<close>

lemma full_buffer_closes: "length buf \<le> len \<Longrightarrow> drain buf len as = (buf, len, True)"
  by (subst drain.simps) (cases "(0::nat, as)" rule: recv_from.cases, auto)

text \<open>
  A peer that closes after its last request is answered by the batched modes and not by the third, which
  drops what arrived in the event of the close.
\<close>

lemma single_drops_on_close: "handle_single junk fresh_conn [Got (crlf @ crlf), Closed] = (None, [])"
  by (simp add: handle_single_def fresh_conn_def crlf_def drain_grow.simps room_def)

end
