(* ===== verification/Ipc.thy ===== *)
theory Ipc
  imports Sys Bytes
begin

text \<open>
  The server side of \<^verbatim>\<open>src/bench/ipcbench.c\<close>: the full-transfer loops over a blocking stream socket, the echo
  phase, the sink that acknowledges a byte count, and the accept churn. \<^verbatim>\<open>read\<close> and \<^verbatim>\<open>write\<close> on a socket are
  \<^verbatim>\<open>recv\<close> and \<^verbatim>\<open>send\<close> without flags; \<^verbatim>\<open>accept\<close> is an argument. The process ending in \<^verbatim>\<open>die\<close> is a value.
\<close>

section \<open>Processes that may exit\<close>

datatype 'a outcome = Done 'a | Died string

type_synonym ('a, 'k) proc = "('a outcome \<times> 'k) option"


text \<open>
  The process returns or exits: where it returns the result and the state satisfy \<open>Q\<close>, and it exits only in
  a state that is \<open>bad\<close>.
\<close>

definition runs :: "('k \<Rightarrow> bool) \<Rightarrow> ('a, 'k) proc \<Rightarrow> ('a \<Rightarrow> 'k \<Rightarrow> bool) \<Rightarrow> bool" where
  "runs bad m Q \<longleftrightarrow> (\<exists>r k. m = Some (r, k) \<and> (case r of Done a \<Rightarrow> Q a k | Died what \<Rightarrow> bad k))"

lemma runs_Done [simp]: "runs bad (Some (Done a, k)) Q = Q a k"
  by (simp add: runs_def)

lemma runs_Died [simp]: "runs bad (Some (Died what, k)) Q = bad k"
  by (simp add: runs_def)



section \<open>Full transfers\<close>



section \<open>The server\<close>














section \<open>What the server relies on\<close>





section \<open>Lemmas\<close>

















section \<open>Properties\<close>



end
