(* ===== verification/Example_Helpers.thy ===== *)
theory Example_Helpers
  imports Bytes
begin

text \<open>
  The C helpers of three example programs: \<^verbatim>\<open>spawn_producer\<close> (\<^verbatim>\<open>src/examples/async_incremental_read/producer.c\<close>),
  the epoll aggregator (\<^verbatim>\<open>src/examples/async_fan_out/src/fan_out.h\<close>) and the check for multishot accept
  (\<^verbatim>\<open>src/examples/io_uring_demo/probe.c\<close>). The calls each makes are a record of functions it takes as an
  argument. Messages printed on the way are left out.
\<close>

section \<open>Spawning a producer\<close>



text \<open>\<open>a && b\<close> on calls: the second is made only when the first succeeded.\<close>

definition both :: "bool \<times> 'k \<Rightarrow> ('k \<Rightarrow> bool \<times> 'k) \<Rightarrow> bool \<times> 'k" where
  "both r f = (case r of (ok, k) \<Rightarrow> if ok then f k else (False, k))"









lemma both_keeps:
  assumes "res (snd r) = x" and "\<And>k. res (snd (f k)) = res k"
  shows "res (snd (both r f)) = x"
  using assms by (auto simp: both_def split: prod.splits)


section \<open>The epoll aggregator\<close>

text \<open>An event and the \<^verbatim>\<open>u32\<close> member of its data, the low half on a little-endian machine.\<close>

record epoll_event =
  ev_in :: bool
  ev_data :: u64

definition data_u32 :: "u64 \<Rightarrow> u32" where
  "data_u32 d = ucast d"

definition set_data_u32 :: "u64 \<Rightarrow> u32 \<Rightarrow> u64" where
  "set_data_u32 d w = push_bit 32 (drop_bit 32 d) OR ucast w"

record 'k epoll_api =
  e_create1 :: "'k \<Rightarrow> int sysret \<times> 'k"
  e_ctl_add :: "int \<Rightarrow> int \<Rightarrow> epoll_event \<Rightarrow> 'k \<Rightarrow> unit sysret \<times> 'k"
  e_wait :: "int \<Rightarrow> int \<Rightarrow> 'k \<Rightarrow> epoll_event list sysret \<times> 'k" \<comment> \<open>the timeout is 0\<close>

definition fan_open :: "'k epoll_api \<Rightarrow> 'k \<Rightarrow> int \<times> 'k" where
  "fan_open E k = (case e_create1 E k of (SysOk fd, k') \<Rightarrow> (fd, k') | (SysErr e, k') \<Rightarrow> (- 1, k'))"

definition fan_add :: "'k epoll_api \<Rightarrow> int \<Rightarrow> int \<Rightarrow> int \<Rightarrow> 'k \<Rightarrow> int \<times> 'k" where
  "fan_add E agg fd idx k =
     (case e_ctl_add E agg fd \<lparr>ev_in = True, ev_data = set_data_u32 0 (word_of_int idx)\<rparr> k of
        (SysOk u, k') \<Rightarrow> (0, k') | (SysErr e, k') \<Rightarrow> (- 1, k'))"

definition fan_ready :: "'k epoll_api \<Rightarrow> int \<Rightarrow> int list \<Rightarrow> int \<Rightarrow> 'k \<Rightarrow> (nat \<times> int list) \<times> 'k" where
  "fan_ready E agg idx mx k =
     (case e_wait E agg (if mx > 64 then 64 else mx) k of
        (SysOk evs, k') \<Rightarrow> ((length evs, memcpy_at idx 0 (map (\<lambda>ev. sint (data_u32 (ev_data ev))) evs)), k')
      | (SysErr e, k') \<Rightarrow> ((0, idx), k'))"

text \<open>
  \<open>members k agg\<close>: the data each member was added with. A wait reports at most as many events as asked, each
  with the data of a member.
\<close>

definition epoll_laws :: "'k epoll_api \<Rightarrow> ('k \<Rightarrow> int \<Rightarrow> int \<rightharpoonup> u64) \<Rightarrow> bool" where
  "epoll_laws E members \<longleftrightarrow>
     (\<forall>agg fd ev k k'. e_ctl_add E agg fd ev k = (SysOk (), k') \<longrightarrow>
        members k' = (members k)(agg := (members k agg)(fd \<mapsto> ev_data ev))) \<and>
     (\<forall>agg fd ev k k' e. e_ctl_add E agg fd ev k = (SysErr e, k') \<longrightarrow> members k' = members k) \<and>
     (\<forall>agg mx k k' evs. e_wait E agg mx k = (SysOk evs, k') \<longrightarrow> int (length evs) \<le> mx \<and> members k' = members k \<and>
        (\<forall>ev \<in> set evs. ev_data ev \<in> ran (members k agg)))"

lemma data_u32_set [simp]: "data_u32 (set_data_u32 d w) = w"
  by (rule bit_word_eqI) (auto simp: data_u32_def set_data_u32_def bit_simps)

text \<open>Adding members with their indices, until one fails.\<close>

fun fan_add_all :: "'k epoll_api \<Rightarrow> int \<Rightarrow> (int \<times> int) list \<Rightarrow> 'k \<Rightarrow> int \<times> 'k" where
  "fan_add_all E agg [] k = (0, k)"
| "fan_add_all E agg ((fd, idx) # ms) k =
     (case fan_add E agg fd idx k of (r, k') \<Rightarrow> if r = 0 then fan_add_all E agg ms k' else (r, k'))"

lemma fan_add_all_members:
  assumes laws: "epoll_laws E members"
  shows "d \<in> ran (members (snd (fan_add_all E agg ms k)) agg) \<Longrightarrow>
    d \<in> ran (members k agg) \<or> (\<exists>fd idx. (fd, idx) \<in> set ms \<and> d = set_data_u32 0 (word_of_int idx))"
proof (induction ms arbitrary: k)
  case (Cons m ms)
  obtain fd idx where m: "m = (fd, idx)" by fastforce
  let ?ev = "\<lparr>ev_in = True, ev_data = set_data_u32 0 (word_of_int idx)\<rparr>"
  show ?case
  proof (cases "e_ctl_add E agg fd ?ev k" rule: syscall_cases)
    case (Ok u k')
    then have mem: "members k' agg = (members k agg)(fd \<mapsto> ev_data ?ev)"
      using laws unfolding epoll_laws_def by simp
    have "d \<in> ran (members (snd (fan_add_all E agg ms k')) agg)" using Cons.prems Ok m by (simp add: fan_add_def)
    from Cons.IH [OF this] mem show ?thesis using m by (auto simp: ran_def split: if_splits)
  next
    case (Err e k')
    then have "members k' = members k" using laws unfolding epoll_laws_def by blast
    with Cons.prems Err m show ?thesis by (simp add: fan_add_def)
  qed
qed simp

text \<open>Every index a wake reports is one a member was added with, and they fit the caller's array.\<close>

lemma fan_ready_reports_members:
  assumes laws: "epoll_laws E members" and empty: "members k agg = Map.empty"
    and small: "\<forall>(fd, idx) \<in> set ms. - (2 ^ 31) \<le> idx \<and> idx < 2 ^ 31" and "mx \<le> int (length idxs)"
    and ready: "fan_ready E agg idxs mx (snd (fan_add_all E agg ms k)) = ((n, out), k')"
  shows "n \<le> 64 \<and> length out = length idxs \<and> set (take n out) \<subseteq> snd ` set ms"
proof (cases "e_wait E agg (if mx > 64 then 64 else mx) (snd (fan_add_all E agg ms k))" rule: syscall_cases)
  case (Ok evs k1)
  then have len: "int (length evs) \<le> (if mx > 64 then 64 else mx)"
      and data: "\<forall>ev \<in> set evs. ev_data ev \<in> ran (members (snd (fan_add_all E agg ms k)) agg)"
    using laws unfolding epoll_laws_def by blast+
  have fit: "length evs \<le> length idxs" "length evs \<le> 64" using len assms(4) by (auto split: if_splits)
  have out: "n = length evs" "out = memcpy_at idxs 0 (map (\<lambda>ev. sint (data_u32 (ev_data ev))) evs)"
    using ready Ok by (simp_all add: fan_ready_def)
  have "sint (data_u32 (ev_data ev)) \<in> snd ` set ms" if "ev \<in> set evs" for ev
  proof -
    from data that have "ev_data ev \<in> ran (members (snd (fan_add_all E agg ms k)) agg)" by blast
    from fan_add_all_members [OF laws this] empty obtain fd idx where
      m: "(fd, idx) \<in> set ms" "ev_data ev = set_data_u32 0 (word_of_int idx)" by auto
    with small have "sint (word_of_int idx :: u32) = idx" by (auto simp: sint_sbintrunc' signed_take_bit_int_eq_self_iff)
    with m show ?thesis by force
  qed
  moreover have "take n out = map (\<lambda>ev. sint (data_u32 (ev_data ev))) evs"
    using take_memcpy_at_0 [of "map (\<lambda>ev. sint (data_u32 (ev_data ev))) evs" idxs] out by simp
  ultimately show ?thesis using out fit by auto
next
  case (Err e k1)
  with ready show ?thesis by (auto simp: fan_ready_def)
qed

section \<open>Multishot accept\<close>

text \<open>
  A completion: its result, negative for an error, and whether \<^verbatim>\<open>IORING_CQE_F_MORE\<close> is set. A socket
  address is the bytes of a \<^verbatim>\<open>sockaddr_in\<close>; \<open>True\<close> is success.
\<close>

record cqe =
  cqe_res :: int
  cqe_more :: bool

record 'k ring_api =
  r_socket :: "'k \<Rightarrow> int sysret \<times> 'k"
  r_bind :: "int \<Rightarrow> byte list \<Rightarrow> 'k \<Rightarrow> bool \<times> 'k"
  r_listen :: "int \<Rightarrow> int \<Rightarrow> 'k \<Rightarrow> bool \<times> 'k"
  r_getsockname :: "int \<Rightarrow> 'k \<Rightarrow> byte list sysret \<times> 'k"
  r_connect :: "int \<Rightarrow> byte list \<Rightarrow> 'k \<Rightarrow> bool \<times> 'k"
  r_close :: "int \<Rightarrow> 'k \<Rightarrow> 'k"
  r_get_sqe :: "'k \<Rightarrow> bool \<times> 'k"
  r_submit_accept :: "int \<Rightarrow> 'k \<Rightarrow> int \<times> 'k" \<comment> \<open>multishot\<close>
  r_wait_cqe :: "'k \<Rightarrow> cqe sysret \<times> 'k"
  r_cqe_seen :: "'k \<Rightarrow> 'k"

abbreviation (input) EINVAL :: int where "EINVAL \<equiv> 22"

text \<open>The part between the connection and \<^verbatim>\<open>out:\<close>, with the value of \<^verbatim>\<open>works\<close>.\<close>

definition probe_accept :: "'k ring_api \<Rightarrow> int \<Rightarrow> 'k \<Rightarrow> int \<times> 'k" where
  "probe_accept R lfd k =
     (case r_get_sqe R k of (ok, k1) \<Rightarrow>
        if \<not> ok then (- 1, k1)
        else (case r_submit_accept R lfd k1 of (ret, k2) \<Rightarrow>
          if ret \<noteq> 1 then (- 1, k2)
          else (case r_wait_cqe R k2 of
              (SysErr e, k3) \<Rightarrow> (- 1, k3)
            | (SysOk c, k3) \<Rightarrow>
                if cqe_res c \<ge> 0 then (if cqe_more c then 1 else 0, r_cqe_seen R (r_close R (cqe_res c) k3))
                else if cqe_res c = - EINVAL then (0, r_cqe_seen R k3)
                else (- 1, r_cqe_seen R k3))))"

text \<open>The loopback address with port 0, in network order after the family on a little-endian machine.\<close>

definition loopback :: "byte list" where
  "loopback = [2, 0, 0, 0, 127, 0, 0, 1] @ replicate 8 0"

text \<open>The calls on the listener after \<^verbatim>\<open>socket\<close>: the address it got, or nothing when one of them failed.\<close>

definition probe_listener :: "'k ring_api \<Rightarrow> int \<Rightarrow> 'k \<Rightarrow> byte list option \<times> 'k" where
  "probe_listener R lfd k =
     (case both (r_bind R lfd loopback k) (r_listen R lfd 8) of (ok, k1) \<Rightarrow>
        if ok then (case r_getsockname R lfd k1 of (SysOk addr, k2) \<Rightarrow> (Some addr, k2) | (SysErr e, k2) \<Rightarrow> (None, k2))
        else (None, k1))"

definition multishot_accept_works :: "'k ring_api \<Rightarrow> 'k \<Rightarrow> int \<times> 'k" where
  "multishot_accept_works R k =
     (case r_socket R k of
        (SysErr e, k1) \<Rightarrow> (- 1, k1)
      | (SysOk lfd, k1) \<Rightarrow>
          (case probe_listener R lfd k1 of
             (None, k2) \<Rightarrow> (- 1, r_close R lfd k2)
           | (Some addr, k2) \<Rightarrow>
               (case r_socket R k2 of
                 (SysErr e, k3) \<Rightarrow> (- 1, r_close R lfd k3)
               | (SysOk cfd, k3) \<Rightarrow>
                   (case r_connect R cfd addr k3 of (ok, k4) \<Rightarrow>
                      case (if ok then probe_accept R lfd k4 else (- 1, k4)) of (works, k5) \<Rightarrow>
                        (works, r_close R lfd (r_close R cfd k5))))))"

text \<open>A completed accept has opened its result; every other call but \<^verbatim>\<open>socket\<close> and \<^verbatim>\<open>close\<close> keeps the table.\<close>

definition ring_laws :: "'k ring_api \<Rightarrow> ('k \<Rightarrow> int set) \<Rightarrow> bool" where
  "ring_laws R fds \<longleftrightarrow>
     (\<forall>k k' fd. r_socket R k = (SysOk fd, k') \<longrightarrow> fd \<notin> fds k \<and> fds k' = insert fd (fds k)) \<and>
     (\<forall>k k' e. r_socket R k = (SysErr e, k') \<longrightarrow> fds k' = fds k) \<and>
     (\<forall>fd n addr k. fds (snd (r_bind R fd addr k)) = fds k \<and> fds (snd (r_listen R fd n k)) = fds k \<and>
        fds (snd (r_getsockname R fd k)) = fds k) \<and>
     (\<forall>fd addr k. fds (snd (r_connect R fd addr k)) = fds k) \<and>
     (\<forall>fd k. fds (r_close R fd k) = fds k - {fd}) \<and> (\<forall>k. fds (snd (r_get_sqe R k)) = fds k) \<and>
     (\<forall>fd k. fds (snd (r_submit_accept R fd k)) = fds k) \<and> (\<forall>k. fds (r_cqe_seen R k) = fds k) \<and>
     (\<forall>k k' c. r_wait_cqe R k = (SysOk c, k') \<longrightarrow>
        (if cqe_res c \<ge> 0 then cqe_res c \<notin> fds k \<and> fds k' = insert (cqe_res c) (fds k) else fds k' = fds k)) \<and>
     (\<forall>k k' e. r_wait_cqe R k = (SysErr e, k') \<longrightarrow> fds k' = fds k)"

lemma ring_lawsD:
  assumes "ring_laws R fds"
  shows "r_socket R k = (SysOk fd, k') \<Longrightarrow> fd \<notin> fds k \<and> fds k' = insert fd (fds k)"
    and "r_socket R k = (SysErr e, k') \<Longrightarrow> fds k' = fds k"
    and "fds (snd (r_bind R fd addr k)) = fds k \<and> fds (snd (r_listen R fd n k)) = fds k \<and>
      fds (snd (r_getsockname R fd k)) = fds k"
    and "r_connect R fd addr k = (ok, k') \<Longrightarrow> fds k' = fds k"
    and "fds (r_close R fd k) = fds k - {fd}"
    and "r_get_sqe R k = (ok, k') \<Longrightarrow> fds k' = fds k"
    and "r_submit_accept R fd k = (ret, k') \<Longrightarrow> fds k' = fds k"
    and "fds (r_cqe_seen R k) = fds k"
    and "r_wait_cqe R k = (SysOk c, k') \<Longrightarrow>
      if cqe_res c \<ge> 0 then cqe_res c \<notin> fds k \<and> fds k' = insert (cqe_res c) (fds k) else fds k' = fds k"
    and "r_wait_cqe R k = (SysErr e, k') \<Longrightarrow> fds k' = fds k"
proof -
  note l = assms [unfolded ring_laws_def]
  show "r_socket R k = (SysOk fd, k') \<Longrightarrow> fd \<notin> fds k \<and> fds k' = insert fd (fds k)"
    by (rule l [THEN conjunct1, THEN spec [of _ k], THEN spec [of _ "k'"], THEN spec [of _ fd], THEN mp])
  show "r_socket R k = (SysErr e, k') \<Longrightarrow> fds k' = fds k"
    by (rule l [THEN conjunct2, THEN conjunct1, THEN spec [of _ k], THEN spec [of _ "k'"], THEN spec [of _ e], THEN mp])
  show "fds (snd (r_bind R fd addr k)) = fds k \<and> fds (snd (r_listen R fd n k)) = fds k \<and>
      fds (snd (r_getsockname R fd k)) = fds k"
    by (rule l [THEN conjunct2, THEN conjunct2, THEN conjunct1, THEN spec [of _ fd], THEN spec [of _ n], THEN spec [of _ addr], THEN spec [of _ k]])
  show "r_connect R fd addr k = (ok, k') \<Longrightarrow> fds k' = fds k"
    using l [THEN conjunct2, THEN conjunct2, THEN conjunct2, THEN conjunct1, THEN spec [of _ fd], THEN spec [of _ addr], THEN spec [of _ k]] by simp
  show "fds (r_close R fd k) = fds k - {fd}"
    by (rule l [THEN conjunct2, THEN conjunct2, THEN conjunct2, THEN conjunct2, THEN conjunct1, THEN spec [of _ fd], THEN spec [of _ k]])
  show "r_get_sqe R k = (ok, k') \<Longrightarrow> fds k' = fds k"
    using l [THEN conjunct2, THEN conjunct2, THEN conjunct2, THEN conjunct2, THEN conjunct2, THEN conjunct1, THEN spec [of _ k]] by simp
  show "r_submit_accept R fd k = (ret, k') \<Longrightarrow> fds k' = fds k"
    using l [THEN conjunct2, THEN conjunct2, THEN conjunct2, THEN conjunct2, THEN conjunct2, THEN conjunct2, THEN conjunct1, THEN spec [of _ fd], THEN spec [of _ k]] by simp
  show "fds (r_cqe_seen R k) = fds k"
    by (rule l [THEN conjunct2, THEN conjunct2, THEN conjunct2, THEN conjunct2, THEN conjunct2, THEN conjunct2, THEN conjunct2, THEN conjunct1, THEN spec [of _ k]])
  show "r_wait_cqe R k = (SysOk c, k') \<Longrightarrow>
      if cqe_res c \<ge> 0 then cqe_res c \<notin> fds k \<and> fds k' = insert (cqe_res c) (fds k) else fds k' = fds k"
    by (rule l [THEN conjunct2, THEN conjunct2, THEN conjunct2, THEN conjunct2, THEN conjunct2, THEN conjunct2, THEN conjunct2, THEN conjunct2, THEN conjunct1, THEN spec [of _ k], THEN spec [of _ "k'"], THEN spec [of _ c], THEN mp])
  show "r_wait_cqe R k = (SysErr e, k') \<Longrightarrow> fds k' = fds k"
    by (rule l [THEN conjunct2, THEN conjunct2, THEN conjunct2, THEN conjunct2, THEN conjunct2, THEN conjunct2, THEN conjunct2, THEN conjunct2, THEN conjunct2, THEN spec [of _ k], THEN spec [of _ "k'"], THEN spec [of _ e], THEN mp])
qed

lemma probe_accept_fds:
  assumes laws: "ring_laws R fds"
  shows "fds (snd (probe_accept R lfd k)) = fds k"
proof -
  obtain ok k1 where a: "r_get_sqe R k = (ok, k1)" by (rule prod.exhaust)
  obtain ret k2 where b: "r_submit_accept R lfd k1 = (ret, k2)" by (rule prod.exhaust)
  note k1 = ring_lawsD(6) [OF laws a] and k2 = ring_lawsD(7) [OF laws b]
  show ?thesis
  proof (cases "r_wait_cqe R k2" rule: syscall_cases)
    case (Ok c k3)
    from ring_lawsD(9) [OF laws Ok] show ?thesis
      using a b Ok k1 k2 by (auto simp: probe_accept_def ring_lawsD(5,8) [OF laws] split: if_splits)
  next
    case (Err e k3)
    from ring_lawsD(10) [OF laws Err] show ?thesis using a b Err k1 k2 by (auto simp: probe_accept_def)
  qed
qed

lemma probe_listener_fds:
  assumes laws: "ring_laws R fds"
  shows "fds (snd (probe_listener R lfd k)) = fds k"
proof -
  obtain ok k1 where b: "both (r_bind R lfd loopback k) (r_listen R lfd 8) = (ok, k1)" by (rule prod.exhaust)
  have "fds (snd (both (r_bind R lfd loopback k) (r_listen R lfd 8))) = fds k"
    by (intro both_keeps [where res = fds]) (simp_all add: ring_lawsD(3) [OF laws])
  then have "fds k1 = fds k" using b by simp
  then show ?thesis
    using ring_lawsD(3) [OF laws, of lfd "[]" k1 0] b by (auto simp: probe_listener_def split: prod.splits sysret.splits)
qed

text \<open>The check leaves no descriptor open on any path, the accepted one included.\<close>

lemma multishot_accept_works_fds:
  assumes laws: "ring_laws R fds"
  shows "fds (snd (multishot_accept_works R k)) = fds k"
proof -
  show ?thesis
  proof (cases "r_socket R k" rule: syscall_cases)
    case l: (Ok lfd k1)
    obtain a k2 where li: "probe_listener R lfd k1 = (a, k2)" by (rule prod.exhaust)
    have k2: "lfd \<notin> fds k" "fds k2 = insert lfd (fds k)" using ring_lawsD(1) [OF laws l] probe_listener_fds [OF laws, of lfd k1] li by simp_all
    show ?thesis
    proof (cases a)
      case None
      then show ?thesis using l li k2 by (simp add: multishot_accept_works_def ring_lawsD(5) [OF laws])
    next
      case (Some addr)
      show ?thesis
      proof (cases "r_socket R k2" rule: syscall_cases)
        case c: (Ok cfd k3)
        obtain ok k4 where co: "r_connect R cfd addr k3 = (ok, k4)" by (rule prod.exhaust)
        obtain w k5 where p: "(if ok then probe_accept R lfd k4 else (- 1, k4)) = (w, k5)" by (rule prod.exhaust)
        have "fds k4 = insert cfd (fds k2)" "cfd \<notin> fds k2"
          using ring_lawsD(1) [OF laws c] ring_lawsD(4) [OF laws co] by simp_all
        moreover have "fds k5 = fds k4" using probe_accept_fds [OF laws, of lfd k4] p by (auto split: if_splits)
        ultimately show ?thesis
          using Some l li c co p k2 by (auto simp: multishot_accept_works_def ring_lawsD(5) [OF laws])
      next
        case (Err e k3)
        then show ?thesis
          using Some l li k2 ring_lawsD(2) [OF laws Err] by (auto simp: multishot_accept_works_def ring_lawsD(5) [OF laws])
      qed
    qed
  next
    case (Err e k1)
    then show ?thesis using ring_lawsD(2) [OF laws Err] by (simp add: multishot_accept_works_def)
  qed
qed




section \<open>Properties\<close>



end
