(* ===== verification/Spec2Isabelle.thy ===== *)
theory Spec2Isabelle
  imports Slots Shims Tls_Client Ktls Websocket Ws_Accept H2_Frame H2_Streams Hpack Vcam Pipeline
    Ipc Example_Helpers
begin

text \<open>
  A verification development for vanilla, an HTTP server library in V over a layer of C.

  \<^bold>\<open>The program.\<close> A server runs one event loop per worker (epoll, io_uring, kqueue, IOCP or poll). Handlers
  hand work that the loop must finish (a file to send, a large buffer, a connection to take over) to it
  through thread-local slots. Outgoing connections (the upstream client, the PostgreSQL client) are
  dialled and waited for through small C shims around the system calls. TLS is Mbed TLS behind a shim,
  \<^verbatim>\<open>src/tls/vanilla_tls.c\<close>, which reads ahead of the library, serialises the library's cryptography
  behind one lock where the library was built without threading, keeps sends out of that lock, and moves
  the record cryptography into the kernel (kTLS) after the handshake. The protocols above are in V: the
  WebSocket codec (\<^verbatim>\<open>src/websocket\<close>), and for HTTP/2 (\<^verbatim>\<open>src/http2\<close>) the frame codec, the stream table and HPACK.
  Beside the library are benches (\<^verbatim>\<open>src/bench\<close>) and examples (\<^verbatim>\<open>src/examples\<close>) with C of their own.

  \<^bold>\<open>Parameters.\<close> The kernel is a record of functions over an abstract state (\<^verbatim>\<open>'k kernel\<close>, theory Sys), Mbed
  TLS and PSA a record of functions over opaque objects (\<^verbatim>\<open>'m mbedtls\<close>, theory Mbedtls). A library call
  that calls back into the shim is a tree of callbacks, so a theorem about it holds for every way the
  library may use them. What the code relies on is stated as named predicates over these parameters and
  appears as a hypothesis where it is used: \<^verbatim>\<open>fd_table\<close> (descriptors), \<^verbatim>\<open>stream_socket\<close> (a receive takes
  the next bytes, fewer than asked only when drained; new bytes raise an edge), \<^verbatim>\<open>send_socket\<close>,
  \<^verbatim>\<open>calls_settle\<close> (no call is interrupted for ever), \<^verbatim>\<open>write_blocks\<close>, \<^verbatim>\<open>want_write_asks\<close> and \<^verbatim>\<open>tickets_finite\<close>
  (Mbed TLS's write: a call whose send blocked does not report a ticket, WANT_WRITE is answered after a
  blocked send only, and finitely many tickets interrupt a write), \<^verbatim>\<open>hkdf_law\<close> (PSA's HKDF-Expand). The camera device, the pipe, spawn,
  epoll and io_uring calls of the examples are such records too, with their laws in Vcam and Example_Helpers. Each is satisfied by a concrete kernel or library in a witness.

  \<^bold>\<open>Theories.\<close>

  \<^item> Prelude: results of system calls, \<^verbatim>\<open>retry\<close> (a loop that repeats an interrupted call, \<open>None\<close> when it
    never ends) with its rules, buffers (\<^verbatim>\<open>memcpy_at\<close>, \<^verbatim>\<open>segment\<close>).

  \<^item> Slots: \<^verbatim>\<open>src/core/sendfile_slot.h\<close>, \<^verbatim>\<open>queued_buf_slot.h\<close>, \<^verbatim>\<open>takeover_slot.h\<close>. One record per slot, one
    definition per function. A locale states what a slot promises (a gated one-element cell) and proves
    that answers are those of the cell and that requests do not see each other's leftovers; each slot
    interprets it.

  \<^item> Sys, Shims: the system calls, and the shims \<^verbatim>\<open>transport_shim.h\<close>, \<^verbatim>\<open>upstream_shim.h\<close>,
    \<^verbatim>\<open>pg_async_shim.h\<close>, \<^verbatim>\<open>file_sig.h\<close>, \<^verbatim>\<open>regular_file_nix.h\<close>, \<^verbatim>\<open>sigpipe_shim.h\<close>, \<^verbatim>\<open>epoll_shim.h\<close>: no
    descriptor leaks on any path of dial and dup, resolution copies exactly what fits, a file signature
    is injective, only the default SIGPIPE disposition is replaced.

  \<^item> Mbedtls: the library parameter, the trees of callbacks, \<^verbatim>\<open>run_lib\<close>, traces, and two locales that
    lift a law of the callbacks to whole library calls.

  \<^item> Tls_Ctx: contexts of \<^verbatim>\<open>vanilla_tls.c\<close>: the lock, self-signed and loaded certificates, ALPN, session
    tickets, server and client set-up. The certificate callback a configuration registers is a field of the
    context (\<^verbatim>\<open>conf_vrfy\<close>) that every session made from it starts with.

  \<^item> Tls_Session: sessions: the receive callback with its read-ahead, the send callback, handshake, read,
    write. The locales of Mbedtls are interpreted on the session's callbacks for six relations: what
    every callback leaves alone, the receive side, the send side, the wire, returning, and whether a receive was
    asked for.

  \<^item> Tls_Io: rules for the loops of handshake, read and write, and what each operation keeps.

  \<^item> Tls_Conn: a connection under its event loop as a step relation, its invariant, and the properties of
    reads, writes and returns.

  \<^item> Tls_Client: the client side: IP hosts, re-dials, certificate callbacks, error texts.

  \<^item> Ktls: key derivation, the handoff to the kernel, its one-time log lines.

  \<^item> Bytes: big-endian numbers and ASCII, shared by the codecs.

  \<^item> Websocket, Ws_Accept: \<^verbatim>\<open>src/websocket/websocket.v\<close>. Framing decisions are stable when more bytes arrive,
    written frames parse back, unmasking is its own inverse, and the accept key is base64 of SHA-1 as FIPS
    180-4 defines it.

  \<^item> H2_Frame, H2_Streams: \<^verbatim>\<open>src/http2/frame.v\<close> and \<^verbatim>\<open>streams.v\<close>. Frame headers are well typed and round trip; the
    open-addressing stream table refines a finite map, deletion by backward shift included.

  \<^item> Huffman, Hpack: \<^verbatim>\<open>src/http2/hpack.v\<close>. The table-driven Huffman decoder accepts exactly the canonical code;
    the block decoder keeps its table and arena within their limits on every input; response heads round trip.

  \<^item> Respond, Pipeline: the benches \<^verbatim>\<open>micro.c\<close> and \<^verbatim>\<open>e2e.c\<close>. All strategies of building a response write the same
    bytes, stated with an independent decimal notation, and the three server modes answer the same however
    the requests arrive.

  \<^item> Ipc: the server of \<^verbatim>\<open>ipcbench.c\<close>: exact transfers, echo, acknowledged count, no descriptor left.

  \<^item> Vcam: the camera example \<^verbatim>\<open>vcam.c\<close>: no leak on any path of opening and closing, frames owned while read.

  \<^item> Example_Helpers: \<^verbatim>\<open>producer.c\<close>, \<^verbatim>\<open>fan_out.h\<close> and the check of \<^verbatim>\<open>probe.c\<close>: what they open they close.

  \<^bold>\<open>Reading the model.\<close> A definition has the name of the C function it translates; a helper that
  translates a part of one (a loop, the code after a label) says so. A state passed explicitly is the
  session and the world (kernel state, PSA state, lock, log flags). \<open>None\<close> is an operation that does not
  return: an endless loop, or a thread that takes a lock it holds. Mbed TLS errors are \<^verbatim>\<open>MErr\<close>, byte counts
  \<^verbatim>\<open>MRet\<close>. Descriptors and C ints are \<open>int\<close>, sizes are \<open>nat\<close>, bytes are 8-bit words; machine words are
  used where the code computes modulo their size (file signatures, SHA-1, masks, byte counts returned as C ints).

  \<^bold>\<open>Bounds.\<close> The loops of handshake and read stop after 64 library calls, as in the code. The write loop is
  unbounded in the code and in the model (\<^verbatim>\<open>partial_function\<close>), as are the transfer loops of Ipc; that they
  return is a theorem. The theorem on lost wake-ups excludes a read whose 64 calls each skip a message (\<^verbatim>\<open>skipping\<close>), which gives up.

  \<^bold>\<open>Not modelled.\<close> The contents of Mbed TLS; errno texts; the scrubbing of local key buffers, which no
  operation can observe; thread interleavings (each theorem is about one thread between lock and unlock;
  the one-time flags are claimed by one atomic exchange); the event loops of the
  server backends; the HTTP/2 connection state machine, HTTP/1.1, the PostgreSQL protocol and the other V
  code; the load-generating clients and the timing of the benches.
\<close>

end
